(* ===== verification/UBoot_Prelude.thy ===== *)
theory UBoot_Prelude
  imports Main "HOL-Library.Word"
begin

unbundle bit_operations_syntax

text \<open>
  Shared vocabulary of the development: the C integer types of the 32-bit ARM target as words,
  the ways in which C code can leave its defined behaviour as values of an error type, little- and
  big-endian composition of 16-bit values, and the generic facts on lists, options and words
  that the component theories use.  The collections \<open>c_defs\<close> (definitions that are only
  abbreviations of C idioms and are unfolded by automation) and \<open>c_bounds\<close> (length and range
  facts) are filled by the components.
\<close>

named_theorems c_defs "definitions of C idioms, unfolded by automation"
named_theorems c_bounds "length preservation and range facts"

section \<open>Machine types\<close>

type_synonym u8 = "8 word"
type_synonym u16 = "16 word"
type_synonym u32 = "32 word"
type_synonym u64 = "64 word"
type_synonym s32 = "32 word"

text \<open>
  What a C function can do instead of returning.  An access outside its object, through a null
  pointer or to an object whose lifetime has ended has no defined behaviour; a loop that never
  leaves is recorded as such, and so is a reset of the board (\<open>do_reset\<close> does not return) and the
  use of a variable that was never set.
\<close>

datatype c_error =
    Out_Of_Bounds
  | Null_Deref
  | Dangling
  | Non_Termination
  | Board_Reset
  | Uninitialised

type_synonym 'a result = "c_error + 'a"

definition bind_result :: "'a result \<Rightarrow> ('a \<Rightarrow> 'b result) \<Rightarrow> 'b result" where
  [c_defs]: "bind_result r f = (case r of Inl e \<Rightarrow> Inl e | Inr a \<Rightarrow> f a)"

lemma bind_result_simps [simp]:
  "bind_result (Inl e) f = Inl e"
  "bind_result (Inr a) f = f a"
  by (simp_all add: bind_result_def)

lemma bind_result_eq_Inr:
  "bind_result r f = Inr b \<longleftrightarrow> (\<exists>a. r = Inr a \<and> f a = Inr b)"
  by (cases r) auto

lemma bind_result_InrE [elim!]:
  assumes "bind_result r f = Inr b"
  obtains a where "r = Inr a" and "f a = Inr b"
  using assms by (auto simp: bind_result_eq_Inr)

section \<open>Sixteen-bit values in memory\<close>

text \<open>
  The target is little endian (\<open>BYTE_ORDER\<close> in httpd/uipopt.h): a \<open>u16_t\<close> field of a packed
  header has its low byte first.
\<close>

definition le16 :: "u8 \<Rightarrow> u8 \<Rightarrow> u16" where
  "le16 lo hi = ucast lo + 256 * ucast hi"

definition lo8 :: "u16 \<Rightarrow> u8" where
  "lo8 w = ucast w"

definition hi8 :: "u16 \<Rightarrow> u8" where
  "hi8 w = ucast (drop_bit 8 w)"

lemma unat_lo8: "unat (lo8 w) = unat w mod 256"
  unfolding lo8_def by (simp add: unsigned_ucast_eq take_bit_eq_mod)

lemma unat_hi8: "unat (hi8 w) = unat w div 256"
proof -
  have "unat w div 256 < 256"
    using unsigned_less [of w, where 'a = nat] by (simp add: less_mult_imp_div_less)
  then show ?thesis
    unfolding hi8_def
    by (simp add: unsigned_ucast_eq take_bit_eq_mod drop_bit_eq_div unat_div_distrib)
qed

lemma unat_le16: "unat (le16 lo hi) = unat lo + 256 * unat hi"
proof -
  have lo: "unat lo < 256" and hi: "unat hi < 256"
    using unsigned_less [of lo, where 'a = nat] unsigned_less [of hi, where 'a = nat] by simp_all
  then have "unat lo + 256 * unat hi < 2 ^ 16" by simp
  then show ?thesis
    unfolding le16_def
    by (simp add: unat_word_ariths unsigned_ucast_eq take_bit_eq_mod)
qed

lemma le16_split [simp]: "le16 (lo8 w) (hi8 w) = w"
  by (rule word_unat_eq_iff [THEN iffD2]) (simp add: unat_le16 unat_lo8 unat_hi8)

lemma lo8_le16 [simp]: "lo8 (le16 a b) = a"
proof (rule word_unat_eq_iff [THEN iffD2])
  have "unat a < 256" using unsigned_less [of a, where 'a = nat] by simp
  then show "unat (lo8 (le16 a b)) = unat a" by (simp add: unat_le16 unat_lo8)
qed

lemma hi8_le16 [simp]: "hi8 (le16 a b) = b"
proof (rule word_unat_eq_iff [THEN iffD2])
  have "unat a < 256" using unsigned_less [of a, where 'a = nat] by simp
  then show "unat (hi8 (le16 a b)) = unat b" by (simp add: unat_le16 unat_hi8)
qed

lemma le16_eq_iff [simp]: "le16 a b = le16 c d \<longleftrightarrow> a = c \<and> b = d"
  by (metis lo8_le16 hi8_le16)

text \<open>\<open>HTONS\<close> and \<open>htons\<close> swap the two bytes.\<close>

definition htons :: "u16 \<Rightarrow> u16" where
  "htons w = le16 (hi8 w) (lo8 w)"

lemma htons_htons [simp]: "htons (htons w) = w"
  by (simp add: htons_def)

lemma htons_eq_iff [simp]: "htons a = htons b \<longleftrightarrow> a = b"
  by (metis htons_htons)

section \<open>Lists\<close>

lemma length_list_update_c [c_bounds]: "length (xs[i := v]) = length xs"
  by simp

text \<open>Overwriting a range of a buffer, the effect of \<open>memcpy\<close> into it.\<close>

definition put_bytes :: "nat \<Rightarrow> 'a list \<Rightarrow> 'a list \<Rightarrow> 'a list" where
  "put_bytes i vs xs = take i xs @ vs @ drop (i + length vs) xs"

lemma length_put_bytes [simp, c_bounds]:
  "i + length vs \<le> length xs \<Longrightarrow> length (put_bytes i vs xs) = length xs"
  by (simp add: put_bytes_def)

lemma nth_put_bytes:
  assumes "i + length vs \<le> length xs" and "j < length xs"
  shows "put_bytes i vs xs ! j = (if i \<le> j \<and> j < i + length vs then vs ! (j - i) else xs ! j)"
  using assms by (auto simp: put_bytes_def nth_append min_def)

lemma put_bytes_Nil [simp]: "put_bytes i [] xs = xs"
  by (simp add: put_bytes_def)

lemma take_drop_put_bytes [simp]:
  assumes "i + length vs \<le> length xs"
  shows "take (length vs) (drop i (put_bytes i vs xs)) = vs"
  using assms by (simp add: put_bytes_def)

end
