(* ===== verification/Uip_State.thy ===== *)
theory Uip_State
  imports UBoot_Prelude
begin

text \<open>
  The data model of the uIP stack used by the web recovery server: the constants of
  httpd/uipopt.h and httpd/uip.h, \<open>struct httpd_state\<close> (httpd/httpd.h), \<open>struct uip_conn\<close>
  (httpd/uip.h) and the global variables of httpd/uip.c as one record.  The temporaries \<open>c\<close>,
  \<open>opt\<close> and \<open>tmp16\<close> of uip.c carry no value from one packet to the next and are local
  variables of the model.  Code excluded by the configuration (\<open>UIP_UDP\<close>, \<open>UIP_ACTIVE_OPEN\<close>,
  \<open>UIP_REASSEMBLY\<close>, \<open>UIP_PINGADDRCONF\<close>, \<open>UIP_STATISTICS\<close> and \<open>UIP_LOGGING\<close> are 0) is not
  compiled and has no counterpart here.
\<close>

section \<open>Configuration constants\<close>

abbreviation (input) UIP_LLH_LEN :: nat where "UIP_LLH_LEN \<equiv> 14"
abbreviation (input) UIP_BUF_BYTES :: nat where "UIP_BUF_BYTES \<equiv> 1502"
abbreviation (input) UIP_CONNS :: nat where "UIP_CONNS \<equiv> 2"
abbreviation (input) UIP_LISTENPORTS :: nat where "UIP_LISTENPORTS \<equiv> 1"
abbreviation (input) UIP_TCP_MSS :: u16 where "UIP_TCP_MSS \<equiv> 1446"
abbreviation (input) UIP_RECEIVE_WINDOW :: u16 where "UIP_RECEIVE_WINDOW \<equiv> 3000"
abbreviation (input) UIP_RTO :: u8 where "UIP_RTO \<equiv> 3"
abbreviation (input) UIP_MAXRTX :: u8 where "UIP_MAXRTX \<equiv> 8"
abbreviation (input) UIP_MAXSYNRTX :: u8 where "UIP_MAXSYNRTX \<equiv> 3"
abbreviation (input) UIP_TIME_WAIT_TIMEOUT :: u8 where "UIP_TIME_WAIT_TIMEOUT \<equiv> 120"
abbreviation (input) UIP_TTL :: u8 where "UIP_TTL \<equiv> 255"

abbreviation (input) CLOSED :: u8 where "CLOSED \<equiv> 0"
abbreviation (input) SYN_RCVD :: u8 where "SYN_RCVD \<equiv> 1"
abbreviation (input) SYN_SENT :: u8 where "SYN_SENT \<equiv> 2"
abbreviation (input) ESTABLISHED :: u8 where "ESTABLISHED \<equiv> 3"
abbreviation (input) FIN_WAIT_1 :: u8 where "FIN_WAIT_1 \<equiv> 4"
abbreviation (input) FIN_WAIT_2 :: u8 where "FIN_WAIT_2 \<equiv> 5"
abbreviation (input) CLOSING :: u8 where "CLOSING \<equiv> 6"
abbreviation (input) TIME_WAIT :: u8 where "TIME_WAIT \<equiv> 7"
abbreviation (input) LAST_ACK :: u8 where "LAST_ACK \<equiv> 8"
abbreviation (input) TS_MASK :: u8 where "TS_MASK \<equiv> 15"
abbreviation (input) UIP_STOPPED :: u8 where "UIP_STOPPED \<equiv> 16"

abbreviation (input) TCP_FIN :: u8 where "TCP_FIN \<equiv> 0x01"
abbreviation (input) TCP_SYN :: u8 where "TCP_SYN \<equiv> 0x02"
abbreviation (input) TCP_RST :: u8 where "TCP_RST \<equiv> 0x04"
abbreviation (input) TCP_PSH :: u8 where "TCP_PSH \<equiv> 0x08"
abbreviation (input) TCP_ACK :: u8 where "TCP_ACK \<equiv> 0x10"
abbreviation (input) TCP_URG :: u8 where "TCP_URG \<equiv> 0x20"
abbreviation (input) TCP_CTL :: u8 where "TCP_CTL \<equiv> 0x3f"

abbreviation (input) UIP_ACKDATA :: u8 where "UIP_ACKDATA \<equiv> 1"
abbreviation (input) UIP_NEWDATA :: u8 where "UIP_NEWDATA \<equiv> 2"
abbreviation (input) UIP_REXMIT :: u8 where "UIP_REXMIT \<equiv> 4"
abbreviation (input) UIP_POLL :: u8 where "UIP_POLL \<equiv> 8"
abbreviation (input) UIP_CLOSE :: u8 where "UIP_CLOSE \<equiv> 16"
abbreviation (input) UIP_ABORT :: u8 where "UIP_ABORT \<equiv> 32"
abbreviation (input) UIP_CONNECTED :: u8 where "UIP_CONNECTED \<equiv> 64"
abbreviation (input) UIP_TIMEDOUT :: u8 where "UIP_TIMEDOUT \<equiv> 128"

abbreviation (input) UIP_DATA :: u8 where "UIP_DATA \<equiv> 1"
abbreviation (input) UIP_TIMER :: u8 where "UIP_TIMER \<equiv> 2"

abbreviation (input) UIP_PROTO_ICMP :: u8 where "UIP_PROTO_ICMP \<equiv> 1"
abbreviation (input) UIP_PROTO_TCP :: u8 where "UIP_PROTO_TCP \<equiv> 6"
abbreviation (input) ICMP_ECHO_REPLY :: u8 where "ICMP_ECHO_REPLY \<equiv> 0"
abbreviation (input) ICMP_ECHO :: u8 where "ICMP_ECHO \<equiv> 8"

section \<open>Pointers and state\<close>

text \<open>
  The data pointers of the stack (\<open>uip_appdata\<close>, \<open>uip_sappdata\<close>, \<open>dataptr\<close>) point into the
  packet buffer, into a static object (the HTML files, the static reply of httpd.c), into a stack
  array of a function that has returned, or nowhere.
\<close>

datatype ptr =
    Null
  | In_Buf nat
  | In_Obj nat nat
  | In_Stack nat

fun ptr_add :: "ptr \<Rightarrow> nat \<Rightarrow> ptr" where
  "ptr_add Null n = Null"
| "ptr_add (In_Buf i) n = In_Buf (i + n)"
| "ptr_add (In_Obj k i) n = In_Obj k (i + n)"
| "ptr_add (In_Stack i) n = In_Stack (i + n)"

type_synonym seq4 = "u8 \<times> u8 \<times> u8 \<times> u8"
type_synonym ip4 = "u16 \<times> u16"

record httpd_state =
  hs_state :: u8
  hs_count :: u16
  hs_dataptr :: ptr
  hs_upload :: u32
  hs_upload_total :: u32
  is_macrw_resp :: u8
  macrw_buf :: ptr
  macrw_len :: u16

record uip_conn =
  ripaddr :: ip4
  lport :: u16
  rport :: u16
  rcv_nxt :: seq4
  snd_nxt :: seq4
  clen :: u16
  mss :: u16
  initialmss :: u16
  sa :: u8
  sv :: u8
  rto :: u8
  tcpstateflags :: u8
  timer :: u8
  nrtx :: u8
  appstate :: httpd_state

record uip_state =
  uip_hostaddr :: ip4
  uip_buf :: "u8 list"
  uip_appdata :: ptr
  uip_sappdata :: ptr
  uip_urgdata :: ptr
  uip_urglen :: u8
  uip_len :: u16
  uip_slen :: u16
  uip_flags :: u8
  uip_conn_ix :: nat
  uip_conns :: "uip_conn list"
  uip_listenports :: "u16 list"
  ipid :: u16
  iss :: seq4
  uip_objs :: "u8 list list"

text \<open>\<open>uip_conn\<close>, the pointer to the current connection, is an index into \<open>uip_conns\<close>.\<close>

definition cur_conn :: "'a uip_state_scheme \<Rightarrow> uip_conn" where
  "cur_conn s = uip_conns s ! uip_conn_ix s"

definition upd_conn :: "nat \<Rightarrow> (uip_conn \<Rightarrow> uip_conn) \<Rightarrow> 'a uip_state_scheme \<Rightarrow> 'a uip_state_scheme" where
  "upd_conn k f s = s\<lparr>uip_conns := (uip_conns s)[k := f (uip_conns s ! k)]\<rparr>"

section \<open>Memory access\<close>

definition ld16 :: "u8 list \<Rightarrow> nat \<Rightarrow> u16" where
  "ld16 b i = le16 (b ! i) (b ! Suc i)"

definition st16 :: "nat \<Rightarrow> u16 \<Rightarrow> u8 list \<Rightarrow> u8 list" where
  "st16 i w b = b[i := lo8 w, Suc i := hi8 w]"

definition ld4 :: "u8 list \<Rightarrow> nat \<Rightarrow> seq4" where
  "ld4 b i = (b ! i, b ! (i + 1), b ! (i + 2), b ! (i + 3))"

fun st4 :: "nat \<Rightarrow> seq4 \<Rightarrow> u8 list \<Rightarrow> u8 list" where
  "st4 i (b0, b1, b2, b3) b = b[i := b0, i + 1 := b1, i + 2 := b2, i + 3 := b3]"

definition bytes_at :: "u8 list \<Rightarrow> nat \<Rightarrow> nat \<Rightarrow> u8 list" where
  "bytes_at b i n = take n (drop i b)"

text \<open>
  Reading \<open>n\<close> bytes at a pointer.  Reading no byte dereferences nothing; a read that leaves its
  object, goes through a null pointer or into a dead stack array is an error.
\<close>

fun read_mem :: "'a uip_state_scheme \<Rightarrow> ptr \<Rightarrow> nat \<Rightarrow> u8 list result" where
  "read_mem s p 0 = Inr []"
| "read_mem s Null n = Inl Null_Deref"
| "read_mem s (In_Stack i) n = Inl Dangling"
| "read_mem s (In_Buf i) n =
     (if i + n \<le> length (uip_buf s) then Inr (bytes_at (uip_buf s) i n) else Inl Out_Of_Bounds)"
| "read_mem s (In_Obj k i) n =
     (if k < length (uip_objs s) \<and> i + n \<le> length (uip_objs s ! k)
      then Inr (bytes_at (uip_objs s ! k) i n) else Inl Out_Of_Bounds)"

text \<open>The fields of the TCP/IP header at \<open>&uip_buf[UIP_LLH_LEN]\<close> (\<open>uip_tcpip_hdr\<close>).\<close>

abbreviation (input) "BUF_vhl b \<equiv> b ! 14"
abbreviation (input) "BUF_len0 b \<equiv> b ! 16"
abbreviation (input) "BUF_len1 b \<equiv> b ! 17"
abbreviation (input) "BUF_ipoffset0 b \<equiv> b ! 20"
abbreviation (input) "BUF_ipoffset1 b \<equiv> b ! 21"
abbreviation (input) "BUF_proto b \<equiv> b ! 23"
abbreviation (input) "BUF_ipchksum b \<equiv> ld16 b 24"
abbreviation (input) "BUF_srcipaddr b \<equiv> (ld16 b 26, ld16 b 28)"
abbreviation (input) "BUF_destipaddr b \<equiv> (ld16 b 30, ld16 b 32)"
abbreviation (input) "BUF_srcport b \<equiv> ld16 b 34"
abbreviation (input) "BUF_destport b \<equiv> ld16 b 36"
abbreviation (input) "BUF_seqno b \<equiv> ld4 b 38"
abbreviation (input) "BUF_ackno b \<equiv> ld4 b 42"
abbreviation (input) "BUF_tcpoffset b \<equiv> b ! 46"
abbreviation (input) "BUF_flags b \<equiv> b ! 47"
abbreviation (input) "BUF_wnd0 b \<equiv> b ! 48"
abbreviation (input) "BUF_wnd1 b \<equiv> b ! 49"
abbreviation (input) "BUF_tcpchksum b \<equiv> ld16 b 50"
abbreviation (input) "BUF_urgp0 b \<equiv> b ! 52"
abbreviation (input) "BUF_urgp1 b \<equiv> b ! 53"
abbreviation (input) "ICMPBUF_type b \<equiv> b ! 34"
abbreviation (input) "ICMPBUF_icmpchksum b \<equiv> ld16 b 36"

text \<open>The IP length field, high byte first.\<close>

definition BUF_iplen :: "u8 list \<Rightarrow> u16" where
  "BUF_iplen b = le16 (BUF_len1 b) (BUF_len0 b)"

section \<open>Facts on the accessors\<close>

lemma length_st16 [simp, c_bounds]: "length (st16 i w b) = length b"
  by (simp add: st16_def)

lemma length_st4 [simp, c_bounds]: "length (st4 i q b) = length b"
  by (cases q) simp

lemma nth_st16:
  "Suc i < length b \<Longrightarrow> st16 i w b ! j = (if j = i then lo8 w else if j = Suc i then hi8 w else b ! j)"
  by (simp add: st16_def nth_list_update)

lemma nth_st4:
  "i + 3 < length b \<Longrightarrow>
   st4 i (b0, b1, b2, b3) b ! j =
     (if j = i then b0 else if j = i + 1 then b1 else if j = i + 2 then b2
      else if j = i + 3 then b3 else b ! j)"
  by (simp add: nth_list_update)

lemma ld16_st16_same [simp]: "Suc i < length b \<Longrightarrow> ld16 (st16 i w b) i = w"
  by (simp add: ld16_def nth_st16)

lemma ld16_st16_other [simp]:
  "j \<noteq> i \<Longrightarrow> Suc j \<noteq> i \<Longrightarrow> j \<noteq> Suc i \<Longrightarrow> ld16 (st16 i w b) j = ld16 b j"
  by (simp add: ld16_def st16_def)

lemma ld16_update_other [simp]:
  "j \<noteq> i \<Longrightarrow> Suc j \<noteq> i \<Longrightarrow> ld16 (b[i := v]) j = ld16 b j"
  by (simp add: ld16_def)

lemma nth_st16_other [simp]: "j \<noteq> i \<Longrightarrow> j \<noteq> Suc i \<Longrightarrow> st16 i w b ! j = b ! j"
  by (simp add: st16_def)

lemma nth_st4_other [simp]: "j < i \<or> i + 3 < j \<Longrightarrow> st4 i q b ! j = b ! j"
  by (cases q) auto

lemma ld16_st4_other [simp]: "Suc j < i \<or> i + 3 < j \<Longrightarrow> ld16 (st4 i q b) j = ld16 b j"
  by (cases q) (auto simp: ld16_def)

lemma ld4_st4_same [simp]: "i + 3 < length b \<Longrightarrow> ld4 (st4 i q b) i = q"
  by (cases q) (simp add: ld4_def nth_list_update)

lemma ld4_st4_other [simp]: "j + 3 < i \<or> i + 3 < j \<Longrightarrow> ld4 (st4 i q b) j = ld4 b j"
  by (cases q) (auto simp: ld4_def)

lemma ld4_update_other [simp]: "i < j \<or> j + 3 < i \<Longrightarrow> ld4 (b[i := v]) j = ld4 b j"
  by (auto simp: ld4_def)

lemma ld4_st16_other [simp]: "Suc i < j \<or> j + 3 < i \<Longrightarrow> ld4 (st16 i w b) j = ld4 b j"
  by (auto simp: ld4_def st16_def)

lemma upd_conn_sel [simp]:
  "uip_buf (upd_conn k f s) = uip_buf s"
  "uip_len (upd_conn k f s) = uip_len s"
  "uip_slen (upd_conn k f s) = uip_slen s"
  "uip_flags (upd_conn k f s) = uip_flags s"
  "uip_appdata (upd_conn k f s) = uip_appdata s"
  "uip_sappdata (upd_conn k f s) = uip_sappdata s"
  "uip_hostaddr (upd_conn k f s) = uip_hostaddr s"
  "uip_listenports (upd_conn k f s) = uip_listenports s"
  "uip_conn_ix (upd_conn k f s) = uip_conn_ix s"
  "ipid (upd_conn k f s) = ipid s"
  "iss (upd_conn k f s) = iss s"
  "uip_objs (upd_conn k f s) = uip_objs s"
  "length (uip_conns (upd_conn k f s)) = length (uip_conns s)"
  "uip_state.more (upd_conn k f s) = uip_state.more s"
  by (simp_all add: upd_conn_def)

lemma nth_upd_conn:
  "k < length (uip_conns s) \<Longrightarrow>
   uip_conns (upd_conn k f s) ! j = (if j = k then f (uip_conns s ! k) else uip_conns s ! j)"
  by (simp add: upd_conn_def nth_list_update)

lemma nth_upd_conn_other [simp]: "j \<noteq> k \<Longrightarrow> uip_conns (upd_conn k f s) ! j = uip_conns s ! j"
  by (simp add: upd_conn_def)

lemma nth_upd_conn_same [simp]:
  "k < length (uip_conns s) \<Longrightarrow> uip_conns (upd_conn k f s) ! k = f (uip_conns s ! k)"
  by (simp add: upd_conn_def)

lemma length_bytes_at [simp]: "i + n \<le> length b \<Longrightarrow> length (bytes_at b i n) = n"
  by (simp add: bytes_at_def)

lemma bytes_at_update_outside [simp]: "j < i \<or> i + n \<le> j \<Longrightarrow> bytes_at (b[j := v]) i n = bytes_at b i n"
  by (rule nth_equalityI) (auto simp: bytes_at_def)

lemma bytes_at_st16_outside [simp]:
  "Suc j < i \<or> i + n \<le> j \<Longrightarrow> bytes_at (st16 j w b) i n = bytes_at b i n"
  by (auto simp: st16_def)

lemma bytes_at_st4_outside [simp]:
  "j + 3 < i \<or> i + n \<le> j \<Longrightarrow> bytes_at (st4 j q b) i n = bytes_at b i n"
  by (cases q) auto

lemma read_mem_length: "read_mem s p n = Inr xs \<Longrightarrow> length xs = n"
  by (cases "(s, p, n)" rule: read_mem.cases) (auto split: if_splits)

end
