(* ===== verification/Uip_Arch.thy ===== *)
theory Uip_Arch
  imports Uip_State
begin

text \<open>
  httpd/uip_arch.c: the 32-bit addition on byte arrays and the Internet checksum.  The lemmas
  give the checksum its meaning: \<open>chksum\<close> is the sum of the 16-bit words modulo 65535, zero only
  for an all-zero input, so that a header whose checksum field holds the complement of the sum
  over the other words verifies.
\<close>

section \<open>The code\<close>

fun uip_add32 :: "seq4 \<Rightarrow> u16 \<Rightarrow> seq4" where
  "uip_add32 (o0, o1, o2, o3) op16 =
     (let a3 = o3 + lo8 op16; a2 = o2 + hi8 op16; a1 = o1; a0 = o0;
          (a1, a0) = (if a2 < hi8 op16 then (a1 + 1, if a1 + 1 = 0 then a0 + 1 else a0) else (a1, a0));
          (a2, a1, a0) =
            (if a3 < lo8 op16
             then (a2 + 1,
                   if a2 + 1 = 0 then a1 + 1 else a1,
                   if a2 + 1 = 0 \<and> a1 + 1 = 0 then a0 + 1 else a0)
             else (a2, a1, a0))
      in (a0, a1, a2, a3))"

text \<open>\<open>sum += t; if (sum < t) sum++\<close>, the end-around carry used throughout.\<close>

definition ones_add :: "u16 \<Rightarrow> u16 \<Rightarrow> u16" where
  "ones_add acc t = (if acc + t < t then acc + t + 1 else acc + t)"

fun chksum :: "u16 \<Rightarrow> u8 list \<Rightarrow> u16" where
  "chksum acc (a # b # xs) = chksum (ones_add acc (le16 b a)) xs"
| "chksum acc [a] = ones_add acc (le16 0 a)"
| "chksum acc [] = acc"

definition uip_chksum :: "u8 list \<Rightarrow> u16" where
  "uip_chksum data = htons (chksum 0 data)"

definition uip_ipchksum :: "'a uip_state_scheme \<Rightarrow> u16" where
  "uip_ipchksum s = uip_chksum (bytes_at (uip_buf s) 14 20)"

definition uip_tcpchksum :: "'a uip_state_scheme \<Rightarrow> u16 result" where
  "uip_tcpchksum s =
     (let b = uip_buf s;
          hsum = uip_chksum (bytes_at b 34 20)
      in bind_result (read_mem s (uip_appdata s) (unat (BUF_iplen b - 40))) (\<lambda>data.
         let acc = uip_chksum data;
             acc = ones_add acc hsum;
             acc = ones_add acc (fst (BUF_srcipaddr b));
             acc = ones_add acc (snd (BUF_srcipaddr b));
             acc = ones_add acc (fst (BUF_destipaddr b));
             acc = ones_add acc (snd (BUF_destipaddr b));
             acc = ones_add acc (htons 6);
             hsum = htons (BUF_iplen b - 20)
         in Inr (ones_add acc hsum)))"

section \<open>The 32-bit sequence number addition\<close>

definition seq_val :: "seq4 \<Rightarrow> nat" where
  "seq_val q = (case q of (a, b, c, d) \<Rightarrow>
     unat a * 2 ^ 24 + unat b * 2 ^ 16 + unat c * 2 ^ 8 + unat d)"

lemma u8_less: "unat (x :: u8) < 256"
  using unsigned_less [of x, where 'a = nat] by simp

lemma u16_less: "unat (x :: u16) < 65536"
  using unsigned_less [of x, where 'a = nat] by simp

lemma seq_val_less: "seq_val q < 2 ^ 32"
proof -
  obtain a b c d where q: "q = (a, b, c, d)" by (cases q)
  show ?thesis
    unfolding q seq_val_def
    using u8_less [of a] u8_less [of b] u8_less [of c] u8_less [of d] by simp
qed

lemma u8_add_carry:
  "x + y < (y :: u8) \<longleftrightarrow> 256 \<le> unat x + unat y"
  "unat (x + y :: u8) = (if 256 \<le> unat x + unat y then unat x + unat y - 256 else unat x + unat y)"
proof -
  have u: "unat (x + y) = (unat x + unat y) mod 256"
    by (simp add: unat_word_ariths)
  also have "\<dots> = (if 256 \<le> unat x + unat y then unat x + unat y - 256 else unat x + unat y)"
    using u8_less [of x] u8_less [of y] by (simp add: mod_if)
  finally show *: "unat (x + y :: u8) = (if 256 \<le> unat x + unat y then unat x + unat y - 256 else unat x + unat y)" .
  show "x + y < (y :: u8) \<longleftrightarrow> 256 \<le> unat x + unat y"
    using u8_less [of x] u8_less [of y] unfolding word_less_nat_alt * by (simp split: if_split) arith
qed

lemma u8_succ:
  "x + 1 = (0 :: u8) \<longleftrightarrow> unat x = 255"
  "unat (x + 1 :: u8) = (if unat x = 255 then 0 else unat x + 1)"
proof -
  show *: "unat (x + 1 :: u8) = (if unat x = 255 then 0 else unat x + 1)"
    using u8_add_carry(2) [of x 1] u8_less [of x] by simp
  show "x + 1 = (0 :: u8) \<longleftrightarrow> unat x = 255"
    by (simp add: word_unat_eq_iff *)
qed

lemma digits_256:
  fixes a b a' b' :: nat
  assumes "a * 256 + b = a' * 256 + b'" and "b < 256" and "b' < 256"
  shows "a = a' \<and> b = b'"
proof -
  have "(a * 256 + b) div 256 = (a' * 256 + b') div 256" using assms(1) by simp
  then have "a = a'" using assms(2,3) by simp
  then show ?thesis using assms(1) by simp
qed

lemma seq_val_inject: "seq_val p = seq_val q \<longleftrightarrow> p = q"
proof -
  obtain a b c d where p: "p = (a, b, c, d)" by (cases p)
  obtain a' b' c' d' where q: "q = (a', b', c', d')" by (cases q)
  have "unat a = unat a' \<and> unat b = unat b' \<and> unat c = unat c' \<and> unat d = unat d'"
    if "seq_val p = seq_val q"
  proof -
    have "((unat a * 256 + unat b) * 256 + unat c) * 256 + unat d
        = ((unat a' * 256 + unat b') * 256 + unat c') * 256 + unat d'"
      using that by (simp add: p q seq_val_def)
    then show ?thesis
      by (metis digits_256 u8_less)
  qed
  then show ?thesis
    unfolding p q by (auto simp flip: word_unat_eq_iff)
qed

lemma seq_val_add32_carry:
  "\<exists>k. seq_val (uip_add32 q n) + k * 2 ^ 32 = seq_val q + unat n"
proof -
  obtain o0 o1 o2 o3 where q: "q = (o0, o1, o2, o3)" by (cases q)
  have n: "unat n = unat (lo8 n) + 256 * unat (hi8 n)"
    by (metis le16_split unat_le16)
  have *: "\<exists>k::nat. x + k * 2 ^ 32 = y" if "x = y \<or> x + 2 ^ 32 = y" for x y
    using that by (metis add_0_right mult_0 mult_1)
  show ?thesis
    unfolding q
    apply (rule *)
    using u8_less [of o0] u8_less [of o1] u8_less [of o2] u8_less [of o3] u8_less [of "lo8 n"] u8_less [of "hi8 n"]
    by (simp add: seq_val_def Let_def u8_add_carry u8_succ n) (intro conjI impI; arith)
qed

lemma uip_add32_spec: "seq_val (uip_add32 q n) = (seq_val q + unat n) mod 2 ^ 32"
proof -
  obtain k where "seq_val (uip_add32 q n) + k * 2 ^ 32 = seq_val q + unat n"
    using seq_val_add32_carry by blast
  then have "(seq_val q + unat n) mod 2 ^ 32 = seq_val (uip_add32 q n) mod 2 ^ 32"
    by (metis mod_mult_self1)
  then show ?thesis using seq_val_less [of "uip_add32 q n"] by simp
qed

section \<open>The Internet checksum\<close>

text \<open>The sum of the little-endian 16-bit words of a byte sequence, an odd last byte padded by 0.\<close>

fun sum16 :: "u8 list \<Rightarrow> nat" where
  "sum16 (a # b # xs) = unat (le16 a b) + sum16 xs"
| "sum16 [a] = unat a"
| "sum16 [] = 0"

lemma unat_ones_add:
  "unat (ones_add a b) =
     (if 65536 \<le> unat a + unat b then unat a + unat b - 65535 else unat a + unat b)"
proof -
  have u: "unat (a + b) = (unat a + unat b) mod 65536"
    by (simp add: unat_word_ariths)
  also have "\<dots> = (if 65536 \<le> unat a + unat b then unat a + unat b - 65536 else unat a + unat b)"
    using u16_less [of a] u16_less [of b] by (simp add: mod_if)
  finally have *: "unat (a + b) =
    (if 65536 \<le> unat a + unat b then unat a + unat b - 65536 else unat a + unat b)" .
  have less: "a + b < b \<longleftrightarrow> 65536 \<le> unat a + unat b"
    using u16_less [of a] u16_less [of b] unfolding word_less_nat_alt * by (simp split: if_split) arith
  show ?thesis
  proof (cases "65536 \<le> unat a + unat b")
    case True
    then have "unat (a + b + 1) = unat a + unat b - 65535"
      using * u16_less [of a] u16_less [of b] by (subst unat_word_ariths) simp
    then show ?thesis using True less by (simp add: ones_add_def)
  next
    case False
    then show ?thesis using less * by (simp add: ones_add_def)
  qed
qed

lemma ones_add_mod: "unat (ones_add a b) mod 65535 = (unat a + unat b) mod 65535"
proof (cases "65536 \<le> unat a + unat b")
  case True
  then have "unat a + unat b = unat (ones_add a b) + 65535"
    by (simp add: unat_ones_add)
  then show ?thesis by simp
next
  case False
  then show ?thesis by (simp add: unat_ones_add)
qed

lemma ones_add_eq_0_iff: "ones_add a b = 0 \<longleftrightarrow> a = 0 \<and> b = 0"
  by (simp add: word_unat_eq_iff unat_ones_add split: if_split) arith

lemma htons_mod: "unat (htons w) mod 65535 = (256 * unat w) mod 65535"
proof -
  have w: "unat w = unat (lo8 w) + 256 * unat (hi8 w)"
    by (metis le16_split unat_le16)
  have "256 * unat w = unat (htons w) + 65535 * unat (hi8 w)"
    unfolding w htons_def unat_le16 by simp
  then show ?thesis by simp
qed

lemma htons_eq_0_iff: "htons w = 0 \<longleftrightarrow> w = 0"
proof -
  have "htons 0 = 0" by (simp add: htons_def le16_def lo8_def hi8_def)
  then show ?thesis by (metis htons_htons)
qed

lemma htons_ones_add_mod:
  "unat (htons (ones_add a b)) mod 65535 = (unat (htons a) + unat (htons b)) mod 65535"
proof -
  have "unat (htons (ones_add a b)) mod 65535 = (256 * (unat (ones_add a b) mod 65535)) mod 65535"
    by (simp add: htons_mod mod_mult_right_eq)
  also have "\<dots> = (256 * unat a + 256 * unat b) mod 65535"
    by (simp add: ones_add_mod mod_mult_right_eq distrib_left)
  also have "\<dots> = ((256 * unat a) mod 65535 + (256 * unat b) mod 65535) mod 65535"
    by (simp add: mod_add_eq)
  also have "\<dots> = (unat (htons a) + unat (htons b)) mod 65535"
    unfolding htons_mod [symmetric] by (simp add: mod_add_eq)
  finally show ?thesis .
qed

lemma htons_le16 [simp]: "htons (le16 a b) = le16 b a"
  by (simp add: htons_def)

lemma chksum_mod:
  "unat (htons (chksum acc xs)) mod 65535 = (unat (htons acc) + sum16 xs) mod 65535"
proof (induction acc xs rule: chksum.induct)
  case (1 acc a b xs)
  have "unat (htons (chksum acc (a # b # xs))) mod 65535
      = (unat (htons (ones_add acc (le16 b a))) mod 65535 + sum16 xs) mod 65535"
    using 1 by (simp add: mod_add_left_eq)
  then show ?case
    by (simp add: htons_ones_add_mod mod_add_left_eq add.assoc)
next
  case (2 acc a)
  then show ?case by (simp add: htons_ones_add_mod unat_le16)
qed simp

lemma chksum_eq_0_iff: "chksum acc xs = 0 \<longleftrightarrow> acc = 0 \<and> (\<forall>x\<in>set xs. x = 0)"
proof -
  have le: "le16 b a = 0 \<longleftrightarrow> a = 0 \<and> b = 0" for a b
    by (auto simp: word_unat_eq_iff unat_le16)
  show ?thesis
    by (induction acc xs rule: chksum.induct) (auto simp: ones_add_eq_0_iff le)
qed

lemma uip_chksum_mod: "unat (uip_chksum xs) mod 65535 = sum16 xs mod 65535"
  using chksum_mod [of 0 xs] htons_eq_0_iff [of 0] by (simp add: uip_chksum_def)

lemma uip_chksum_eq_0_iff: "uip_chksum xs = 0 \<longleftrightarrow> (\<forall>x\<in>set xs. x = 0)"
  by (simp add: uip_chksum_def htons_eq_0_iff chksum_eq_0_iff)

lemma eq_ffff_iff: "(w :: u16) = 0xffff \<longleftrightarrow> w \<noteq> 0 \<and> unat w mod 65535 = 0"
proof
  assume "w \<noteq> 0 \<and> unat w mod 65535 = 0"
  then have "0 < unat w" and "unat w mod 65535 = 0" by (simp_all add: unat_gt_0)
  then have "unat w = 65535" using u16_less [of w] by (auto simp: mod_eq_0_iff_dvd dvd_def)
  then show "w = 0xffff" by (simp add: word_unat_eq_iff)
qed auto

lemma uip_chksum_verifies:
  "uip_chksum xs = 0xffff \<longleftrightarrow> (\<exists>x\<in>set xs. x \<noteq> 0) \<and> 65535 dvd sum16 xs"
  by (auto simp: eq_ffff_iff uip_chksum_eq_0_iff uip_chksum_mod mod_eq_0_iff_dvd)

lemma unat_NOT_u16: "unat w + unat (NOT w :: u16) = 65535"
proof -
  have "unat (- 1 :: u16) = 65535"
    by (simp add: unsigned_minus_1_eq_mask mask_eq_exp_minus_1)
  then have "(unat w + unat (NOT w)) mod 65536 = 65535"
    using unat_word_ariths(1) [of w "NOT w"] by simp
  then show ?thesis
    using u16_less [of w] u16_less [of "NOT w"] by (simp add: mod_if split: if_splits)
qed

lemma sum16_st16:
  "Suc (2 * i) < length xs \<Longrightarrow>
   sum16 (st16 (2 * i) w xs) + unat (ld16 xs (2 * i)) = sum16 xs + unat w"
proof (induction i arbitrary: xs)
  case 0
  then obtain a b ys where "xs = a # b # ys"
    by (metis Suc_less_eq length_Suc_conv less_imp_Suc_add)
  then show ?case by (simp add: st16_def ld16_def)
next
  case (Suc i)
  then obtain a b ys where xs: "xs = a # b # ys"
    by (metis Suc_less_eq length_Suc_conv less_imp_Suc_add mult_Suc_right)
  have "sum16 (st16 (2 * i) w ys) + unat (ld16 ys (2 * i)) = sum16 ys + unat w"
    using Suc by (simp add: xs)
  then show ?case by (simp add: xs st16_def ld16_def)
qed

lemma bytes_at_st16_inside:
  "i \<le> j \<Longrightarrow> Suc j < i + n \<Longrightarrow> i + n \<le> length b \<Longrightarrow>
   bytes_at (st16 j w b) i n = st16 (j - i) w (bytes_at b i n)"
  by (rule nth_equalityI) (auto simp: bytes_at_def st16_def nth_list_update)

lemma ld16_bytes_at:
  "i \<le> j \<Longrightarrow> Suc j < i + n \<Longrightarrow> i + n \<le> length b \<Longrightarrow> ld16 (bytes_at b i n) (j - i) = ld16 b j"
  by (simp add: bytes_at_def ld16_def)

text \<open>Storing a field of a summed range at an even offset exchanges its old value for the new one.\<close>

lemma sum16_field:
  assumes "i \<le> j" and "Suc j < i + n" and "i + n \<le> length b" and "even (j - i)"
  shows "sum16 (bytes_at (st16 j w b) i n) + unat (ld16 b j) = sum16 (bytes_at b i n) + unat w"
proof -
  obtain k where k: "j - i = 2 * k" using assms(4) by (elim evenE)
  have "Suc (2 * k) < length (bytes_at b i n)" using assms k by simp
  from sum16_st16 [OF this, of w] show ?thesis
    using assms by (simp add: bytes_at_st16_inside ld16_bytes_at flip: k)
qed

lemma complement_sum:
  fixes c :: u16
  assumes "unat c mod 65535 = T mod 65535"
  shows "65535 dvd T + unat (NOT c)"
proof -
  have "(T + unat (NOT c)) mod 65535 = (unat c mod 65535 + unat (NOT c)) mod 65535"
    unfolding assms by (simp add: mod_add_left_eq)
  also have "\<dots> = (unat c + unat (NOT c)) mod 65535"
    by (simp add: mod_add_left_eq)
  finally show ?thesis by (simp add: unat_NOT_u16 mod_eq_0_iff_dvd)
qed

lemma ip_checksum_fill:
  assumes len: "34 \<le> length b" and vhl: "b ! 14 \<noteq> 0"
    and c: "c = uip_chksum (bytes_at (st16 24 0 b) 14 20)"
  shows "uip_chksum (bytes_at (st16 24 (NOT c) b) 14 20) = 0xffff"
proof -
  let ?T = "sum16 (bytes_at (st16 24 0 b) 14 20)"
  have "sum16 (bytes_at (st16 24 (NOT c) b) 14 20) = ?T + unat (NOT c)"
    using sum16_field [of 14 24 20 b 0] sum16_field [of 14 24 20 b "NOT c"] len by simp
  moreover have "65535 dvd ?T + unat (NOT c)"
    by (rule complement_sum) (simp add: c uip_chksum_mod)
  moreover have "b ! 14 \<in> set (bytes_at (st16 24 (NOT c) b) 14 20)"
    using len by (auto simp: bytes_at_def in_set_conv_nth intro!: exI [of _ 0])
  ultimately show ?thesis
    unfolding uip_chksum_verifies using vhl by auto
qed

text \<open>The quantity the TCP checksum is taken over: segment data, TCP header and pseudo header.\<close>

definition tcp_sum :: "u8 list \<Rightarrow> u8 list \<Rightarrow> nat" where
  "tcp_sum b data = sum16 data + sum16 (bytes_at b 34 20)
     + unat (ld16 b 26) + unat (ld16 b 28) + unat (ld16 b 30) + unat (ld16 b 32)
     + unat (htons 6) + unat (htons (BUF_iplen b - 20))"

lemma uip_tcpchksum_mod:
  assumes "uip_tcpchksum s = Inr w"
    and "read_mem s (uip_appdata s) (unat (BUF_iplen (uip_buf s) - 40)) = Inr data"
  shows "unat w mod 65535 = tcp_sum (uip_buf s) data mod 65535" and "w \<noteq> 0"
proof -
  have step: "unat (ones_add x y) mod 65535 = (T + unat y) mod 65535"
    if "unat x mod 65535 = T mod 65535" for x y T
    unfolding ones_add_mod using that by (metis mod_add_left_eq)
  have hdr: "unat (ones_add (uip_chksum data) (uip_chksum (bytes_at (uip_buf s) 34 20))) mod 65535
      = (sum16 data + sum16 (bytes_at (uip_buf s) 34 20)) mod 65535"
    unfolding ones_add_mod mod_add_eq [symmetric, of "unat _"] uip_chksum_mod
    by (simp add: mod_add_eq)
  let ?b = "uip_buf s"
  let ?w0 = "ones_add (uip_chksum data) (uip_chksum (bytes_at ?b 34 20))"
  let ?w4 = "ones_add (ones_add (ones_add (ones_add ?w0 (ld16 ?b 26)) (ld16 ?b 28)) (ld16 ?b 30)) (ld16 ?b 32)"
  have w: "w = ones_add (ones_add ?w4 (htons 6)) (htons (BUF_iplen ?b - 20))"
    using assms(1) unfolding uip_tcpchksum_def Let_def assms(2) bind_result_simps sum.inject
    by (simp only: fst_conv snd_conv)
  show "unat w mod 65535 = tcp_sum (uip_buf s) data mod 65535"
    unfolding w tcp_sum_def by (intro step hdr)
  have "htons 6 \<noteq> 0" by (simp add: htons_eq_0_iff)
  then show "w \<noteq> 0"
    unfolding w by (simp only: ones_add_eq_0_iff simp_thms)
qed

end
