(* ===== verification/Uip_Tcp.thy ===== *)
theory Uip_Tcp
  imports Uip_Arch
begin

text \<open>
  httpd/uip.c: the TCP/IP input, output and timer processing.  The labels of \<open>uip_process\<close> are
  functions of the same names, a \<open>goto\<close> is a call.  The register variable \<open>uip_connr\<close> is the
  index argument \<open>k\<close>.  The application callback \<open>UIP_APPCALL\<close> is the argument \<open>app\<close>; the web
  server passes \<open>httpd_appcall\<close> (theory Httpd_App).
\<close>

type_synonym 'a app = "'a uip_state_scheme \<Rightarrow> 'a uip_state_scheme result"

section \<open>Initialisation and listening ports\<close>

definition uip_init :: "'a uip_state_scheme \<Rightarrow> 'a uip_state_scheme" where
  "uip_init s = s\<lparr>
     uip_listenports := replicate UIP_LISTENPORTS 0,
     uip_conns := map (\<lambda>c. c\<lparr>tcpstateflags := CLOSED\<rparr>) (uip_conns s),
     uip_hostaddr := (0, 0)\<rparr>"

text \<open>Both port operations change the first entry that matches and return.\<close>

fun replace_first :: "'b \<Rightarrow> 'b \<Rightarrow> 'b list \<Rightarrow> 'b list" where
  "replace_first old new [] = []"
| "replace_first old new (x # xs) = (if x = old then new # xs else x # replace_first old new xs)"

definition uip_unlisten :: "u16 \<Rightarrow> 'a uip_state_scheme \<Rightarrow> 'a uip_state_scheme" where
  "uip_unlisten port s = s\<lparr>uip_listenports := replace_first port 0 (uip_listenports s)\<rparr>"

definition uip_listen :: "u16 \<Rightarrow> 'a uip_state_scheme \<Rightarrow> 'a uip_state_scheme" where
  "uip_listen port s = s\<lparr>uip_listenports := replace_first 0 port (uip_listenports s)\<rparr>"

definition uip_add_rcv_nxt :: "u16 \<Rightarrow> 'a uip_state_scheme \<Rightarrow> 'a uip_state_scheme" where
  "uip_add_rcv_nxt n s = upd_conn (uip_conn_ix s) (\<lambda>c. c\<lparr>rcv_nxt := uip_add32 (rcv_nxt c) n\<rparr>) s"

text \<open>\<open>if (++a[3] == 0) if (++a[2] == 0) if (++a[1] == 0) ++a[0]\<close>\<close>

fun inc4 :: "seq4 \<Rightarrow> seq4" where
  "inc4 (a0, a1, a2, a3) =
     (if a3 + 1 = 0
      then if a2 + 1 = 0
           then if a1 + 1 = 0 then (a0 + 1, 0, 0, 0) else (a0, a1 + 1, 0, 0)
           else (a0, a1, a2 + 1, 0)
      else (a0, a1, a2, a3 + 1))"

section \<open>Output processing\<close>

abbreviation upd_buf :: "(u8 list \<Rightarrow> u8 list) \<Rightarrow> 'a uip_state_scheme \<Rightarrow> 'a uip_state_scheme" where
  "upd_buf f s \<equiv> s\<lparr>uip_buf := f (uip_buf s)\<rparr>"

definition drop_packet :: "'a uip_state_scheme \<Rightarrow> 'a uip_state_scheme result" where
  "drop_packet s = Inr (s\<lparr>uip_len := 0\<rparr>)"

definition ip_send_nolen :: "'a uip_state_scheme \<Rightarrow> 'a uip_state_scheme result" where
  "ip_send_nolen s =
     (let id = ipid s + 1;
          b = (uip_buf s)[14 := 0x45, 15 := 0, 20 := 0, 21 := 0, 22 := UIP_TTL,
                          18 := hi8 id, 19 := lo8 id];
          b = st16 24 0 b;
          c = uip_ipchksum (s\<lparr>uip_buf := b\<rparr>)
      in Inr (s\<lparr>ipid := id, uip_buf := st16 24 (NOT c) b\<rparr>))"

definition tcp_send_noconn :: "'a uip_state_scheme \<Rightarrow> 'a uip_state_scheme result" where
  "tcp_send_noconn s =
     (let b = (uip_buf s)[16 := hi8 (uip_len s), 17 := lo8 (uip_len s)];
          b = st16 50 0 b
      in bind_result (uip_tcpchksum (s\<lparr>uip_buf := b\<rparr>)) (\<lambda>c.
         ip_send_nolen (s\<lparr>uip_buf := st16 50 (NOT c) b\<rparr>)))"

definition tcp_send :: "nat \<Rightarrow> 'a uip_state_scheme \<Rightarrow> 'a uip_state_scheme result" where
  "tcp_send k s =
     (let conn = uip_conns s ! k;
          b = st4 42 (rcv_nxt conn) (uip_buf s);
          b = st4 38 (snd_nxt conn) b;
          b = b[23 := UIP_PROTO_TCP];
          b = st16 34 (lport conn) b;
          b = st16 36 (rport conn) b;
          b = st16 26 (fst (uip_hostaddr s)) b;
          b = st16 28 (snd (uip_hostaddr s)) b;
          b = st16 30 (fst (ripaddr conn)) b;
          b = st16 32 (snd (ripaddr conn)) b;
          b = (if tcpstateflags conn AND UIP_STOPPED \<noteq> 0 then b[48 := 0, 49 := 0]
               else b[48 := hi8 UIP_RECEIVE_WINDOW, 49 := lo8 UIP_RECEIVE_WINDOW])
      in tcp_send_noconn (s\<lparr>uip_buf := b\<rparr>))"

definition tcp_send_noopts :: "nat \<Rightarrow> 'a uip_state_scheme \<Rightarrow> 'a uip_state_scheme result" where
  "tcp_send_noopts k s = tcp_send k (upd_buf (\<lambda>b. b[46 := 0x50]) s)"

definition tcp_send_nodata :: "nat \<Rightarrow> 'a uip_state_scheme \<Rightarrow> 'a uip_state_scheme result" where
  "tcp_send_nodata k s = tcp_send_noopts k (s\<lparr>uip_len := 40\<rparr>)"

definition tcp_send_ack :: "nat \<Rightarrow> 'a uip_state_scheme \<Rightarrow> 'a uip_state_scheme result" where
  "tcp_send_ack k s = tcp_send_nodata k (upd_buf (\<lambda>b. b[47 := TCP_ACK]) s)"

definition tcp_send_finack :: "nat \<Rightarrow> 'a uip_state_scheme \<Rightarrow> 'a uip_state_scheme result" where
  "tcp_send_finack k s = tcp_send_nodata k (upd_buf (\<lambda>b. b[47 := TCP_FIN OR TCP_ACK]) s)"

definition tcp_send_rstack :: "nat \<Rightarrow> 'a uip_state_scheme \<Rightarrow> 'a uip_state_scheme result" where
  "tcp_send_rstack k s = tcp_send_nodata k (upd_buf (\<lambda>b. b[47 := TCP_RST OR TCP_ACK]) s)"

definition tcp_send_synack :: "nat \<Rightarrow> 'a uip_state_scheme \<Rightarrow> 'a uip_state_scheme result" where
  "tcp_send_synack k s =
     tcp_send k (upd_buf (\<lambda>b. b[47 := TCP_SYN OR TCP_ACK,
                                54 := 2, 55 := 4, 56 := hi8 UIP_TCP_MSS, 57 := lo8 UIP_TCP_MSS,
                                46 := 0x60]) (s\<lparr>uip_len := 44\<rparr>))"

definition tcp_reset :: "'a uip_state_scheme \<Rightarrow> 'a uip_state_scheme result" where
  "tcp_reset s =
     (let b = uip_buf s
      in if BUF_flags b AND TCP_RST \<noteq> 0 then drop_packet s
         else
           let b = b[47 := TCP_RST OR TCP_ACK];
               b = b[46 := 0x50];
               seq = BUF_seqno b; ack = BUF_ackno b;
               b = st4 42 (inc4 seq) (st4 38 ack b);
               sp = BUF_srcport b; dp = BUF_destport b;
               b = st16 36 sp (st16 34 dp b);
               (s0, s1) = BUF_srcipaddr b; (d0, d1) = BUF_destipaddr b;
               b = st16 26 d0 (st16 30 s0 b);
               b = st16 28 d1 (st16 32 s1 b)
           in tcp_send_noconn (s\<lparr>uip_len := 40, uip_buf := b\<rparr>))"

section \<open>After the application has been called\<close>

definition apprexmit :: "nat \<Rightarrow> 'a uip_state_scheme \<Rightarrow> 'a uip_state_scheme result" where
  "apprexmit k s =
     (let s = s\<lparr>uip_appdata := uip_sappdata s\<rparr>;
          conn = uip_conns s ! k
      in if 0 < uip_slen s \<and> 0 < clen conn
         then tcp_send_noopts k (upd_buf (\<lambda>b. b[47 := TCP_ACK OR TCP_PSH])
                (s\<lparr>uip_len := clen conn + 40\<rparr>))
         else if uip_flags s AND UIP_NEWDATA \<noteq> 0
         then tcp_send_noopts k (upd_buf (\<lambda>b. b[47 := TCP_ACK]) (s\<lparr>uip_len := 40\<rparr>))
         else drop_packet s)"

text \<open>The amount to send: what is in flight, or what the application asked for, at most the MSS.\<close>

definition appsend_len :: "nat \<Rightarrow> 'a uip_state_scheme \<Rightarrow> 'a uip_state_scheme" where
  "appsend_len k s =
    (if 0 < uip_slen s then
       let s = (if uip_flags s AND UIP_ACKDATA \<noteq> 0 then upd_conn k (\<lambda>c. c\<lparr>clen := 0\<rparr>) s else s);
           conn = uip_conns s ! k
       in if clen conn = 0
          then let s = (if mss conn < uip_slen s then s\<lparr>uip_slen := mss conn\<rparr> else s)
               in upd_conn k (\<lambda>c. c\<lparr>clen := uip_slen s\<rparr>) s
          else s\<lparr>uip_slen := clen conn\<rparr>
     else upd_conn k (\<lambda>c. c\<lparr>clen := 0\<rparr>) s)"

definition appsend :: "nat \<Rightarrow> 'a uip_state_scheme \<Rightarrow> 'a uip_state_scheme result" where
  "appsend k s =
     (if uip_flags s AND UIP_ABORT \<noteq> 0
      then tcp_send_rstack k (upd_conn k (\<lambda>c. c\<lparr>tcpstateflags := CLOSED\<rparr>) (s\<lparr>uip_slen := 0\<rparr>))
      else if uip_flags s AND UIP_CLOSE \<noteq> 0
      then tcp_send_finack k
             (upd_conn k (\<lambda>c. c\<lparr>clen := 1, tcpstateflags := FIN_WAIT_1, nrtx := 0\<rparr>)
               (s\<lparr>uip_slen := 0\<rparr>))
      else apprexmit k (upd_conn k (\<lambda>c. c\<lparr>nrtx := 0\<rparr>) (appsend_len k s)))"

section \<open>Timer processing\<close>

definition uip_timer :: "'a app \<Rightarrow> 'a uip_state_scheme \<Rightarrow> 'a uip_state_scheme result" where
  "uip_timer app s =
     (let s = s\<lparr>iss := inc4 (iss s), uip_len := 0\<rparr>;
          k = uip_conn_ix s;
          conn = uip_conns s ! k;
          st = tcpstateflags conn
      in if st = TIME_WAIT \<or> st = FIN_WAIT_2 then
           drop_packet (upd_conn k (\<lambda>c.
             let c = c\<lparr>timer := timer c + 1\<rparr>
             in if timer c = UIP_TIME_WAIT_TIMEOUT then c\<lparr>tcpstateflags := CLOSED\<rparr> else c) s)
         else if st \<noteq> CLOSED then
           if clen conn \<noteq> 0 then
             let s = upd_conn k (\<lambda>c. c\<lparr>timer := timer c - 1\<rparr>) s
             in if timer conn = 0 then
                  if nrtx conn = UIP_MAXRTX
                     \<or> (st = SYN_SENT \<or> st = SYN_RCVD) \<and> nrtx conn = UIP_MAXSYNRTX then
                    bind_result
                      (app ((upd_conn k (\<lambda>c. c\<lparr>tcpstateflags := CLOSED\<rparr>) s)\<lparr>uip_flags := UIP_TIMEDOUT\<rparr>))
                      (tcp_send_rstack k)
                  else
                    let s = upd_conn k (\<lambda>c. c\<lparr>
                              timer := push_bit (unat (if 4 < nrtx c then 4 else nrtx c)) UIP_RTO,
                              nrtx := nrtx c + 1\<rparr>) s;
                        t = st AND TS_MASK
                    in if t = SYN_RCVD then tcp_send_synack k s
                       else if t = ESTABLISHED then
                         bind_result (app (s\<lparr>uip_len := 0, uip_slen := 0, uip_flags := UIP_REXMIT\<rparr>))
                           (apprexmit k)
                       else if t = FIN_WAIT_1 \<or> t = CLOSING \<or> t = LAST_ACK then tcp_send_finack k s
                       else drop_packet s
                else drop_packet s
           else if st AND TS_MASK = ESTABLISHED then
             bind_result (app (s\<lparr>uip_len := 0, uip_slen := 0, uip_flags := UIP_POLL\<rparr>)) (appsend k)
           else drop_packet s
         else drop_packet s)"

section \<open>Connection setup\<close>

text \<open>
  The search for a connection entry: the first closed one, else the oldest in \<open>TIME_WAIT\<close>.
\<close>

fun pick_conn :: "uip_conn list \<Rightarrow> nat list \<Rightarrow> nat option \<Rightarrow> nat option" where
  "pick_conn cs [] best = best"
| "pick_conn cs (i # is) best =
     (if tcpstateflags (cs ! i) = CLOSED then Some i
      else if tcpstateflags (cs ! i) = TIME_WAIT
              \<and> (best = None \<or> timer (cs ! the best) < timer (cs ! i))
      then pick_conn cs is (Some i)
      else pick_conn cs is best)"

text \<open>
  The loop over the TCP options of a SYN.  Its counter \<open>c\<close> is a \<open>u8_t\<close> and wraps around, so the
  loop need not end; the counter determines the rest of the run, hence a run of more than 256
  rounds repeats a value of \<open>c\<close> and never ends.
\<close>

fun mss_options :: "nat \<Rightarrow> u8 list \<Rightarrow> nat \<Rightarrow> u8 \<Rightarrow> u16 option result" where
  "mss_options 0 b bound c = Inl Non_Termination"
| "mss_options (Suc fuel) b bound c =
     (if unat c < bound then
        let opt = b ! (54 + unat c)
        in if opt = 0x00 then Inr None
           else if opt = 0x01 then mss_options fuel b bound (c + 1)
           else if opt = 0x02 \<and> b ! (55 + unat c) = 0x04 then
             let tmp16 = le16 (b ! (57 + unat c)) (b ! (56 + unat c))
             in Inr (Some (if UIP_TCP_MSS < tmp16 then UIP_TCP_MSS else tmp16))
           else if b ! (55 + unat c) = 0 then Inr None
           else mss_options fuel b bound (c + b ! (55 + unat c))
      else Inr None)"

definition parse_mss :: "u8 list \<Rightarrow> u16 option result" where
  "parse_mss b =
     (if 0x50 < BUF_tcpoffset b AND 0xf0
      then mss_options 257 b ((unat (drop_bit 4 (BUF_tcpoffset b)) - 5) * 4) 0
      else Inr None)"

definition found_listen :: "'a uip_state_scheme \<Rightarrow> 'a uip_state_scheme result" where
  "found_listen s =
     (case pick_conn (uip_conns s) [0..<UIP_CONNS] None of
        None \<Rightarrow> drop_packet s
      | Some k \<Rightarrow>
          let b = uip_buf s;
              s = upd_conn k (\<lambda>c. c\<lparr>
                    rto := UIP_RTO, timer := UIP_RTO, sa := 0, sv := 4, nrtx := 0,
                    lport := BUF_destport b, rport := BUF_srcport b, ripaddr := BUF_srcipaddr b,
                    tcpstateflags := SYN_RCVD, snd_nxt := iss s, clen := 1,
                    rcv_nxt := BUF_seqno b\<rparr>) (s\<lparr>uip_conn_ix := k\<rparr>);
              s = uip_add_rcv_nxt 1 s
          in bind_result (parse_mss b) (\<lambda>m.
             tcp_send_synack k
               (case m of None \<Rightarrow> s
                | Some v \<Rightarrow> upd_conn k (\<lambda>c. c\<lparr>initialmss := v, mss := v\<rparr>) s)))"

section \<open>Input for an existing connection\<close>

definition rtt_estimate :: "uip_conn \<Rightarrow> uip_conn" where
  "rtt_estimate c =
     (if nrtx c = 0 then
        let m = rto c - timer c;
            m = m - drop_bit 3 (sa c);
            sa' = sa c + m;
            m = (if sint m < 0 then - m else m);
            m = m - drop_bit 2 (sv c);
            sv' = sv c + m
        in c\<lparr>sa := sa', sv := sv', rto := drop_bit 3 sa' + sv'\<rparr>
      else c)"

definition tcp_ackdata :: "nat \<Rightarrow> 'a uip_state_scheme \<Rightarrow> 'a uip_state_scheme" where
  "tcp_ackdata k s =
     (let b = uip_buf s; conn = uip_conns s ! k
      in if BUF_flags b AND TCP_ACK \<noteq> 0 \<and> clen conn \<noteq> 0 then
           let acc32 = uip_add32 (snd_nxt conn) (clen conn)
           in if BUF_ackno b = acc32 then
                (upd_conn k (\<lambda>c. let c = rtt_estimate (c\<lparr>snd_nxt := acc32\<rparr>)
                                in c\<lparr>timer := rto c\<rparr>) s)\<lparr>uip_flags := UIP_ACKDATA\<rparr>
              else s
         else s)"

definition in_syn_rcvd :: "'a app \<Rightarrow> nat \<Rightarrow> 'a uip_state_scheme \<Rightarrow> 'a uip_state_scheme result" where
  "in_syn_rcvd app k s =
     (if uip_flags s AND UIP_ACKDATA \<noteq> 0 then
        let s = (upd_conn k (\<lambda>c. c\<lparr>tcpstateflags := ESTABLISHED, clen := 0\<rparr>) s)
                  \<lparr>uip_flags := UIP_CONNECTED\<rparr>;
            s = (if 0 < uip_len s
                 then uip_add_rcv_nxt (uip_len s) (s\<lparr>uip_flags := uip_flags s OR UIP_NEWDATA\<rparr>)
                 else s)
        in bind_result (app (s\<lparr>uip_slen := 0\<rparr>)) (appsend k)
      else drop_packet s)"

definition est_fin :: "'a app \<Rightarrow> nat \<Rightarrow> 'a uip_state_scheme \<Rightarrow> 'a uip_state_scheme result" where
  "est_fin app k s =
     (if clen (uip_conns s ! k) \<noteq> 0 then drop_packet s
      else
        let s = uip_add_rcv_nxt (1 + uip_len s) s;
            s = s\<lparr>uip_flags := (if 0 < uip_len s then UIP_CLOSE OR UIP_NEWDATA else UIP_CLOSE)\<rparr>
        in bind_result (app s) (\<lambda>s.
           tcp_send_finack k
             (upd_conn k (\<lambda>c. c\<lparr>clen := 1, tcpstateflags := LAST_ACK, nrtx := 0\<rparr>) s)))"

text \<open>
  The urgent pointer.  With \<open>UIP_URGDATA\<close> set to 1 the \<open>else\<close> of the preprocessor block makes
  the two assignments after \<open>#endif\<close> part of the branch taken when the URG flag is \<open>not\<close> set.
\<close>

definition est_urgent :: "'a uip_state_scheme \<Rightarrow> 'a uip_state_scheme" where
  "est_urgent s =
     (let b = uip_buf s; urgp = le16 (BUF_urgp1 b) (BUF_urgp0 b)
      in if BUF_flags b AND TCP_URG \<noteq> 0 then
           let u = (lo8 urgp :: u8);
               u = (if uip_len s < ucast u then ucast (uip_len s) else u);
               s = uip_add_rcv_nxt (ucast u) s
           in s\<lparr>uip_urglen := u, uip_len := uip_len s - ucast u,
                uip_urgdata := uip_appdata s, uip_appdata := ptr_add (uip_appdata s) (unat u)\<rparr>
         else s\<lparr>uip_urglen := 0, uip_appdata := ptr_add (uip_appdata s) (unat urgp),
                uip_len := uip_len s - urgp\<rparr>)"

definition est_window :: "nat \<Rightarrow> 'a uip_state_scheme \<Rightarrow> 'a uip_state_scheme" where
  "est_window k s =
     (let tmp16 = le16 (BUF_wnd1 (uip_buf s)) (BUF_wnd0 (uip_buf s))
      in upd_conn k (\<lambda>c. c\<lparr>mss := (if initialmss c < tmp16 \<or> tmp16 = 0 then initialmss c else tmp16)\<rparr>) s)"

definition in_established :: "'a app \<Rightarrow> nat \<Rightarrow> 'a uip_state_scheme \<Rightarrow> 'a uip_state_scheme result" where
  "in_established app k s =
     (if BUF_flags (uip_buf s) AND TCP_FIN \<noteq> 0 then est_fin app k s
      else
        let s = est_urgent s;
            s = (if 0 < uip_len s \<and> tcpstateflags (uip_conns s ! k) AND UIP_STOPPED = 0
                 then uip_add_rcv_nxt (uip_len s) (s\<lparr>uip_flags := uip_flags s OR UIP_NEWDATA\<rparr>)
                 else s);
            s = est_window k s
        in if uip_flags s AND (UIP_NEWDATA OR UIP_ACKDATA) \<noteq> 0
           then bind_result (app (s\<lparr>uip_slen := 0\<rparr>)) (appsend k)
           else drop_packet s)"

definition in_last_ack :: "'a app \<Rightarrow> nat \<Rightarrow> 'a uip_state_scheme \<Rightarrow> 'a uip_state_scheme result" where
  "in_last_ack app k s =
     (if uip_flags s AND UIP_ACKDATA \<noteq> 0
      then bind_result
             (app ((upd_conn k (\<lambda>c. c\<lparr>tcpstateflags := CLOSED\<rparr>) s)\<lparr>uip_flags := UIP_CLOSE\<rparr>))
             drop_packet
      else drop_packet s)"

definition in_fin_wait_1 :: "'a app \<Rightarrow> nat \<Rightarrow> 'a uip_state_scheme \<Rightarrow> 'a uip_state_scheme result" where
  "in_fin_wait_1 app k s =
     (let s = (if 0 < uip_len s then uip_add_rcv_nxt (uip_len s) s else s)
      in if BUF_flags (uip_buf s) AND TCP_FIN \<noteq> 0 then
           let s = (if uip_flags s AND UIP_ACKDATA \<noteq> 0
                    then upd_conn k (\<lambda>c. c\<lparr>tcpstateflags := TIME_WAIT, timer := 0, clen := 0\<rparr>) s
                    else upd_conn k (\<lambda>c. c\<lparr>tcpstateflags := CLOSING\<rparr>) s);
               s = (uip_add_rcv_nxt 1 s)\<lparr>uip_flags := UIP_CLOSE\<rparr>
           in bind_result (app s) (tcp_send_ack k)
         else if uip_flags s AND UIP_ACKDATA \<noteq> 0
         then drop_packet (upd_conn k (\<lambda>c. c\<lparr>tcpstateflags := FIN_WAIT_2, clen := 0\<rparr>) s)
         else if 0 < uip_len s then tcp_send_ack k s
         else drop_packet s)"

definition in_fin_wait_2 :: "'a app \<Rightarrow> nat \<Rightarrow> 'a uip_state_scheme \<Rightarrow> 'a uip_state_scheme result" where
  "in_fin_wait_2 app k s =
     (let s = (if 0 < uip_len s then uip_add_rcv_nxt (uip_len s) s else s)
      in if BUF_flags (uip_buf s) AND TCP_FIN \<noteq> 0 then
           let s = upd_conn k (\<lambda>c. c\<lparr>tcpstateflags := TIME_WAIT, timer := 0\<rparr>) s;
               s = (uip_add_rcv_nxt 1 s)\<lparr>uip_flags := UIP_CLOSE\<rparr>
           in bind_result (app s) (tcp_send_ack k)
         else if 0 < uip_len s then tcp_send_ack k s
         else drop_packet s)"

definition in_closing :: "nat \<Rightarrow> 'a uip_state_scheme \<Rightarrow> 'a uip_state_scheme result" where
  "in_closing k s =
     drop_packet
       (if uip_flags s AND UIP_ACKDATA \<noteq> 0
        then upd_conn k (\<lambda>c. c\<lparr>tcpstateflags := TIME_WAIT, timer := 0\<rparr>) s else s)"

definition tcp_switch :: "'a app \<Rightarrow> nat \<Rightarrow> 'a uip_state_scheme \<Rightarrow> 'a uip_state_scheme result" where
  "tcp_switch app k s =
     (let t = tcpstateflags (uip_conns s ! k) AND TS_MASK
      in if t = SYN_RCVD then in_syn_rcvd app k s
         else if t = ESTABLISHED then in_established app k s
         else if t = LAST_ACK then in_last_ack app k s
         else if t = FIN_WAIT_1 then in_fin_wait_1 app k s
         else if t = FIN_WAIT_2 then in_fin_wait_2 app k s
         else if t = TIME_WAIT then tcp_send_ack k s
         else if t = CLOSING then in_closing k s
         else drop_packet s)"

definition tcp_found :: "'a app \<Rightarrow> nat \<Rightarrow> 'a uip_state_scheme \<Rightarrow> 'a uip_state_scheme result" where
  "tcp_found app k s =
     (let s = s\<lparr>uip_conn_ix := k, uip_flags := 0\<rparr>;
          b = uip_buf s
      in if BUF_flags b AND TCP_RST \<noteq> 0 then
           bind_result
             (app ((upd_conn k (\<lambda>c. c\<lparr>tcpstateflags := CLOSED\<rparr>) s)\<lparr>uip_flags := UIP_ABORT\<rparr>))
             drop_packet
         else
           let c = push_bit 2 (drop_bit 4 (BUF_tcpoffset b));
               s = s\<lparr>uip_len := uip_len s - ucast c - 20\<rparr>
           in if 0 < uip_len s \<and> BUF_seqno b \<noteq> rcv_nxt (uip_conns s ! k)
              then tcp_send_ack k s
              else tcp_switch app k (tcp_ackdata k s))"

section \<open>Input processing\<close>

definition conn_matches :: "u8 list \<Rightarrow> uip_conn \<Rightarrow> bool" where
  "conn_matches b c \<longleftrightarrow>
     tcpstateflags c \<noteq> CLOSED \<and> BUF_destport b = lport c \<and> BUF_srcport b = rport c
     \<and> BUF_srcipaddr b = ripaddr c"

definition tcp_input :: "'a app \<Rightarrow> 'a uip_state_scheme \<Rightarrow> 'a uip_state_scheme result" where
  "tcp_input app s =
     bind_result (uip_tcpchksum s) (\<lambda>c.
       if c \<noteq> 0xffff then drop_packet s
       else
         let b = uip_buf s
         in case find (\<lambda>k. conn_matches b (uip_conns s ! k)) [0..<UIP_CONNS] of
              Some k \<Rightarrow> tcp_found app k s
            | None \<Rightarrow>
                if BUF_flags b AND TCP_CTL \<noteq> TCP_SYN then tcp_reset s
                else if BUF_destport b \<in> set (uip_listenports s) then found_listen s
                else tcp_reset s)"

text \<open>The checksum of the echo reply, adjusted for the changed type.\<close>

definition echo_chksum :: "u16 \<Rightarrow> u16" where
  "echo_chksum ck = (if htons (0xffff - 0x0800) \<le> ck then ck + (htons 0x0800 + 1) else ck + htons 0x0800)"

definition icmp_input :: "'a uip_state_scheme \<Rightarrow> 'a uip_state_scheme result" where
  "icmp_input s =
     (let b = uip_buf s
      in if ICMPBUF_type b \<noteq> ICMP_ECHO then drop_packet s
         else
           let b = b[34 := ICMP_ECHO_REPLY];
               b = st16 36 (echo_chksum (ICMPBUF_icmpchksum b)) b;
               (s0, s1) = BUF_srcipaddr b; (d0, d1) = BUF_destipaddr b;
               b = st16 26 d0 (st16 30 s0 b);
               b = st16 28 d1 (st16 32 s1 b)
           in Inr (s\<lparr>uip_buf := b\<rparr>))"

definition ip_input :: "'a app \<Rightarrow> 'a uip_state_scheme \<Rightarrow> 'a uip_state_scheme result" where
  "ip_input app s =
     (let b = uip_buf s
      in if BUF_vhl b \<noteq> 0x45 then drop_packet s
         else
           let s = (if BUF_len0 b \<noteq> hi8 (uip_len s)
                    then s\<lparr>uip_len := le16 (lo8 (uip_len s)) (BUF_len0 b)\<rparr> else s);
               s = (if BUF_len1 b \<noteq> lo8 (uip_len s)
                    then s\<lparr>uip_len := le16 (BUF_len1 b) (hi8 (uip_len s))\<rparr> else s)
           in if BUF_ipoffset0 b AND 0x3f \<noteq> 0 \<or> BUF_ipoffset1 b \<noteq> 0 then drop_packet s
              else if fst (BUF_destipaddr b) \<noteq> fst (uip_hostaddr s) then drop_packet s
              else if snd (BUF_destipaddr b) \<noteq> snd (uip_hostaddr s) then drop_packet s
              else if uip_ipchksum s \<noteq> 0xffff then drop_packet s
              else if BUF_proto b = UIP_PROTO_TCP then tcp_input app s
              else if BUF_proto b \<noteq> UIP_PROTO_ICMP then drop_packet s
              else icmp_input s)"

definition uip_process :: "'a app \<Rightarrow> u8 \<Rightarrow> 'a uip_state_scheme \<Rightarrow> 'a uip_state_scheme result" where
  "uip_process app flag s =
     (let s = s\<lparr>uip_appdata := In_Buf 54\<rparr>
      in if flag = UIP_TIMER then uip_timer app s else ip_input app s)"

text \<open>The macros \<open>uip_input\<close> and \<open>uip_periodic\<close> of httpd/uip.h.\<close>

definition uip_input :: "'a app \<Rightarrow> 'a uip_state_scheme \<Rightarrow> 'a uip_state_scheme result" where
  "uip_input app s = uip_process app UIP_DATA s"

definition uip_periodic :: "'a app \<Rightarrow> nat \<Rightarrow> 'a uip_state_scheme \<Rightarrow> 'a uip_state_scheme result" where
  "uip_periodic app conn s = uip_process app UIP_TIMER (s\<lparr>uip_conn_ix := conn\<rparr>)"

end
