(* ===== verification/Uip_Inv.thy ===== *)
theory Uip_Inv
  imports Uip_Tcp
begin

text \<open>
  What \<open>uip_process\<close> guarantees: every packet it hands to the driver carries a correct IP and
  TCP checksum and a length that fits the buffer, the connection table keeps its invariant, and
  connection states move along the TCP state diagram only.  The application is described by
  the locale \<open>uip_app\<close>: a callback may change the application state of the current connection,
  the application part of the packet buffer and the variables of the application interface.
\<close>

section \<open>Packets that are sent verify\<close>

text \<open>A data pointer never points into the packet headers.\<close>

fun data_ptr :: "ptr \<Rightarrow> bool" where
  "data_ptr (In_Buf i) \<longleftrightarrow> 54 \<le> i"
| "data_ptr _ \<longleftrightarrow> True"

lemma read_mem_cong:
  assumes "data_ptr p" and "bytes_at (uip_buf s') 54 1448 = bytes_at (uip_buf s) 54 1448"
    and "length (uip_buf s') = 1502" and "length (uip_buf s) = 1502"
    and "uip_objs s' = uip_objs s"
  shows "read_mem s' p n = read_mem s p n"
proof -
  have drop: "drop 54 (uip_buf s') = drop 54 (uip_buf s)"
    using assms(2-4) by (simp add: bytes_at_def)
  have "bytes_at (uip_buf s') i n = bytes_at (uip_buf s) i n" if "54 \<le> i" for i n
  proof -
    have "drop i xs = drop (i - 54) (drop 54 xs)" for xs :: "u8 list"
      using that by simp
    then show ?thesis unfolding bytes_at_def using drop by metis
  qed
  then show ?thesis
    using assms by (cases p; cases n) (simp_all split: if_splits)
qed

lemma uip_tcpchksum_Inr:
  assumes "read_mem s (uip_appdata s) (unat (BUF_iplen (uip_buf s) - 40)) = Inr d"
  shows "\<exists>w. uip_tcpchksum s = Inr w"
  unfolding uip_tcpchksum_def Let_def assms bind_result_simps by blast

lemma uip_tcpchksum_readE:
  assumes "uip_tcpchksum s = Inr w"
  obtains d where "read_mem s (uip_appdata s) (unat (BUF_iplen (uip_buf s) - 40)) = Inr d"
  using assms unfolding uip_tcpchksum_def Let_def by auto

lemma tcp_checksum_fill:
  assumes c: "uip_tcpchksum (s\<lparr>uip_buf := st16 50 0 b\<rparr>) = Inr c"
    and len: "length b = 1502" and len': "length (uip_buf s') = 1502"
    and p: "data_ptr (uip_appdata s)"
    and s': "uip_appdata s' = uip_appdata s" "uip_objs s' = uip_objs s"
      "bytes_at (uip_buf s') 54 1448 = bytes_at b 54 1448"
      "bytes_at (uip_buf s') 34 20 = bytes_at (st16 50 (NOT c) b) 34 20"
      "bytes_at (uip_buf s') 26 8 = bytes_at b 26 8"
      "BUF_iplen (uip_buf s') = BUF_iplen b"
  shows "uip_tcpchksum s' = Inr 0xffff"
proof -
  let ?t = "s\<lparr>uip_buf := st16 50 0 b\<rparr>"
  from c obtain d where d: "read_mem ?t (uip_appdata ?t) (unat (BUF_iplen (uip_buf ?t) - 40)) = Inr d"
    by (rule uip_tcpchksum_readE)
  have bt: "BUF_iplen (uip_buf ?t) = BUF_iplen b"
    by (simp add: BUF_iplen_def)
  have rd: "read_mem s' (uip_appdata s') (unat (BUF_iplen (uip_buf s') - 40)) = Inr d"
    using read_mem_cong [of "uip_appdata s" s' ?t] d p len len' s'
    by (simp add: BUF_iplen_def)
  then obtain w where w: "uip_tcpchksum s' = Inr w"
    using uip_tcpchksum_Inr by blast
  have addr: "ld16 (uip_buf s') i = ld16 b i" if "26 \<le> i" "i \<le> 32" for i
    using that ld16_bytes_at [of 26 i 8 b] ld16_bytes_at [of 26 i 8 "uip_buf s'"] s'(5) len len' by simp
  have hdr: "sum16 (bytes_at (uip_buf s') 34 20) = sum16 (bytes_at (st16 50 0 b) 34 20) + unat (NOT c)"
    using sum16_field [of 34 50 20 b 0] sum16_field [of 34 50 20 b "NOT c"] len s'(4) by simp
  have eqs: "ld16 (uip_buf s') 26 = ld16 (uip_buf ?t) 26" "ld16 (uip_buf s') 28 = ld16 (uip_buf ?t) 28"
    "ld16 (uip_buf s') 30 = ld16 (uip_buf ?t) 30" "ld16 (uip_buf s') 32 = ld16 (uip_buf ?t) 32"
    by (simp_all add: addr)
  have "tcp_sum (uip_buf s') d = tcp_sum (uip_buf ?t) d + unat (NOT c)"
    unfolding tcp_sum_def hdr s'(6) bt eqs by simp
  moreover have "65535 dvd tcp_sum (uip_buf ?t) d + unat (NOT c)"
    by (rule complement_sum) (rule uip_tcpchksum_mod(1) [OF c d])
  ultimately have "unat w mod 65535 = 0"
    using uip_tcpchksum_mod(1) [OF w rd] by (simp only: mod_eq_0_iff_dvd)
  moreover have "w \<noteq> 0" by (rule uip_tcpchksum_mod(2) [OF w rd])
  ultimately have "w = 0xffff" by (intro eq_ffff_iff [THEN iffD2] conjI)
  with w show ?thesis by simp
qed

lemma st16_st16 [simp]: "st16 i w (st16 i v b) = st16 i w b"
  by (simp add: st16_def list_update_swap)

definition well_sent :: "'a uip_state_scheme \<Rightarrow> bool" where
  "well_sent s \<longleftrightarrow>
     uip_ipchksum s = 0xffff \<and> BUF_iplen (uip_buf s) = uip_len s
     \<and> (BUF_proto (uip_buf s) = UIP_PROTO_TCP \<longrightarrow> uip_tcpchksum s = Inr 0xffff)"

lemma tcp_send_noconn_well_sent:
  assumes "tcp_send_noconn s = Inr s'" and "length (uip_buf s) = 1502" and "data_ptr (uip_appdata s)"
  shows "well_sent s'"
proof -
  let ?b = "(uip_buf s)[16 := hi8 (uip_len s), 17 := lo8 (uip_len s)]"
  from assms(1) obtain c where c: "uip_tcpchksum (s\<lparr>uip_buf := st16 50 0 ?b\<rparr>) = Inr c"
    and s': "ip_send_nolen (s\<lparr>uip_buf := st16 50 (NOT c) ?b\<rparr>) = Inr s'"
    by (auto simp: tcp_send_noconn_def Let_def)
  let ?id = "ipid s + 1"
  let ?b4 = "(st16 50 (NOT c) ?b)[14 := 0x45, 15 := 0, 20 := 0, 21 := 0, 22 := UIP_TTL, 18 := hi8 ?id, 19 := lo8 ?id]"
  obtain c2 where c2: "c2 = uip_chksum (bytes_at (st16 24 0 ?b4) 14 20)"
    and s'': "s' = s\<lparr>ipid := ?id, uip_buf := st16 24 (NOT c2) ?b4\<rparr>"
    using s' by (auto simp: ip_send_nolen_def Let_def uip_ipchksum_def)
  have ip: "uip_ipchksum s' = 0xffff"
    unfolding uip_ipchksum_def s'' using assms(2) c2 by (simp add: ip_checksum_fill)
  have "uip_tcpchksum s' = Inr 0xffff"
    by (rule tcp_checksum_fill [OF c]) (use assms in \<open>simp_all add: s'' BUF_iplen_def\<close>)
  with ip show ?thesis
    using assms(2) by (simp add: well_sent_def s'' BUF_iplen_def)
qed

section \<open>The transmission control block\<close>

text \<open>Two connections that differ in the application state at most.\<close>

definition same_tcb :: "uip_conn \<Rightarrow> uip_conn \<Rightarrow> bool" where
  "same_tcb c c' \<longleftrightarrow> c' = c\<lparr>appstate := appstate c'\<rparr>"

lemma same_tcb_refl [simp]: "same_tcb c c"
  by (simp add: same_tcb_def)

lemma same_tcb_sel:
  assumes "same_tcb c c'"
  shows "tcpstateflags c' = tcpstateflags c" "clen c' = clen c" "mss c' = mss c"
    "initialmss c' = initialmss c" "nrtx c' = nrtx c" "timer c' = timer c" "rcv_nxt c' = rcv_nxt c"
    "snd_nxt c' = snd_nxt c" "lport c' = lport c" "rport c' = rport c" "ripaddr c' = ripaddr c"
    "rto c' = rto c" "sa c' = sa c" "sv c' = sv c"
  using arg_cong [OF assms [unfolded same_tcb_def], of tcpstateflags]
    arg_cong [OF assms [unfolded same_tcb_def], of clen]
    arg_cong [OF assms [unfolded same_tcb_def], of mss]
    arg_cong [OF assms [unfolded same_tcb_def], of initialmss]
    arg_cong [OF assms [unfolded same_tcb_def], of nrtx]
    arg_cong [OF assms [unfolded same_tcb_def], of timer]
    arg_cong [OF assms [unfolded same_tcb_def], of rcv_nxt]
    arg_cong [OF assms [unfolded same_tcb_def], of snd_nxt]
    arg_cong [OF assms [unfolded same_tcb_def], of lport]
    arg_cong [OF assms [unfolded same_tcb_def], of rport]
    arg_cong [OF assms [unfolded same_tcb_def], of ripaddr]
    arg_cong [OF assms [unfolded same_tcb_def], of rto]
    arg_cong [OF assms [unfolded same_tcb_def], of sa]
    arg_cong [OF assms [unfolded same_tcb_def], of sv]
  by simp_all

definition uip_wf :: "'a uip_state_scheme \<Rightarrow> bool" where
  "uip_wf s \<longleftrightarrow> length (uip_buf s) = UIP_BUF_BYTES \<and> length (uip_conns s) = UIP_CONNS
     \<and> length (uip_listenports s) = UIP_LISTENPORTS \<and> uip_conn_ix s < UIP_CONNS
     \<and> data_ptr (uip_appdata s) \<and> data_ptr (uip_sappdata s)"

section \<open>Output\<close>

text \<open>The output labels change the packet, its length and the IP identification only.\<close>

definition sends :: "'a uip_state_scheme \<Rightarrow> 'a uip_state_scheme \<Rightarrow> bool" where
  "sends s s' \<longleftrightarrow>
     s' = s\<lparr>uip_buf := uip_buf s', ipid := ipid s', uip_len := uip_len s'\<rparr>
     \<and> length (uip_buf s') = length (uip_buf s)
     \<and> (uip_len s' = 0 \<or> well_sent s')"

lemma sends_sel:
  assumes "sends s s'"
  shows "uip_conns s' = uip_conns s" "uip_conn_ix s' = uip_conn_ix s"
    "uip_listenports s' = uip_listenports s" "uip_hostaddr s' = uip_hostaddr s"
    "uip_appdata s' = uip_appdata s" "uip_sappdata s' = uip_sappdata s" "uip_flags s' = uip_flags s"
    "uip_slen s' = uip_slen s" "iss s' = iss s" "uip_objs s' = uip_objs s"
    "uip_state.more s' = uip_state.more s" "length (uip_buf s') = length (uip_buf s)"
proof -
  obtain b i n where s': "s' = s\<lparr>uip_buf := b, ipid := i, uip_len := n\<rparr>"
    and l: "length (uip_buf s') = length (uip_buf s)"
    using assms unfolding sends_def by blast
  show "uip_conns s' = uip_conns s" "uip_conn_ix s' = uip_conn_ix s"
    "uip_listenports s' = uip_listenports s" "uip_hostaddr s' = uip_hostaddr s"
    "uip_appdata s' = uip_appdata s" "uip_sappdata s' = uip_sappdata s" "uip_flags s' = uip_flags s"
    "uip_slen s' = uip_slen s" "iss s' = iss s" "uip_objs s' = uip_objs s"
    "uip_state.more s' = uip_state.more s" "length (uip_buf s') = length (uip_buf s)"
    using l by (simp_all add: s')
qed

lemma drop_packet_sends: "drop_packet s = Inr s' \<Longrightarrow> sends s s' \<and> uip_len s' = 0"
  by (auto simp: drop_packet_def sends_def)

abbreviation out_ready :: "'a uip_state_scheme \<Rightarrow> bool" where
  "out_ready s \<equiv> length (uip_buf s) = UIP_BUF_BYTES \<and> data_ptr (uip_appdata s)"

lemma tcp_send_noconn_sends:
  assumes "tcp_send_noconn s = Inr s'" and "out_ready s"
  shows "sends s s' \<and> uip_len s' = uip_len s \<and> BUF_proto (uip_buf s') = BUF_proto (uip_buf s)"
proof -
  have w: "well_sent s'" using tcp_send_noconn_well_sent assms by blast
  obtain b i where s': "s' = s\<lparr>ipid := i, uip_buf := b\<rparr>" and len: "length b = length (uip_buf s)"
    and proto: "b ! 23 = uip_buf s ! 23"
    using assms by (auto simp: tcp_send_noconn_def ip_send_nolen_def Let_def)
  show ?thesis using w len proto by (simp add: s' sends_def)
qed

lemma sends_via:
  assumes "sends (t\<lparr>uip_len := n, uip_buf := b\<rparr>) s'" and "length b = length (uip_buf t)"
  shows "sends t s'"
  using assms unfolding sends_def by (auto elim!: uip_state.cases)

lemma sends_via_buf:
  assumes "sends (t\<lparr>uip_buf := b\<rparr>) s'" and "length b = length (uip_buf t)"
  shows "sends t s'"
  using assms unfolding sends_def by (auto elim!: uip_state.cases)

abbreviation emits_tcp :: "u16 \<Rightarrow> 'a uip_state_scheme \<Rightarrow> 'a uip_state_scheme \<Rightarrow> bool" where
  "emits_tcp n s s' \<equiv> sends s s' \<and> uip_len s' = n \<and> BUF_proto (uip_buf s') = UIP_PROTO_TCP"

lemma tcp_send_emits:
  assumes "tcp_send k s = Inr s'" and "out_ready s"
  shows "emits_tcp (uip_len s) s s'"
proof -
  obtain b where b: "tcp_send_noconn (s\<lparr>uip_buf := b\<rparr>) = Inr s'" "length b = length (uip_buf s)"
    "b ! 23 = 6"
    using assms by (simp add: tcp_send_def Let_def)
  then show ?thesis
    using tcp_send_noconn_sends [OF b(1)] assms(2) sends_via_buf [where t = s and b = b] by simp
qed

lemma tcp_send_noopts_emits:
  "tcp_send_noopts k s = Inr s' \<Longrightarrow> out_ready s \<Longrightarrow> emits_tcp (uip_len s) s s'"
  unfolding tcp_send_noopts_def
  by (drule tcp_send_emits) (auto elim: sends_via_buf)

lemma tcp_send_nodata_emits:
  "tcp_send_nodata k s = Inr s' \<Longrightarrow> out_ready s \<Longrightarrow> emits_tcp 40 s s'"
  unfolding tcp_send_nodata_def
  by (drule tcp_send_noopts_emits) (auto intro: sends_via [where b = "uip_buf s" and n = 40 and t = s])

lemma tcp_send_ack_emits: "tcp_send_ack k s = Inr s' \<Longrightarrow> out_ready s \<Longrightarrow> emits_tcp 40 s s'"
  and tcp_send_finack_emits: "tcp_send_finack k s = Inr s' \<Longrightarrow> out_ready s \<Longrightarrow> emits_tcp 40 s s'"
  and tcp_send_rstack_emits: "tcp_send_rstack k s = Inr s' \<Longrightarrow> out_ready s \<Longrightarrow> emits_tcp 40 s s'"
  unfolding tcp_send_ack_def tcp_send_finack_def tcp_send_rstack_def
  by (drule tcp_send_nodata_emits; auto elim: sends_via_buf)+

lemma tcp_send_synack_emits: "tcp_send_synack k s = Inr s' \<Longrightarrow> out_ready s \<Longrightarrow> emits_tcp 44 s s'"
  unfolding tcp_send_synack_def
  by (drule tcp_send_emits) (auto elim: sends_via)

lemma tcp_reset_emits:
  assumes "tcp_reset s = Inr s'" and "out_ready s" and "BUF_proto (uip_buf s) = UIP_PROTO_TCP"
  shows "sends s s' \<and> uip_len s' = 0 \<or> emits_tcp 40 s s'"
proof (cases "BUF_flags (uip_buf s) AND TCP_RST = 0")
  case True
  obtain b where b: "tcp_send_noconn (s\<lparr>uip_len := 40, uip_buf := b\<rparr>) = Inr s'"
    "length b = length (uip_buf s)" "b ! 23 = uip_buf s ! 23"
    using assms(1) True by (simp add: tcp_reset_def Let_def)
  then show ?thesis
    using tcp_send_noconn_sends [OF b(1)] assms(2,3) sends_via [where t = s and b = b and n = 40] by simp
next
  case False
  then show ?thesis using assms(1) by (auto simp: tcp_reset_def drop_packet_sends)
qed

section \<open>The connection invariant and the state diagram\<close>

definition conn_inv :: "uip_conn \<Rightarrow> bool" where
  "conn_inv c \<longleftrightarrow>
     tcpstateflags c \<in> {CLOSED, SYN_RCVD, ESTABLISHED, FIN_WAIT_1, FIN_WAIT_2, CLOSING, TIME_WAIT, LAST_ACK}
     \<and> mss c \<le> initialmss c \<and> initialmss c \<le> UIP_TCP_MSS \<and> clen c \<le> UIP_TCP_MSS
     \<and> (tcpstateflags c \<in> {SYN_RCVD, FIN_WAIT_1, CLOSING, LAST_ACK} \<longrightarrow> clen c = 1)
     \<and> data_ptr (hs_dataptr (appstate c))
     \<and> nrtx c \<le> UIP_MAXRTX \<and> (tcpstateflags c = SYN_RCVD \<longrightarrow> nrtx c \<le> UIP_MAXSYNRTX)"

definition uip_inv :: "'a uip_state_scheme \<Rightarrow> bool" where
  "uip_inv s \<longleftrightarrow> uip_wf s \<and> (\<forall>j<UIP_CONNS. conn_inv (uip_conns s ! j))"

text \<open>
  What the stack relies on when it calls the application: from a good state the callback changes
  the application state of the current connection, the data part of the packet buffer and the
  variables of the application interface, and nothing else.
\<close>

definition app_frame :: "'a uip_state_scheme \<Rightarrow> 'a uip_state_scheme \<Rightarrow> bool" where
  "app_frame s s' \<longleftrightarrow>
     length (uip_buf s') = length (uip_buf s) \<and> take 54 (uip_buf s') = take 54 (uip_buf s)
     \<and> length (uip_conns s') = length (uip_conns s)
     \<and> (\<forall>j. j \<noteq> uip_conn_ix s \<longrightarrow> uip_conns s' ! j = uip_conns s ! j)
     \<and> same_tcb (cur_conn s) (cur_conn s')
     \<and> uip_hostaddr s' = uip_hostaddr s \<and> uip_listenports s' = uip_listenports s
     \<and> uip_conn_ix s' = uip_conn_ix s \<and> ipid s' = ipid s \<and> iss s' = iss s
     \<and> uip_objs s' = uip_objs s \<and> uip_len s' = uip_len s \<and> uip_appdata s' = uip_appdata s
     \<and> data_ptr (uip_sappdata s') \<and> data_ptr (hs_dataptr (appstate (cur_conn s')))"

locale uip_app =
  fixes app :: "'a app"
  assumes frame: "uip_inv s \<Longrightarrow> app s = Inr s' \<Longrightarrow> app_frame s s'"

text \<open>The edges of the TCP state diagram the server uses; every state may be left for \<open>CLOSED\<close>.\<close>

inductive tcp_trans :: "u8 \<Rightarrow> u8 \<Rightarrow> bool" where
  passive_open: "tcp_trans CLOSED SYN_RCVD"
| reuse: "tcp_trans TIME_WAIT SYN_RCVD"
| established: "tcp_trans SYN_RCVD ESTABLISHED"
| passive_close: "tcp_trans ESTABLISHED LAST_ACK"
| active_close: "tcp_trans ESTABLISHED FIN_WAIT_1"
| fin_acked: "tcp_trans FIN_WAIT_1 FIN_WAIT_2"
| simultaneous: "tcp_trans FIN_WAIT_1 CLOSING"
| fin_and_ack: "tcp_trans FIN_WAIT_1 TIME_WAIT"
| peer_fin: "tcp_trans FIN_WAIT_2 TIME_WAIT"
| closing_acked: "tcp_trans CLOSING TIME_WAIT"
| closed: "tcp_trans t CLOSED"

declare tcp_trans.intros [intro]

abbreviation tcp_steps :: "uip_conn \<Rightarrow> uip_conn \<Rightarrow> bool" where
  "tcp_steps c c' \<equiv> tcp_trans\<^sup>*\<^sup>* (tcpstateflags c) (tcpstateflags c')"

text \<open>
  One processing step on connection \<open>k\<close>: from a good state with \<open>k\<close> current it reaches a good
  state, leaves the other connection and the configuration alone, and moves connection \<open>k\<close> along
  the diagram.
\<close>

definition evolves :: "nat \<Rightarrow> 'a uip_state_scheme \<Rightarrow> 'a uip_state_scheme \<Rightarrow> bool" where
  "evolves k s s' \<longleftrightarrow>
     (uip_inv s \<and> uip_conn_ix s = k \<longrightarrow>
        uip_inv s' \<and> uip_conn_ix s' = k \<and> uip_hostaddr s' = uip_hostaddr s
        \<and> uip_listenports s' = uip_listenports s
        \<and> (\<forall>j. j \<noteq> k \<longrightarrow> uip_conns s' ! j = uip_conns s ! j)
        \<and> tcp_steps (uip_conns s ! k) (uip_conns s' ! k))"

abbreviation tcp_size :: "u16 \<Rightarrow> bool" where
  "tcp_size n \<equiv> 40 \<le> n \<and> n \<le> 1486"

definition sent_ok :: "'a uip_state_scheme \<Rightarrow> bool" where
  "sent_ok s \<longleftrightarrow>
     uip_len s = 0 \<or> well_sent s \<and> BUF_proto (uip_buf s) = UIP_PROTO_TCP \<and> tcp_size (uip_len s)"

definition completes :: "nat \<Rightarrow> 'a uip_state_scheme \<Rightarrow> 'a uip_state_scheme \<Rightarrow> bool" where
  "completes k s s' \<longleftrightarrow> evolves k s s' \<and> (uip_inv s \<and> uip_conn_ix s = k \<longrightarrow> sent_ok s')"

lemma evolves_refl [simp]: "evolves k s s"
  by (simp add: evolves_def)

lemma evolves_trans: "evolves k s t \<Longrightarrow> evolves k t u \<Longrightarrow> evolves k s u"
  unfolding evolves_def by (auto intro: rtranclp_trans)

lemma evolves_completes: "evolves k s t \<Longrightarrow> completes k t u \<Longrightarrow> completes k s u"
  unfolding completes_def by (blast intro: evolves_trans dest: evolves_def [THEN iffD1, rule_format])

lemma evolves_frame:
  assumes "uip_inv s \<Longrightarrow> uip_wf s'" and "uip_conns s' = uip_conns s" and "uip_conn_ix s' = uip_conn_ix s"
    and "uip_hostaddr s' = uip_hostaddr s" and "uip_listenports s' = uip_listenports s"
  shows "evolves k s s'"
  using assms by (auto simp: evolves_def uip_inv_def)

lemma evolves_flags [simp]:
  "evolves k s (s\<lparr>uip_flags := f\<rparr>)" "evolves k s (s\<lparr>uip_len := n\<rparr>)" "evolves k s (s\<lparr>uip_slen := n\<rparr>)"
  by (rule evolves_frame; simp add: uip_inv_def uip_wf_def)+

lemma evolves_upd_conn:
  assumes "\<And>c. conn_inv c \<Longrightarrow> c = uip_conns s ! k \<Longrightarrow> conn_inv (f c) \<and> tcp_steps c (f c)"
  shows "evolves k s (upd_conn k f s)"
proof -
  have "k < length (uip_conns s)" if "uip_inv s" "uip_conn_ix s = k"
    using that by (auto simp: uip_inv_def uip_wf_def)
  then show ?thesis
    using assms by (auto simp: evolves_def uip_inv_def uip_wf_def nth_upd_conn)
qed

lemma sends_evolves: "sends s s' \<Longrightarrow> evolves k s s'"
  by (rule evolves_frame) (auto dest: sends_sel simp: uip_inv_def uip_wf_def)

lemma uip_inv_out_ready: "uip_inv s \<Longrightarrow> out_ready s"
  by (simp add: uip_inv_def uip_wf_def)

lemma drop_packet_completes: "drop_packet s = Inr s' \<Longrightarrow> completes k s s'"
  by (auto simp: completes_def sent_ok_def dest: drop_packet_sends intro: sends_evolves)

lemma emits_completes:
  assumes "out_ready s \<Longrightarrow> emits_tcp n s s'" and "uip_inv s \<Longrightarrow> uip_conn_ix s = k \<Longrightarrow> tcp_size n"
  shows "completes k s s'"
proof -
  have "sends s s'" if "uip_inv s" using that assms(1) uip_inv_out_ready by blast
  then show ?thesis
    using assms sends_evolves [of s s' k] uip_inv_out_ready [of s]
    by (auto simp: completes_def sent_ok_def sends_def evolves_def)
qed

lemma output_completes:
  "tcp_send_ack k s = Inr s' \<Longrightarrow> completes j s s'"
  "tcp_send_finack k s = Inr s' \<Longrightarrow> completes j s s'"
  "tcp_send_rstack k s = Inr s' \<Longrightarrow> completes j s s'"
  "tcp_send_synack k s = Inr s' \<Longrightarrow> completes j s s'"
  by (rule emits_completes,
      erule (1) tcp_send_ack_emits tcp_send_finack_emits tcp_send_rstack_emits tcp_send_synack_emits,
      simp)+

lemma tcp_send_noopts_completes:
  assumes "tcp_send_noopts k s = Inr s'" and "uip_inv s \<Longrightarrow> uip_conn_ix s = j \<Longrightarrow> tcp_size (uip_len s)"
  shows "completes j s s'"
  using assms by (intro emits_completes [where n = "uip_len s"]) (auto dest: tcp_send_noopts_emits)

lemma after_intros:
  assumes "evolves k s t"
  shows "drop_packet t = Inr s' \<Longrightarrow> completes k s s'"
    and "tcp_send_ack j t = Inr s' \<Longrightarrow> completes k s s'"
    and "tcp_send_finack j t = Inr s' \<Longrightarrow> completes k s s'"
    and "tcp_send_rstack j t = Inr s' \<Longrightarrow> completes k s s'"
    and "tcp_send_synack j t = Inr s' \<Longrightarrow> completes k s s'"
  using evolves_completes [OF assms] drop_packet_completes output_completes by blast+

lemma evolves_upd_buf:
  "length b = length (uip_buf s) \<Longrightarrow> evolves k s (s\<lparr>uip_buf := b\<rparr>)"
  by (rule evolves_frame) (auto simp: uip_inv_def uip_wf_def)

lemma evolves_appdata:
  "(data_ptr (uip_appdata s) \<Longrightarrow> data_ptr (uip_sappdata s) \<Longrightarrow> data_ptr p) \<Longrightarrow> evolves k s (s\<lparr>uip_appdata := p\<rparr>)"
  by (rule evolves_frame) (auto simp: uip_inv_def uip_wf_def)

lemma clen_bound:
  assumes "uip_inv s" and "j < UIP_CONNS"
  shows "tcp_size (clen (uip_conns s ! j) + 40)"
proof -
  have "clen (uip_conns s ! j) \<le> 1446"
    using assms by (auto simp: uip_inv_def conn_inv_def)
  then show ?thesis
    by (simp add: word_le_nat_alt unat_word_ariths)
qed

lemma uip_inv_ix: "uip_inv s \<Longrightarrow> uip_conn_ix s < UIP_CONNS"
  by (simp add: uip_inv_def uip_wf_def)

lemma apprexmit_completes:
  assumes "apprexmit k s = Inr s'"
  shows "completes k s s'"
proof -
  let ?t = "s\<lparr>uip_appdata := uip_sappdata s\<rparr>"
  have st: "evolves k s ?t" by (rule evolves_appdata)
  have snd: "completes k ?t s'"
    if "tcp_send_noopts k (?t\<lparr>uip_len := n, uip_buf := b\<rparr>) = Inr s'"
      and "length b = length (uip_buf s)" and "uip_inv ?t \<Longrightarrow> uip_conn_ix ?t = k \<Longrightarrow> tcp_size n" for n b
  proof -
    let ?u = "?t\<lparr>uip_len := n\<rparr>"
    have len: "evolves k ?t ?u" by simp
    have buf: "evolves k ?u (?u\<lparr>uip_buf := b\<rparr>)"
      using that(2) by (intro evolves_upd_buf) simp
    have "uip_inv ?t \<longleftrightarrow> uip_inv (?u\<lparr>uip_buf := b\<rparr>)"
      using that(2) by (simp add: uip_inv_def uip_wf_def)
    then have "completes k (?u\<lparr>uip_buf := b\<rparr>) s'"
      using that(1,3) by (intro tcp_send_noopts_completes [where k = k]) auto
    then show ?thesis by (rule evolves_completes [OF evolves_trans [OF len buf]])
  qed
  have "tcp_size (clen (uip_conns s ! k) + 40)" if "uip_inv ?t" "uip_conn_ix ?t = k"
    using clen_bound [OF that(1), of k] uip_inv_ix [OF that(1)] that(2) by simp
  then have "completes k ?t s'"
    using assms snd drop_packet_completes
    by (auto simp: apprexmit_def Let_def split: if_splits)
  then show ?thesis by (rule evolves_completes [OF st])
qed

lemma completesI:
  "(uip_inv s \<Longrightarrow> uip_conn_ix s = k \<Longrightarrow> completes k s s') \<Longrightarrow> completes k s s'"
  unfolding completes_def evolves_def by blast

lemma evolvesI:
  "(uip_inv s \<Longrightarrow> uip_conn_ix s = k \<Longrightarrow> evolves k s s') \<Longrightarrow> evolves k s s'"
  unfolding evolves_def by blast

lemma upd_conn_in_range:
  "uip_inv s \<Longrightarrow> uip_conn_ix s = k \<Longrightarrow> uip_conns (upd_conn k f s) ! k = f (uip_conns s ! k)"
  by (auto simp: uip_inv_def uip_wf_def)

text \<open>The updates of an established connection that \<open>appsend\<close> makes before it sends.\<close>

lemma evolves_clen:
  assumes "tcpstateflags (uip_conns s ! k) = ESTABLISHED" and "\<And>c. conn_inv c \<Longrightarrow> c = uip_conns s ! k \<Longrightarrow> n \<le> UIP_TCP_MSS"
  shows "evolves k s (upd_conn k (\<lambda>c. c\<lparr>clen := n\<rparr>) s)"
  by (rule evolves_upd_conn) (use assms in \<open>auto simp: conn_inv_def\<close>)

lemma evolves_nrtx_0: "evolves k s (upd_conn k (\<lambda>c. c\<lparr>nrtx := 0\<rparr>) s)"
  by (rule evolves_upd_conn) (auto simp: conn_inv_def)

lemma evolves_closed: "evolves k s (upd_conn k (\<lambda>c. c\<lparr>tcpstateflags := CLOSED\<rparr>) s)"
  by (rule evolves_upd_conn) (auto simp: conn_inv_def)

lemma evolves_close:
  assumes "tcpstateflags (uip_conns s ! k) = ESTABLISHED" and "t = FIN_WAIT_1 \<or> t = LAST_ACK"
  shows "evolves k s (upd_conn k (\<lambda>c. c\<lparr>clen := 1, tcpstateflags := t, nrtx := 0\<rparr>) s)"
  by (rule evolves_upd_conn) (use assms in \<open>auto simp: conn_inv_def\<close>)

lemma appsend_len_evolves:
  assumes "tcpstateflags (uip_conns s ! k) = ESTABLISHED"
  shows "evolves k s (appsend_len k s)"
proof (rule evolvesI)
  assume inv: "uip_inv s" "uip_conn_ix s = k"
  define t where "t = (if uip_flags s AND UIP_ACKDATA \<noteq> 0 then upd_conn k (\<lambda>c. c\<lparr>clen := 0\<rparr>) s else s)"
  define m where "m = mss (uip_conns t ! k)"
  define u where "u = (if m < uip_slen t then t\<lparr>uip_slen := m\<rparr> else t)"
  have st: "evolves k s t" unfolding t_def using assms by (auto intro: evolves_clen)
  have est: "tcpstateflags (uip_conns t ! k) = ESTABLISHED"
    using assms upd_conn_in_range [OF inv] by (simp add: t_def)
  have tu: "evolves k t u" by (simp add: u_def)
  have "uip_slen u \<le> m" by (auto simp: u_def)
  then have "evolves k u (upd_conn k (\<lambda>c. c\<lparr>clen := uip_slen u\<rparr>) u)"
    using est by (intro evolves_clen) (auto simp: u_def conn_inv_def m_def split: if_splits)
  then have "evolves k s (upd_conn k (\<lambda>c. c\<lparr>clen := uip_slen u\<rparr>) u)"
    using st tu evolves_trans by blast
  moreover have "evolves k s (t\<lparr>uip_slen := n\<rparr>)" for n
    using st evolves_trans evolves_flags(3) by blast
  moreover have "evolves k s (upd_conn k (\<lambda>c. c\<lparr>clen := 0\<rparr>) s)"
    using assms by (auto intro: evolves_clen)
  ultimately show "evolves k s (appsend_len k s)"
    unfolding appsend_len_def Let_def t_def [symmetric] m_def [symmetric] u_def [symmetric] by simp
qed

lemma appsend_completes:
  assumes "appsend k s = Inr s'" and est: "tcpstateflags (uip_conns s ! k) = ESTABLISHED"
  shows "completes k s s'"
proof -
  let ?t = "s\<lparr>uip_slen := 0\<rparr>"
  have t: "evolves k s ?t" by simp
  consider (abort) "tcp_send_rstack k (upd_conn k (\<lambda>c. c\<lparr>tcpstateflags := CLOSED\<rparr>) ?t) = Inr s'"
    | (close) "tcp_send_finack k (upd_conn k (\<lambda>c. c\<lparr>clen := 1, tcpstateflags := FIN_WAIT_1, nrtx := 0\<rparr>) ?t) = Inr s'"
    | (data) "apprexmit k (upd_conn k (\<lambda>c. c\<lparr>nrtx := 0\<rparr>) (appsend_len k s)) = Inr s'"
    using assms(1) unfolding appsend_def by (auto split: if_splits)
  then show ?thesis
  proof cases
    case abort
    show ?thesis
      by (rule evolves_completes [OF evolves_trans [OF t evolves_closed] output_completes(3) [OF abort]])
  next
    case close
    have "evolves k ?t (upd_conn k (\<lambda>c. c\<lparr>clen := 1, tcpstateflags := FIN_WAIT_1, nrtx := 0\<rparr>) ?t)"
      using est by (intro evolves_close) simp_all
    then show ?thesis
      using t close evolves_completes evolves_trans output_completes(2) by blast
  next
    case data
    have "evolves k s (upd_conn k (\<lambda>c. c\<lparr>nrtx := 0\<rparr>) (appsend_len k s))"
      using est appsend_len_evolves evolves_nrtx_0 evolves_trans by blast
    then show ?thesis using data apprexmit_completes evolves_completes by blast
  qed
qed

lemma uip_add_rcv_nxt_evolves: "evolves k s (uip_add_rcv_nxt n s)"
proof (rule evolvesI)
  assume "uip_conn_ix s = k"
  then show "evolves k s (uip_add_rcv_nxt n s)"
    unfolding uip_add_rcv_nxt_def by (auto intro!: evolves_upd_conn simp: conn_inv_def)
qed

lemma new_data_evolves:
  "evolves k t (if P then uip_add_rcv_nxt n (t\<lparr>uip_flags := f\<rparr>) else t)"
  "evolves k t (if P then uip_add_rcv_nxt n t else t)"
  by (auto intro: evolves_trans [OF evolves_flags(1) uip_add_rcv_nxt_evolves] uip_add_rcv_nxt_evolves)

lemma upd_conn_keeps:
  "(\<And>c. sel (f c) = sel c) \<Longrightarrow> sel (uip_conns (upd_conn k f s) ! j) = sel (uip_conns s ! j)"
  by (cases "k < length (uip_conns s)") (auto simp: nth_upd_conn, simp add: upd_conn_def list_update_beyond)

lemma uip_add_rcv_nxt_state [simp]:
  "tcpstateflags (uip_conns (uip_add_rcv_nxt n s) ! k) = tcpstateflags (uip_conns s ! k)"
  unfolding uip_add_rcv_nxt_def by (rule upd_conn_keeps) simp

lemma rtt_estimate_sel [simp]:
  "tcpstateflags (rtt_estimate c) = tcpstateflags c" "clen (rtt_estimate c) = clen c"
  "mss (rtt_estimate c) = mss c" "initialmss (rtt_estimate c) = initialmss c"
  "nrtx (rtt_estimate c) = nrtx c" "rcv_nxt (rtt_estimate c) = rcv_nxt c"
  "snd_nxt (rtt_estimate c) = snd_nxt c" "timer (rtt_estimate c) = timer c"
  "appstate (rtt_estimate c) = appstate c"
  by (simp_all add: rtt_estimate_def Let_def)

lemma tcp_ackdata_evolves: "evolves k s (tcp_ackdata k s)"
proof -
  have "evolves k s (upd_conn k (\<lambda>c. let c = rtt_estimate (c\<lparr>snd_nxt := a\<rparr>) in c\<lparr>timer := rto c\<rparr>) s)" for a
    by (rule evolves_upd_conn) (simp add: Let_def conn_inv_def)
  then have "evolves k s ((upd_conn k (\<lambda>c. let c = rtt_estimate (c\<lparr>snd_nxt := a\<rparr>) in c\<lparr>timer := rto c\<rparr>) s)\<lparr>uip_flags := f\<rparr>)" for a f
    using evolves_flags(1) evolves_trans by blast
  then show ?thesis unfolding tcp_ackdata_def Let_def by simp
qed

lemma tcp_ackdata_state [simp]:
  "tcpstateflags (uip_conns (tcp_ackdata k s) ! j) = tcpstateflags (uip_conns s ! j)"
  unfolding tcp_ackdata_def Let_def by (auto intro!: upd_conn_keeps)

lemma data_ptr_add: "data_ptr p \<Longrightarrow> data_ptr (ptr_add p n)"
  by (cases p) auto

lemma est_urgent_evolves: "evolves k s (est_urgent s)"
proof -
  have "evolves k t (t\<lparr>uip_urglen := u, uip_len := n, uip_urgdata := p, uip_appdata := ptr_add (uip_appdata t) m\<rparr>)"
    for t u n p m
    by (rule evolves_frame) (auto simp: uip_inv_def uip_wf_def data_ptr_add)
  moreover have "evolves k s (s\<lparr>uip_urglen := u, uip_appdata := ptr_add (uip_appdata s) m, uip_len := n\<rparr>)" for u m n
    by (rule evolves_frame) (auto simp: uip_inv_def uip_wf_def data_ptr_add)
  ultimately show ?thesis
    unfolding est_urgent_def Let_def using uip_add_rcv_nxt_evolves evolves_trans by (auto; blast)
qed

lemma est_urgent_state [simp]:
  "tcpstateflags (uip_conns (est_urgent s) ! k) = tcpstateflags (uip_conns s ! k)"
  by (simp add: est_urgent_def Let_def)

lemma est_window_evolves: "evolves k s (est_window k s)"
  unfolding est_window_def Let_def by (rule evolves_upd_conn) (auto simp: conn_inv_def)

lemma est_window_state [simp]:
  "tcpstateflags (uip_conns (est_window k s) ! j) = tcpstateflags (uip_conns s ! j)"
  unfolding est_window_def Let_def by (rule upd_conn_keeps) simp

lemma mss_options_bound: "mss_options n b bound c = Inr (Some v) \<Longrightarrow> v \<le> UIP_TCP_MSS"
  by (induction n b bound c rule: mss_options.induct) (auto simp: Let_def split: if_splits)

lemma parse_mss_bound: "parse_mss b = Inr (Some v) \<Longrightarrow> v \<le> UIP_TCP_MSS"
  by (auto simp: parse_mss_def split: if_splits dest: mss_options_bound)

lemma pick_conn_free:
  assumes "pick_conn cs is best = Some k"
    and "\<And>b. best = Some b \<Longrightarrow> b \<in> S \<and> tcpstateflags (cs ! b) \<in> {CLOSED, TIME_WAIT}" and "set is \<subseteq> S"
  shows "k \<in> S \<and> tcpstateflags (cs ! k) \<in> {CLOSED, TIME_WAIT}"
  using assms by (induction cs "is" best rule: pick_conn.induct) (auto split: if_splits)

section \<open>Every handler keeps the invariant\<close>

context uip_app
begin

lemma app_frame_inv:
  assumes "app s = Inr s'" and "uip_inv s"
  shows "app_frame s s'"
  using assms frame by blast

lemma app_state:
  assumes "app s = Inr s'" and "uip_inv s" and "uip_conn_ix s = k"
  shows "tcpstateflags (uip_conns s' ! k) = tcpstateflags (uip_conns s ! k)"
  using app_frame_inv [OF assms(1,2)] assms(3)
  by (auto simp: app_frame_def cur_conn_def same_tcb_sel)

lemma app_evolves:
  assumes "app s = Inr s'"
  shows "evolves k s s'"
proof (rule evolvesI)
  assume inv: "uip_inv s" and k: "uip_conn_ix s = k"
  have fr: "app_frame s s'" using app_frame_inv assms inv by blast
  then have same: "same_tcb (uip_conns s ! k) (uip_conns s' ! k)"
    and dp: "data_ptr (hs_dataptr (appstate (uip_conns s' ! k)))"
    and other: "\<forall>j. j \<noteq> k \<longrightarrow> uip_conns s' ! j = uip_conns s ! j"
    using k by (auto simp: app_frame_def cur_conn_def)
  have "conn_inv (uip_conns s' ! j)" if "j < UIP_CONNS" for j
    using that inv same other dp
    by (cases "j = k") (auto simp: uip_inv_def conn_inv_def same_tcb_sel)
  moreover have "uip_wf s'"
    using fr inv by (simp add: app_frame_def uip_inv_def uip_wf_def)
  moreover have "tcp_steps (uip_conns s ! k) (uip_conns s' ! k)"
    using same by (simp add: same_tcb_sel)
  ultimately show "evolves k s s'"
    using fr other k by (simp add: evolves_def uip_inv_def app_frame_def)
qed

lemma app_then:
  assumes "bind_result (app t) f = Inr s'" and "evolves k s t"
    and "\<And>u. f u = Inr s' \<Longrightarrow> uip_inv t \<Longrightarrow> uip_conn_ix t = k \<Longrightarrow> app t = Inr u \<Longrightarrow> completes k u s'"
  shows "completes k s s'"
proof (rule completesI)
  assume "uip_inv s" "uip_conn_ix s = k"
  then have t: "uip_inv t" "uip_conn_ix t = k"
    using assms(2) by (auto simp: evolves_def)
  from assms(1) obtain u where u: "app t = Inr u" "f u = Inr s'" by blast
  then have "completes k u s'" using assms(3) t by blast
  then show "completes k s s'"
    using assms(2) app_evolves [OF u(1), of k] evolves_trans evolves_completes by blast
qed

lemma app_appsend:
  assumes "bind_result (app t) (appsend k) = Inr s'" and "evolves k s t"
    and "uip_inv t \<Longrightarrow> uip_conn_ix t = k \<Longrightarrow> tcpstateflags (uip_conns t ! k) = ESTABLISHED"
  shows "completes k s s'"
  by (rule app_then [OF assms(1,2)]) (use assms(3) in \<open>auto intro!: appsend_completes simp: app_state\<close>)

lemma app_finish:
  assumes "bind_result (app t) f = Inr s'" and "evolves k s t"
    and "\<And>u. f u = Inr s' \<Longrightarrow> completes k u s'"
  shows "completes k s s'"
  by (rule app_then [OF assms(1,2)]) (rule assms(3))

lemma in_syn_rcvd_completes:
  assumes "in_syn_rcvd app k s = Inr s'" and st: "tcpstateflags (uip_conns s ! k) = SYN_RCVD"
  shows "completes k s s'"
proof (cases "uip_flags s AND UIP_ACKDATA = 0")
  case True
  then show ?thesis using assms by (auto simp: in_syn_rcvd_def drop_packet_completes)
next
  case False
  let ?t = "(upd_conn k (\<lambda>c. c\<lparr>tcpstateflags := ESTABLISHED, clen := 0\<rparr>) s)\<lparr>uip_flags := UIP_CONNECTED\<rparr>"
  define u where "u = (if 0 < uip_len ?t
                 then uip_add_rcv_nxt (uip_len ?t) (?t\<lparr>uip_flags := uip_flags ?t OR UIP_NEWDATA\<rparr>)
                 else ?t)"
  have "evolves k s (upd_conn k (\<lambda>c. c\<lparr>tcpstateflags := ESTABLISHED, clen := 0\<rparr>) s)"
    by (rule evolves_upd_conn) (use st in \<open>auto simp: conn_inv_def\<close>)
  then have t: "evolves k s ?t" using evolves_flags(1) evolves_trans by blast
  have "evolves k ?t u"
    unfolding u_def by (rule new_data_evolves)
  then have ev: "evolves k s (u\<lparr>uip_slen := 0\<rparr>)"
    using t evolves_flags(3) evolves_trans by blast
  have run: "bind_result (app (u\<lparr>uip_slen := 0\<rparr>)) (appsend k) = Inr s'"
    using assms(1) False unfolding in_syn_rcvd_def Let_def u_def by simp
  have est: "tcpstateflags (uip_conns (u\<lparr>uip_slen := 0\<rparr>) ! k) = ESTABLISHED"
    if "uip_inv (u\<lparr>uip_slen := 0\<rparr>)" "uip_conn_ix (u\<lparr>uip_slen := 0\<rparr>) = k"
    using that by (auto simp: u_def uip_inv_def uip_wf_def uip_add_rcv_nxt_def)
  show ?thesis by (rule app_appsend [OF run ev est])
qed

lemma est_fin_completes:
  assumes "est_fin app k s = Inr s'" and st: "tcpstateflags (uip_conns s ! k) = ESTABLISHED"
  shows "completes k s s'"
proof (cases "clen (uip_conns s ! k) = 0")
  case True
  obtain f where run: "bind_result (app ((uip_add_rcv_nxt (1 + uip_len s) s)\<lparr>uip_flags := f\<rparr>)) (\<lambda>s.
           tcp_send_finack k
             (upd_conn k (\<lambda>c. c\<lparr>clen := 1, tcpstateflags := LAST_ACK, nrtx := 0\<rparr>) s)) = Inr s'"
    using assms(1) True unfolding est_fin_def Let_def by auto
  let ?t = "(uip_add_rcv_nxt (1 + uip_len s) s)\<lparr>uip_flags := f\<rparr>"
  have t: "evolves k s ?t"
    using uip_add_rcv_nxt_evolves evolves_flags(1) evolves_trans by blast
  show ?thesis
  proof (rule app_then [OF run t])
    fix u
    assume u: "tcp_send_finack k (upd_conn k (\<lambda>c. c\<lparr>clen := 1, tcpstateflags := LAST_ACK, nrtx := 0\<rparr>) u) = Inr s'"
      and inv: "uip_inv ?t" "uip_conn_ix ?t = k" "app ?t = Inr u"
    have "tcpstateflags (uip_conns u ! k) = ESTABLISHED"
      using app_state [OF inv(3,1,2)] st by simp
    then show "completes k u s'"
      using evolves_close evolves_completes output_completes(2) [OF u] by blast
  qed
next
  case False
  then show ?thesis using assms by (auto simp: est_fin_def drop_packet_completes)
qed

lemma in_established_completes:
  assumes "in_established app k s = Inr s'" and st: "tcpstateflags (uip_conns s ! k) = ESTABLISHED"
  shows "completes k s s'"
proof (cases "BUF_flags (uip_buf s) AND TCP_FIN = 0")
  case True
  let ?u = "est_urgent s"
  define t where "t = (if 0 < uip_len ?u \<and> tcpstateflags (uip_conns ?u ! k) AND UIP_STOPPED = 0
                 then uip_add_rcv_nxt (uip_len ?u) (?u\<lparr>uip_flags := uip_flags ?u OR UIP_NEWDATA\<rparr>)
                 else ?u)"
  have "evolves k ?u t" unfolding t_def by (rule new_data_evolves)
  then have w: "evolves k s (est_window k t)"
    using est_urgent_evolves est_window_evolves evolves_trans by blast
  have "tcpstateflags (uip_conns (est_window k t) ! k) = ESTABLISHED"
    using st by (simp add: t_def)
  moreover have "bind_result (app ((est_window k t)\<lparr>uip_slen := 0\<rparr>)) (appsend k) = Inr s'
      \<or> drop_packet (est_window k t) = Inr s'"
    using assms(1) True unfolding in_established_def Let_def t_def [symmetric] by (auto split: if_splits)
  ultimately show ?thesis
    using w evolves_flags(3) evolves_trans app_appsend drop_packet_completes evolves_completes
    by (metis uip_state.select_convs(11) uip_state.surjective uip_state.update_convs(8))
next
  case False
  then show ?thesis using assms est_fin_completes by (simp add: in_established_def)
qed

lemma in_last_ack_completes:
  assumes "in_last_ack app k s = Inr s'"
  shows "completes k s s'"
proof (cases "uip_flags s AND UIP_ACKDATA = 0")
  case True
  then show ?thesis using assms by (auto simp: in_last_ack_def drop_packet_completes)
next
  case False
  let ?t = "(upd_conn k (\<lambda>c. c\<lparr>tcpstateflags := CLOSED\<rparr>) s)\<lparr>uip_flags := UIP_CLOSE\<rparr>"
  have run: "bind_result (app ?t) drop_packet = Inr s'"
    using assms False by (simp add: in_last_ack_def)
  have "evolves k s ?t" using evolves_closed evolves_flags(1) evolves_trans by blast
  then show ?thesis using app_finish [OF run] drop_packet_completes by blast
qed

lemma evolves_time_wait:
  assumes "tcpstateflags (uip_conns s ! k) \<in> {FIN_WAIT_1, FIN_WAIT_2, CLOSING}"
  shows "evolves k s (upd_conn k (\<lambda>c. c\<lparr>tcpstateflags := TIME_WAIT, timer := 0\<rparr>) s)"
    and "evolves k s (upd_conn k (\<lambda>c. c\<lparr>tcpstateflags := TIME_WAIT, timer := 0, clen := 0\<rparr>) s)"
proof -
  have "tcp_trans (tcpstateflags (uip_conns s ! k)) TIME_WAIT"
    using assms by (elim insertE emptyE) (simp_all only: fin_and_ack peer_fin closing_acked)
  then have "tcp_trans\<^sup>*\<^sup>* (tcpstateflags (uip_conns s ! k)) TIME_WAIT" ..
  then show "evolves k s (upd_conn k (\<lambda>c. c\<lparr>tcpstateflags := TIME_WAIT, timer := 0\<rparr>) s)"
    and "evolves k s (upd_conn k (\<lambda>c. c\<lparr>tcpstateflags := TIME_WAIT, timer := 0, clen := 0\<rparr>) s)"
    by (intro evolves_upd_conn; simp add: conn_inv_def)+
qed

lemma fin_ack:
  assumes "bind_result (app ((uip_add_rcv_nxt 1 t)\<lparr>uip_flags := UIP_CLOSE\<rparr>)) (tcp_send_ack k) = Inr s'"
    and "evolves k s t"
  shows "completes k s s'"
proof (rule app_finish [OF assms(1)])
  show "evolves k s ((uip_add_rcv_nxt 1 t)\<lparr>uip_flags := UIP_CLOSE\<rparr>)"
    by (rule evolves_trans [OF assms(2) evolves_trans [OF uip_add_rcv_nxt_evolves evolves_flags(1)]])
qed (rule output_completes)

lemma in_fin_wait_1_completes:
  assumes "in_fin_wait_1 app k s = Inr s'" and st: "tcpstateflags (uip_conns s ! k) = FIN_WAIT_1"
  shows "completes k s s'"
proof -
  define t where "t = (if 0 < uip_len s then uip_add_rcv_nxt (uip_len s) s else s)"
  have t: "evolves k s t" unfolding t_def by (rule new_data_evolves)
  have st': "tcpstateflags (uip_conns t ! k) = FIN_WAIT_1" using st by (simp add: t_def)
  define v where "v = (if uip_flags t AND UIP_ACKDATA \<noteq> 0
                    then upd_conn k (\<lambda>c. c\<lparr>tcpstateflags := TIME_WAIT, timer := 0, clen := 0\<rparr>) t
                    else upd_conn k (\<lambda>c. c\<lparr>tcpstateflags := CLOSING\<rparr>) t)"
  have "evolves k t (upd_conn k (\<lambda>c. c\<lparr>tcpstateflags := CLOSING\<rparr>) t)"
    by (rule evolves_upd_conn) (use st' in \<open>auto simp: conn_inv_def\<close>)
  then have v: "evolves k s v"
    using t st' evolves_time_wait(2) [of t k] evolves_trans unfolding v_def by auto
  have f2: "evolves k t (upd_conn k (\<lambda>c. c\<lparr>tcpstateflags := FIN_WAIT_2, clen := 0\<rparr>) t)"
    by (rule evolves_upd_conn) (use st' in \<open>auto simp: conn_inv_def\<close>)
  consider "bind_result (app ((uip_add_rcv_nxt 1 v)\<lparr>uip_flags := UIP_CLOSE\<rparr>)) (tcp_send_ack k) = Inr s'"
    | "drop_packet (upd_conn k (\<lambda>c. c\<lparr>tcpstateflags := FIN_WAIT_2, clen := 0\<rparr>) t) = Inr s'"
    | "tcp_send_ack k t = Inr s'" | "drop_packet t = Inr s'"
    using assms(1) unfolding in_fin_wait_1_def Let_def t_def [symmetric] v_def [symmetric]
    by (auto split: if_splits)
  then show ?thesis
    using fin_ack v after_intros t evolves_trans [OF t f2] by cases auto
qed

lemma in_fin_wait_2_completes:
  assumes "in_fin_wait_2 app k s = Inr s'" and st: "tcpstateflags (uip_conns s ! k) = FIN_WAIT_2"
  shows "completes k s s'"
proof -
  define t where "t = (if 0 < uip_len s then uip_add_rcv_nxt (uip_len s) s else s)"
  let ?v = "upd_conn k (\<lambda>c. c\<lparr>tcpstateflags := TIME_WAIT, timer := 0\<rparr>) t"
  have t: "evolves k s t" unfolding t_def by (rule new_data_evolves)
  have "tcpstateflags (uip_conns t ! k) = FIN_WAIT_2" using st by (simp add: t_def)
  then have v: "evolves k s ?v"
    using t evolves_time_wait(1) [of t k] evolves_trans by auto
  consider "bind_result (app ((uip_add_rcv_nxt 1 ?v)\<lparr>uip_flags := UIP_CLOSE\<rparr>)) (tcp_send_ack k) = Inr s'"
    | "tcp_send_ack k t = Inr s'" | "drop_packet t = Inr s'"
    using assms(1) unfolding in_fin_wait_2_def Let_def t_def [symmetric]
    by (auto split: if_splits)
  then show ?thesis
    using fin_ack v after_intros t by cases auto
qed

lemma in_closing_completes:
  assumes "in_closing k s = Inr s'" and "tcpstateflags (uip_conns s ! k) = CLOSING"
  shows "completes k s s'"
  using assms evolves_time_wait(1) [of s k] after_intros(1) drop_packet_completes
  by (auto simp: in_closing_def split: if_splits)

lemma conn_state_mask:
  assumes "conn_inv c"
  shows "tcpstateflags c AND TS_MASK = tcpstateflags c"
  using assms by (auto simp: conn_inv_def)

lemma tcp_switch_completes:
  assumes "tcp_switch app k s = Inr s'"
  shows "completes k s s'"
proof (rule completesI)
  assume "uip_inv s" "uip_conn_ix s = k"
  then have "tcpstateflags (uip_conns s ! k) AND TS_MASK = tcpstateflags (uip_conns s ! k)"
    using conn_state_mask uip_inv_ix unfolding uip_inv_def by blast
  then show "completes k s s'"
    using assms in_syn_rcvd_completes in_established_completes in_last_ack_completes
      in_fin_wait_1_completes in_fin_wait_2_completes in_closing_completes output_completes(1)
      drop_packet_completes
    unfolding tcp_switch_def Let_def by (auto split: if_splits)
qed

lemma tcp_found_completes:
  assumes "tcp_found app k s = Inr s'"
  shows "completes k (s\<lparr>uip_conn_ix := k\<rparr>) s'"
proof -
  let ?s = "s\<lparr>uip_conn_ix := k, uip_flags := 0\<rparr>"
  let ?n = "uip_len s - ucast (push_bit 2 (drop_bit 4 (BUF_tcpoffset (uip_buf s)))) - 20"
  let ?t = "(upd_conn k (\<lambda>c. c\<lparr>tcpstateflags := CLOSED\<rparr>) ?s)\<lparr>uip_flags := UIP_ABORT\<rparr>"
  have abort: "evolves k ?s ?t"
    using evolves_closed evolves_flags(1) evolves_trans by blast
  consider (rst) "bind_result (app ?t) drop_packet = Inr s'"
    | (ack) "tcp_send_ack k (?s\<lparr>uip_len := ?n\<rparr>) = Inr s'"
    | (switch) "tcp_switch app k (tcp_ackdata k (?s\<lparr>uip_len := ?n\<rparr>)) = Inr s'"
    using assms unfolding tcp_found_def Let_def by (auto split: if_splits)
  then have "completes k ?s s'"
  proof cases
    case rst
    show ?thesis by (rule app_finish [OF rst abort]) (rule drop_packet_completes)
  next
    case ack
    show ?thesis by (rule after_intros(2) [OF evolves_flags(2) ack])
  next
    case switch
    show ?thesis
      by (rule evolves_completes [OF evolves_trans [OF evolves_flags(2) tcp_ackdata_evolves]
            tcp_switch_completes [OF switch]])
  qed
  moreover have "?s = (s\<lparr>uip_conn_ix := k\<rparr>)\<lparr>uip_flags := 0\<rparr>" by simp
  ultimately show ?thesis using evolves_completes evolves_flags(1) by metis
qed

lemma found_listen_completes:
  assumes "found_listen s = Inr s'" and "uip_inv s"
  shows "\<exists>k<UIP_CONNS. completes k (s\<lparr>uip_conn_ix := k\<rparr>) s' \<or> drop_packet s = Inr s'"
proof (cases "pick_conn (uip_conns s) [0..<UIP_CONNS] None")
  case None
  then show ?thesis using assms by (auto simp: found_listen_def intro!: exI [of _ 0])
next
  case (Some k)
  then have k: "k < UIP_CONNS" and free: "tcpstateflags (uip_conns s ! k) \<in> {CLOSED, TIME_WAIT}"
    using pick_conn_free [OF Some, of "{0..<UIP_CONNS}"] by auto
  let ?s = "s\<lparr>uip_conn_ix := k\<rparr>"
  let ?b = "uip_buf s"
  define t where "t = upd_conn k (\<lambda>c. c\<lparr>
                    rto := UIP_RTO, timer := UIP_RTO, sa := 0, sv := 4, nrtx := 0,
                    lport := BUF_destport ?b, rport := BUF_srcport ?b, ripaddr := BUF_srcipaddr ?b,
                    tcpstateflags := SYN_RCVD, snd_nxt := iss s, clen := 1,
                    rcv_nxt := BUF_seqno ?b\<rparr>) ?s"
  obtain m where m: "parse_mss ?b = Inr m"
    and run: "tcp_send_synack k (case m of None \<Rightarrow> uip_add_rcv_nxt 1 t
                | Some v \<Rightarrow> upd_conn k (\<lambda>c. c\<lparr>initialmss := v, mss := v\<rparr>) (uip_add_rcv_nxt 1 t)) = Inr s'"
    using assms(1) Some unfolding found_listen_def Let_def t_def by auto
  have "tcp_trans (tcpstateflags (uip_conns s ! k)) SYN_RCVD"
    using free by (elim insertE emptyE) (simp_all only: passive_open reuse)
  then have "tcp_trans\<^sup>*\<^sup>* (tcpstateflags (uip_conns s ! k)) SYN_RCVD" ..
  then have "evolves k ?s t"
    unfolding t_def by (intro evolves_upd_conn) (simp add: conn_inv_def)
  then have t: "evolves k ?s (uip_add_rcv_nxt 1 t)"
    using uip_add_rcv_nxt_evolves evolves_trans by blast
  have "evolves k u (upd_conn k (\<lambda>c. c\<lparr>initialmss := v, mss := v\<rparr>) u)" if "m = Some v" for u v
    using parse_mss_bound [of ?b v] m that by (intro evolves_upd_conn) (simp add: conn_inv_def)
  then have "evolves k ?s (case m of None \<Rightarrow> uip_add_rcv_nxt 1 t
                | Some v \<Rightarrow> upd_conn k (\<lambda>c. c\<lparr>initialmss := v, mss := v\<rparr>) (uip_add_rcv_nxt 1 t))"
    using t by (auto split: option.split intro: evolves_trans [OF t])
  then show ?thesis using k run after_intros(5) by blast
qed

lemma app_apprexmit:
  assumes "bind_result (app t) (apprexmit k) = Inr s'" and "evolves k s t"
  shows "completes k s s'"
  by (rule app_finish [OF assms]) (rule apprexmit_completes)

lemma rexmit_evolves:
  assumes "nrtx (uip_conns s ! k) \<noteq> UIP_MAXRTX"
    and "tcpstateflags (uip_conns s ! k) = SYN_RCVD \<Longrightarrow> nrtx (uip_conns s ! k) \<noteq> UIP_MAXSYNRTX"
  shows "evolves k s (upd_conn k (\<lambda>c. c\<lparr>timer := f c, nrtx := nrtx c + 1\<rparr>) s)"
proof (rule evolves_upd_conn)
  fix c
  assume c: "conn_inv c" "c = uip_conns s ! k"
  have inc: "x + 1 \<le> n" if "x \<le> n" "x \<noteq> n" for x n :: u8
    using that by (simp add: inc_le order.strict_iff_order)
  have "nrtx c + 1 \<le> UIP_MAXRTX" "tcpstateflags c = SYN_RCVD \<longrightarrow> nrtx c + 1 \<le> UIP_MAXSYNRTX"
    using inc assms c by (simp_all add: conn_inv_def)
  then show "conn_inv (c\<lparr>timer := f c, nrtx := nrtx c + 1\<rparr>)
      \<and> tcp_steps c (c\<lparr>timer := f c, nrtx := nrtx c + 1\<rparr>)"
    using c by (simp add: conn_inv_def)
qed

lemma uip_timer_completes:
  assumes "uip_timer app s = Inr s'"
  shows "completes (uip_conn_ix s) s s'"
proof (rule completesI)
  define k where "k = uip_conn_ix s"
  define t where "t = s\<lparr>iss := inc4 (iss s), uip_len := 0\<rparr>"
  let ?c = "uip_conns t ! k"
  assume inv: "uip_inv s"
  have t: "evolves k s t"
    unfolding t_def by (rule evolves_frame) (simp_all add: uip_inv_def uip_wf_def)
  have tinv: "uip_inv t" "uip_conn_ix t = k"
    using inv by (simp_all add: t_def k_def uip_inv_def uip_wf_def)
  have ci: "conn_inv ?c" using tinv uip_inv_ix [OF tinv(1)] by (simp add: uip_inv_def)
  define u where "u = upd_conn k (\<lambda>c. c\<lparr>timer := timer c - 1\<rparr>) t"
  have u: "evolves k t u"
    unfolding u_def by (rule evolves_upd_conn) (auto simp: conn_inv_def)
  have uc: "uip_conns u ! k = ?c\<lparr>timer := timer ?c - 1\<rparr>"
    unfolding u_def by (rule upd_conn_in_range [OF tinv])
  define w where "w = upd_conn k (\<lambda>c. c\<lparr>timer := push_bit (unat (if 4 < nrtx c then 4 else nrtx c)) UIP_RTO,
                              nrtx := nrtx c + 1\<rparr>) u"
  have w: "evolves k t w"
    if "nrtx ?c \<noteq> UIP_MAXRTX" "tcpstateflags ?c = SYN_RCVD \<Longrightarrow> nrtx ?c \<noteq> UIP_MAXSYNRTX"
    unfolding w_def by (rule evolves_trans [OF u rexmit_evolves]) (use that uc in simp_all)
  have tick: "evolves k t (upd_conn k (\<lambda>c. let c = c\<lparr>timer := timer c + 1\<rparr>
             in if timer c = UIP_TIME_WAIT_TIMEOUT then c\<lparr>tcpstateflags := CLOSED\<rparr> else c) t)"
    by (rule evolves_upd_conn) (auto simp: conn_inv_def Let_def)
  have timeout: "evolves k t ((upd_conn k (\<lambda>c. c\<lparr>tcpstateflags := CLOSED\<rparr>) u)\<lparr>uip_flags := f\<rparr>)" for f
    using u evolves_closed evolves_flags(1) evolves_trans by blast
  have poll: "completes k t s'"
    if "bind_result (app (t\<lparr>uip_len := 0, uip_slen := 0, uip_flags := UIP_POLL\<rparr>)) (appsend k) = Inr s'"
      and "tcpstateflags ?c = ESTABLISHED"
    using that(2) by (intro app_appsend [OF that(1)] evolves_frame) (simp_all add: uip_inv_def uip_wf_def)
  have rexmit: "evolves k t (w\<lparr>uip_len := 0, uip_slen := 0, uip_flags := UIP_REXMIT\<rparr>)" if "evolves k t w"
    by (rule evolves_trans [OF that]) (intro evolves_frame; simp add: uip_inv_def uip_wf_def)
  let ?retry = "nrtx ?c \<noteq> UIP_MAXRTX \<and> (tcpstateflags ?c = SYN_RCVD \<longrightarrow> nrtx ?c \<noteq> UIP_MAXSYNRTX)"
  consider "drop_packet (upd_conn k (\<lambda>c. let c = c\<lparr>timer := timer c + 1\<rparr>
             in if timer c = UIP_TIME_WAIT_TIMEOUT then c\<lparr>tcpstateflags := CLOSED\<rparr> else c) t) = Inr s'"
    | "bind_result (app ((upd_conn k (\<lambda>c. c\<lparr>tcpstateflags := CLOSED\<rparr>) u)\<lparr>uip_flags := UIP_TIMEDOUT\<rparr>))
         (tcp_send_rstack k) = Inr s'"
    | "?retry \<and> tcp_send_synack k w = Inr s'"
    | "?retry \<and> bind_result (app (w\<lparr>uip_len := 0, uip_slen := 0, uip_flags := UIP_REXMIT\<rparr>)) (apprexmit k) = Inr s'"
    | "?retry \<and> tcp_send_finack k w = Inr s'" | "?retry \<and> drop_packet w = Inr s'"
    | "drop_packet u = Inr s'"
    | "bind_result (app (t\<lparr>uip_len := 0, uip_slen := 0, uip_flags := UIP_POLL\<rparr>)) (appsend k) = Inr s'
       \<and> tcpstateflags ?c AND TS_MASK = ESTABLISHED"
    | "drop_packet t = Inr s'"
    using assms
    unfolding uip_timer_def Let_def t_def [symmetric] tinv(2) u_def [symmetric] w_def [symmetric]
    by (simp only: split: if_splits) blast+
  then have "completes k t s'"
  proof cases
    case 1 then show ?thesis by (rule after_intros [OF tick])
  next
    case 2 then show ?thesis by (rule app_finish [OF _ timeout]) (rule output_completes)
  next
    case 3 then show ?thesis using after_intros(5) [OF w] by blast
  next
    case 4 then show ?thesis by (elim conjE) (rule app_apprexmit [OF _ rexmit [OF w]]; simp)
  next
    case 5 then show ?thesis using after_intros(3) [OF w] by blast
  next
    case 6 then show ?thesis using after_intros(1) [OF w] by blast
  next
    case 7 then show ?thesis by (rule after_intros [OF u])
  next
    case 8 then show ?thesis using poll conn_state_mask [OF ci] by simp
  next
    case 9 then show ?thesis by (rule drop_packet_completes)
  qed
  then show "completes (uip_conn_ix s) s s'"
    unfolding k_def [symmetric] by (rule evolves_completes [OF t])
qed

end

section \<open>ICMP echo replies\<close>

lemma sum16_swap:
  assumes "length b = 1502"
  shows "sum16 (bytes_at (st16 28 d1 (st16 32 s1 (st16 26 d0 (st16 30 s0 b)))) 14 20)
     + unat (ld16 b 26) + unat (ld16 b 28) + unat (ld16 b 30) + unat (ld16 b 32)
   = sum16 (bytes_at b 14 20) + unat d0 + unat d1 + unat s0 + unat s1"
  using assms sum16_field [of 14 30 20 b s0] sum16_field [of 14 26 20 "st16 30 s0 b" d0]
    sum16_field [of 14 32 20 "st16 26 d0 (st16 30 s0 b)" s1]
    sum16_field [of 14 28 20 "st16 32 s1 (st16 26 d0 (st16 30 s0 b))" d1]
  by simp

lemma echo_chksum_mod: "unat (echo_chksum ck) mod 65535 = (unat ck + 8) mod 65535"
proof -
  have h: "htons 0xf7ff = 0xfff7" "htons 0x0800 = 8"
    by (simp_all add: htons_def le16_def lo8_def hi8_def)
  show ?thesis
  proof (cases "0xfff7 \<le> ck")
    case True
    then have "65527 \<le> unat ck" by (simp add: word_le_nat_alt)
    moreover have "unat ck < 65536" by (rule u16_less)
    ultimately have "(unat ck + 9) mod 65536 = unat ck + 9 - 65536" by (subst le_mod_geq) simp_all
    then have "unat (ck + 9) + 65535 = unat ck + 8"
      using \<open>65527 \<le> unat ck\<close> by (simp add: unat_word_ariths)
    then have "unat (ck + 9) mod 65535 = (unat ck + 8) mod 65535"
      by (metis mod_add_self2)
    then show ?thesis using True by (simp add: echo_chksum_def h)
  next
    case False
    then have "unat ck < 65527" by (simp add: word_le_nat_alt)
    then show ?thesis using False by (simp add: echo_chksum_def h unat_word_ariths)
  qed
qed

lemma update_as_st16:
  "Suc i < length b \<Longrightarrow> b[i := v] = st16 i (le16 v (b ! Suc i)) b"
  by (simp add: st16_def nth_list_update list_eq_iff_nth_eq)

lemma icmp_reply_buf:
  assumes "icmp_input s = Inr s'" and "ICMPBUF_type (uip_buf s) = ICMP_ECHO"
  shows "s' = s\<lparr>uip_buf := st16 28 (ld16 (uip_buf s) 32) (st16 32 (ld16 (uip_buf s) 28)
     (st16 26 (ld16 (uip_buf s) 30) (st16 30 (ld16 (uip_buf s) 26)
       (st16 36 (echo_chksum (ld16 (uip_buf s) 36)) ((uip_buf s)[34 := ICMP_ECHO_REPLY])))))\<rparr>"
  using assms by (simp add: icmp_input_def Let_def)

lemma icmp_reply_sum:
  assumes "icmp_input s = Inr s'" and "ICMPBUF_type (uip_buf s) = ICMP_ECHO"
    and "length (uip_buf s) = 1502" and "4 \<le> n" and "34 + n \<le> 1502"
  shows "sum16 (bytes_at (uip_buf s') 34 n) mod 65535 = sum16 (bytes_at (uip_buf s) 34 n) mod 65535"
proof -
  let ?b = "uip_buf s"
  let ?b1 = "?b[34 := ICMP_ECHO_REPLY]"
  let ?e = "echo_chksum (ld16 ?b 36)"
  have e1: "bytes_at (uip_buf s') 34 n = bytes_at (st16 36 ?e ?b1) 34 n"
    using assms(5) by (simp add: icmp_reply_buf [OF assms(1,2)])
  have e2: "sum16 (bytes_at ?b1 34 n) + 8 = sum16 (bytes_at ?b 34 n)"
    using sum16_field [of 34 34 n ?b "le16 0 (?b ! 35)"] assms
    by (simp add: update_as_st16 ld16_def unat_le16)
  have e3: "sum16 (bytes_at (st16 36 ?e ?b1) 34 n) + unat (ld16 ?b 36) = sum16 (bytes_at ?b1 34 n) + unat ?e"
    using sum16_field [of 34 36 n ?b1 ?e] assms by simp
  have "sum16 (bytes_at (uip_buf s') 34 n) + (unat (ld16 ?b 36) + 8)
     = sum16 (bytes_at ?b 34 n) + unat ?e"
    unfolding e1 e2 [symmetric] using e3 by linarith
  then have "(sum16 (bytes_at (uip_buf s') 34 n) + (unat (ld16 ?b 36) + 8)) mod 65535
     = (sum16 (bytes_at ?b 34 n) + unat ?e) mod 65535" by (rule arg_cong)
  also have "\<dots> = (sum16 (bytes_at ?b 34 n) + (unat (ld16 ?b 36) + 8)) mod 65535"
    by (rule mod_add_cong [OF refl echo_chksum_mod])
  finally show ?thesis by (simp add: nat_mod_eq_iff)
qed

lemma icmp_reply_ip_header:
  assumes "icmp_input s = Inr s'" and "ICMPBUF_type (uip_buf s) = ICMP_ECHO"
    and "length (uip_buf s) = 1502" and "uip_ipchksum s = 0xffff" and "BUF_vhl (uip_buf s) = 0x45"
  shows "uip_ipchksum s' = 0xffff"
proof -
  let ?b = "st16 36 (echo_chksum (ld16 (uip_buf s) 36)) ((uip_buf s)[34 := ICMP_ECHO_REPLY])"
  have "sum16 (bytes_at (uip_buf s') 14 20) = sum16 (bytes_at (uip_buf s) 14 20)"
    using sum16_swap [of ?b "ld16 (uip_buf s) 32" "ld16 (uip_buf s) 28" "ld16 (uip_buf s) 30" "ld16 (uip_buf s) 26"]
      assms(3) by (simp add: icmp_reply_buf [OF assms(1,2)])
  moreover have "uip_buf s' ! 14 = 0x45"
    using assms(5) by (simp add: icmp_reply_buf [OF assms(1,2)])
  moreover have "uip_buf s' ! 14 \<in> set (bytes_at (uip_buf s') 14 20)"
    using assms(3) by (auto simp: icmp_reply_buf [OF assms(1,2)] bytes_at_def in_set_conv_nth intro!: exI [of _ 0])
  ultimately show ?thesis
    using assms(4) unfolding uip_ipchksum_def uip_chksum_verifies
    by (intro conjI bexI [of _ "uip_buf s' ! 14"]) simp_all
qed

section \<open>The whole of packet and timer processing\<close>

definition processed :: "'a uip_state_scheme \<Rightarrow> 'a uip_state_scheme \<Rightarrow> bool" where
  "processed s s' \<longleftrightarrow>
     uip_inv s' \<and> uip_hostaddr s' = uip_hostaddr s \<and> uip_listenports s' = uip_listenports s
     \<and> (\<exists>k<UIP_CONNS. (\<forall>j. j \<noteq> k \<longrightarrow> uip_conns s' ! j = uip_conns s ! j)
          \<and> tcp_steps (uip_conns s ! k) (uip_conns s' ! k))
     \<and> (uip_len s' = 0 \<or> well_sent s'
          \<and> (BUF_proto (uip_buf s') = UIP_PROTO_TCP \<longrightarrow> tcp_size (uip_len s'))
          \<and> (BUF_proto (uip_buf s') \<noteq> UIP_PROTO_TCP \<longrightarrow> uip_len s' = BUF_iplen (uip_buf s)))"

lemma uip_inv_update:
  assumes "uip_inv s" and "k < UIP_CONNS"
  shows "uip_inv (s\<lparr>uip_conn_ix := k\<rparr>)"
  using assms by (simp add: uip_inv_def uip_wf_def)

lemma completes_processed:
  assumes "completes k (s\<lparr>uip_conn_ix := k\<rparr>) s'" and "uip_inv s" and "k < UIP_CONNS"
  shows "processed s s'"
  using assms(1,3) uip_inv_update [OF assms(2,3)]
  by (auto simp: completes_def evolves_def processed_def sent_ok_def)

lemma sends_processed:
  assumes "uip_inv s \<Longrightarrow> sends s s' \<and> (uip_len s' = 0 \<or> BUF_proto (uip_buf s') = UIP_PROTO_TCP \<and> tcp_size (uip_len s'))" and "uip_inv s"
  shows "processed s s'"
proof -
  have "uip_inv s'"
    using assms by (simp add: uip_inv_def uip_wf_def sends_sel [of s s'])
  moreover have "uip_len s' = 0 \<or> well_sent s'" using assms by (simp add: sends_def)
  ultimately show ?thesis
    using assms sends_sel [of s s'] by (auto simp: processed_def intro!: exI [of _ 0])
qed

lemma drop_processed: "drop_packet s = Inr s' \<Longrightarrow> uip_inv s \<Longrightarrow> processed s s'"
  by (rule sends_processed) (auto dest: drop_packet_sends)

lemma icmp_processed:
  assumes "icmp_input s = Inr s'" and inv: "uip_inv s" and "BUF_vhl (uip_buf s) = 0x45"
    and "uip_ipchksum s = 0xffff" and "BUF_iplen (uip_buf s) = uip_len s"
    and proto: "BUF_proto (uip_buf s) = UIP_PROTO_ICMP"
  shows "processed s s'"
proof (cases "ICMPBUF_type (uip_buf s) = ICMP_ECHO")
  case True
  note s' = icmp_reply_buf [OF assms(1) True]
  have len: "length (uip_buf s) = 1502" using inv by (simp add: uip_inv_def uip_wf_def)
  have "well_sent s'"
    using icmp_reply_ip_header [OF assms(1) True len assms(4,3)] assms(5) proto
    by (simp add: well_sent_def s' BUF_iplen_def)
  moreover have "uip_inv s'" using inv by (simp add: s' uip_inv_def uip_wf_def)
  ultimately show ?thesis
    using proto assms(5) by (auto simp: processed_def s' intro!: exI [of _ 0])
next
  case False
  then show ?thesis using assms drop_processed by (simp add: icmp_input_def)
qed

text \<open>The length taken from the IP header replaces the length the driver reported.\<close>

lemma ip_input_eq:
  "ip_input app s =
     (let t = s\<lparr>uip_len := BUF_iplen (uip_buf s)\<rparr>; b = uip_buf s
      in if BUF_vhl b \<noteq> 0x45 then drop_packet s
         else if BUF_ipoffset0 b AND 0x3f \<noteq> 0 \<or> BUF_ipoffset1 b \<noteq> 0 \<or> BUF_destipaddr b \<noteq> uip_hostaddr s
                 \<or> uip_ipchksum s \<noteq> 0xffff then drop_packet t
         else if BUF_proto b = UIP_PROTO_TCP then tcp_input app t
         else if BUF_proto b \<noteq> UIP_PROTO_ICMP then drop_packet t
         else icmp_input t)"
proof -
  let ?b = "uip_buf s"
  define t where "t = s\<lparr>uip_len := BUF_iplen ?b\<rparr>"
  have len: "(let s = (if BUF_len0 ?b \<noteq> hi8 (uip_len s)
                    then s\<lparr>uip_len := le16 (lo8 (uip_len s)) (BUF_len0 ?b)\<rparr> else s)
      in (if BUF_len1 ?b \<noteq> lo8 (uip_len s)
                    then s\<lparr>uip_len := le16 (BUF_len1 ?b) (hi8 (uip_len s))\<rparr> else s)) = t"
    by (auto simp: Let_def t_def BUF_iplen_def)
  have t: "uip_hostaddr t = uip_hostaddr s" "uip_ipchksum t = uip_ipchksum s"
    by (simp_all add: t_def uip_ipchksum_def)
  show ?thesis
    unfolding ip_input_def Let_def len [unfolded Let_def] t_def [symmetric] t
    by (auto simp: prod_eq_iff)
qed

context uip_app
begin

lemma tcp_input_processed:
  assumes "tcp_input app s = Inr s'" and inv: "uip_inv s" and "BUF_proto (uip_buf s) = UIP_PROTO_TCP"
  shows "processed s s'"
proof -
  let ?find = "find (\<lambda>k. conn_matches (uip_buf s) (uip_conns s ! k)) [0..<UIP_CONNS]"
  have reset: "processed s s'" if "tcp_reset s = Inr s'"
    by (rule sends_processed) (use tcp_reset_emits [OF that] uip_inv_out_ready assms(3) inv in auto)
  have found: "processed s s'" if "tcp_found app k s = Inr s'" "k < UIP_CONNS" for k
    using completes_processed [OF tcp_found_completes [OF that(1)] inv that(2)] .
  have listen: "processed s s'" if "found_listen s = Inr s'"
    using found_listen_completes [OF that inv] completes_processed inv drop_processed by blast
  have "k < UIP_CONNS" if "?find = Some k" for k
    using that by (auto simp: find_Some_iff)
  then show ?thesis
    using assms(1) reset found listen drop_processed inv
    unfolding tcp_input_def Let_def by (auto split: if_splits option.splits)
qed

lemma ip_input_processed:
  assumes "ip_input app s = Inr s'" and inv: "uip_inv s"
  shows "processed s s'"
proof -
  define t where "t = s\<lparr>uip_len := BUF_iplen (uip_buf s)\<rparr>"
  have tinv: "uip_inv t" using inv by (simp add: t_def uip_inv_def uip_wf_def)
  have t: "uip_buf t = uip_buf s" "uip_len t = BUF_iplen (uip_buf s)" "uip_ipchksum t = uip_ipchksum s"
    by (simp_all add: t_def uip_ipchksum_def)
  have "processed t s' \<or> drop_packet s = Inr s'"
    using assms(1) drop_processed [OF _ tinv] tcp_input_processed [OF _ tinv]
      icmp_processed [OF _ tinv]
    unfolding ip_input_eq t_def [symmetric] t Let_def by (auto split: if_splits)
  moreover have "processed t s' \<Longrightarrow> processed s s'" by (simp add: processed_def t_def)
  ultimately show ?thesis using drop_processed [OF _ inv] by blast
qed

lemma uip_process_processed:
  assumes "uip_process app flag s = Inr s'" and inv: "uip_inv s"
  shows "processed s s'"
proof -
  let ?t = "s\<lparr>uip_appdata := In_Buf 54\<rparr>"
  have t: "uip_inv ?t" using inv by (simp add: uip_inv_def uip_wf_def)
  have "completes (uip_conn_ix s) ?t s'" if "uip_timer app ?t = Inr s'"
    using uip_timer_completes [OF that] by simp
  then have "processed ?t s'" if "uip_timer app ?t = Inr s'"
    using that t completes_processed [of "uip_conn_ix s" ?t s'] uip_inv_ix [OF t] by simp
  then have "processed ?t s'"
    using assms(1) ip_input_processed [OF _ t] by (auto simp: uip_process_def Let_def split: if_splits)
  then show ?thesis by (simp add: processed_def)
qed

end

end
