(* ===== verification/C_String.thy ===== *)
theory C_String
  imports UBoot_Prelude "HOL-Library.Sublist"
begin

text \<open>
  lib/string.c.  A pointer to characters is the list of bytes from the place it points to up to
  the end of the object; walking off that list is the error \<open>Out_Of_Bounds\<close>.  A function that
  returns a pointer into its argument returns the offset, \<open>None\<close> for \<open>NULL\<close>.  A function that
  writes takes and returns the bytes of the object it writes to.  \<open>memcpy\<close> and \<open>memset\<close> are the C
  versions of the file: the board does not define \<open>CONFIG_USE_ARCH_MEMCPY\<close> or
  \<open>CONFIG_USE_ARCH_MEMSET\<close>.
\<close>

type_synonym mem = "u8 list"

section \<open>Searching and comparing\<close>

fun strlen :: "mem \<Rightarrow> nat result" where
  "strlen [] = Inl Out_Of_Bounds"
| "strlen (c # s) = (if c = 0 then Inr 0 else bind_result (strlen s) (\<lambda>n. Inr (Suc n)))"

fun strnlen :: "mem \<Rightarrow> nat \<Rightarrow> nat result" where
  "strnlen s 0 = Inr 0"
| "strnlen [] (Suc n) = Inl Out_Of_Bounds"
| "strnlen (c # s) (Suc n) = (if c = 0 then Inr 0 else bind_result (strnlen s n) (\<lambda>k. Inr (Suc k)))"

text \<open>The result is kept in a \<open>signed char\<close> before it is returned as an \<open>int\<close>.\<close>

fun strcmp :: "mem \<Rightarrow> mem \<Rightarrow> int result" where
  "strcmp (a # cs) (b # ct) =
     (let res = a - b in if res \<noteq> 0 \<or> a = 0 then Inr (sint res) else strcmp cs ct)"
| "strcmp _ _ = Inl Out_Of_Bounds"

fun strncmp :: "mem \<Rightarrow> mem \<Rightarrow> nat \<Rightarrow> int result" where
  "strncmp cs ct 0 = Inr 0"
| "strncmp (a # cs) (b # ct) (Suc n) =
     (let res = a - b in if res \<noteq> 0 \<or> a = 0 then Inr (sint res) else strncmp cs ct n)"
| "strncmp _ _ (Suc n) = Inl Out_Of_Bounds"

fun strchr :: "mem \<Rightarrow> u8 \<Rightarrow> nat option result" where
  "strchr [] c = Inl Out_Of_Bounds"
| "strchr (a # s) c =
     (if a = c then Inr (Some 0)
      else if a = 0 then Inr None
      else bind_result (strchr s c) (\<lambda>r. Inr (map_option Suc r)))"

text \<open>\<open>p\<close> runs down from the terminator.\<close>

fun strrchr_from :: "mem \<Rightarrow> u8 \<Rightarrow> nat \<Rightarrow> nat option" where
  "strrchr_from s c 0 = (if s ! 0 = c then Some 0 else None)"
| "strrchr_from s c (Suc p) = (if s ! Suc p = c then Some (Suc p) else strrchr_from s c p)"

definition strrchr :: "mem \<Rightarrow> u8 \<Rightarrow> nat option result" where
  "strrchr s c = bind_result (strlen s) (\<lambda>n. Inr (strrchr_from s c n))"

text \<open>\<open>*p\<close> occurs in the string \<open>accept\<close>.\<close>

fun char_in :: "u8 \<Rightarrow> mem \<Rightarrow> bool result" where
  "char_in p [] = Inl Out_Of_Bounds"
| "char_in p (a # as) = (if a = 0 then Inr False else if p = a then Inr True else char_in p as)"

fun strspn :: "mem \<Rightarrow> mem \<Rightarrow> nat result" where
  "strspn [] accept = Inl Out_Of_Bounds"
| "strspn (p # s) accept =
     (if p = 0 then Inr 0
      else bind_result (char_in p accept) (\<lambda>found.
             if found then bind_result (strspn s accept) (\<lambda>n. Inr (Suc n)) else Inr 0))"

fun strpbrk :: "mem \<Rightarrow> mem \<Rightarrow> nat option result" where
  "strpbrk [] ct = Inl Out_Of_Bounds"
| "strpbrk (p # s) ct =
     (if p = 0 then Inr None
      else bind_result (char_in p ct) (\<lambda>found.
             if found then Inr (Some 0)
             else bind_result (strpbrk s ct) (\<lambda>r. Inr (map_option Suc r))))"

fun memcmp :: "mem \<Rightarrow> mem \<Rightarrow> nat \<Rightarrow> int result" where
  "memcmp cs ct 0 = Inr 0"
| "memcmp (a # cs) (b # ct) (Suc n) =
     (let res = uint a - uint b in if res \<noteq> 0 then Inr res else memcmp cs ct n)"
| "memcmp _ _ (Suc n) = Inl Out_Of_Bounds"

fun memscan :: "mem \<Rightarrow> u8 \<Rightarrow> nat \<Rightarrow> nat result" where
  "memscan p c 0 = Inr 0"
| "memscan [] c (Suc n) = Inl Out_Of_Bounds"
| "memscan (a # p) c (Suc n) = (if a = c then Inr 0 else bind_result (memscan p c n) (\<lambda>k. Inr (Suc k)))"

fun memchr :: "mem \<Rightarrow> u8 \<Rightarrow> nat \<Rightarrow> nat option result" where
  "memchr p c 0 = Inr None"
| "memchr [] c (Suc n) = Inl Out_Of_Bounds"
| "memchr (a # p) c (Suc n) =
     (if c = a then Inr (Some 0) else bind_result (memchr p c n) (\<lambda>r. Inr (map_option Suc r)))"

text \<open>The loop \<open>while (l1 >= l2)\<close> with the pointer \<open>s1\<close> and the remaining length \<open>l1\<close>.\<close>

fun strstr_loop :: "mem \<Rightarrow> mem \<Rightarrow> nat \<Rightarrow> nat \<Rightarrow> nat option result" where
  "strstr_loop s1 s2 l1 l2 =
     (if l1 < l2 \<or> l2 = 0 then Inr None
      else bind_result (memcmp s1 s2 l2) (\<lambda>r.
             if r = 0 then Inr (Some 0)
             else bind_result (strstr_loop (tl s1) s2 (l1 - 1) l2) (\<lambda>p. Inr (map_option Suc p))))"

definition strstr :: "mem \<Rightarrow> mem \<Rightarrow> nat option result" where
  "strstr s1 s2 =
     bind_result (strlen s2) (\<lambda>l2.
       if l2 = 0 then Inr (Some 0)
       else bind_result (strlen s1) (\<lambda>l1. strstr_loop s1 s2 l1 l2))"

section \<open>Copying\<close>

fun strcpy :: "mem \<Rightarrow> mem \<Rightarrow> mem result" where
  "strcpy (d # dest) (c # src) =
     (if c = 0 then Inr (0 # dest) else bind_result (strcpy dest src) (\<lambda>r. Inr (c # r)))"
| "strcpy _ _ = Inl Out_Of_Bounds"

fun strncpy :: "mem \<Rightarrow> mem \<Rightarrow> nat \<Rightarrow> mem result" where
  "strncpy dest src 0 = Inr dest"
| "strncpy (d # dest) (c # src) (Suc n) =
     (if c = 0 then Inr (0 # dest) else bind_result (strncpy dest src n) (\<lambda>r. Inr (c # r)))"
| "strncpy _ _ (Suc n) = Inl Out_Of_Bounds"

fun strcat :: "mem \<Rightarrow> mem \<Rightarrow> mem result" where
  "strcat [] src = Inl Out_Of_Bounds"
| "strcat (d # dest) src =
     (if d = 0 then strcpy (d # dest) src else bind_result (strcat dest src) (\<lambda>r. Inr (d # r)))"

text \<open>The copy loop of \<open>strncat\<close>, entered with \<open>count > 0\<close>.\<close>

fun strncat_copy :: "mem \<Rightarrow> mem \<Rightarrow> nat \<Rightarrow> mem result" where
  "strncat_copy (d # dest) (c # src) (Suc n) =
     (if c = 0 then Inr (0 # dest)
      else if n = 0 then (case dest of [] \<Rightarrow> Inl Out_Of_Bounds | _ # rest \<Rightarrow> Inr (c # 0 # rest))
      else bind_result (strncat_copy dest src n) (\<lambda>r. Inr (c # r)))"
| "strncat_copy _ _ _ = Inl Out_Of_Bounds"

fun strncat_dest :: "mem \<Rightarrow> mem \<Rightarrow> nat \<Rightarrow> mem result" where
  "strncat_dest [] src n = Inl Out_Of_Bounds"
| "strncat_dest (d # dest) src n =
     (if d = 0 then strncat_copy (d # dest) src n
      else bind_result (strncat_dest dest src n) (\<lambda>r. Inr (d # r)))"

definition strncat :: "mem \<Rightarrow> mem \<Rightarrow> nat \<Rightarrow> mem result" where
  "strncat dest src n = (if n = 0 then Inr dest else strncat_dest dest src n)"

text \<open>
  Copying within one object: \<open>d\<close> and \<open>s\<close> are the offsets of the two areas.  \<open>copy_up\<close> moves one
  byte at a time from the start, \<open>copy_down\<close> from the end, \<open>copy_words\<close> four bytes at a time.
\<close>

fun copy_up :: "nat \<Rightarrow> nat \<Rightarrow> nat \<Rightarrow> mem \<Rightarrow> mem" where
  "copy_up 0 d s b = b"
| "copy_up (Suc n) d s b = copy_up n (Suc d) (Suc s) (b[d := b ! s])"

fun copy_down :: "nat \<Rightarrow> nat \<Rightarrow> nat \<Rightarrow> mem \<Rightarrow> mem" where
  "copy_down 0 d s b = b"
| "copy_down (Suc n) d s b = copy_down n d s (b[d + n := b ! (s + n)])"

fun copy_words :: "nat \<Rightarrow> nat \<Rightarrow> nat \<Rightarrow> mem \<Rightarrow> mem" where
  "copy_words n d s b =
     (if 4 \<le> n then copy_words (n - 4) (d + 4) (s + 4) (put_bytes d (take 4 (drop s b)) b)
      else copy_up n d s b)"

definition in_range :: "nat \<Rightarrow> nat \<Rightarrow> mem \<Rightarrow> bool" where
  [c_defs]: "in_range i n b \<longleftrightarrow> n = 0 \<or> i + n \<le> length b"

text \<open>\<open>base\<close> is the address of the object; alignment depends on it.\<close>

definition memcpy :: "nat \<Rightarrow> nat \<Rightarrow> nat \<Rightarrow> nat \<Rightarrow> mem \<Rightarrow> mem result" where
  "memcpy base d s n b =
     (if d = s then Inr b
      else if \<not> (in_range d n b \<and> in_range s n b) then Inl Out_Of_Bounds
      else if (base + d) mod 4 = 0 \<and> (base + s) mod 4 = 0 then Inr (copy_words n d s b)
      else Inr (copy_up n d s b))"

definition memmove :: "nat \<Rightarrow> nat \<Rightarrow> nat \<Rightarrow> mem \<Rightarrow> mem result" where
  "memmove d s n b =
     (if s = d then Inr b
      else if \<not> (in_range d n b \<and> in_range s n b) then Inl Out_Of_Bounds
      else if d \<le> s then Inr (copy_up n d s b)
      else Inr (copy_down n d s b))"

definition bcopy :: "nat \<Rightarrow> nat \<Rightarrow> nat \<Rightarrow> mem \<Rightarrow> mem result" where
  "bcopy s d n b =
     (if \<not> (in_range d n b \<and> in_range s n b) then Inl Out_Of_Bounds else Inr (copy_up n d s b))"

text \<open>The word \<open>cl\<close> of \<open>memset\<close>, and the two fill loops.\<close>

definition fill_word :: "u8 \<Rightarrow> u32" where
  "fill_word c = ((\<lambda>cl. push_bit 8 cl OR ucast c) ^^ 4) 0"

definition word_bytes :: "u32 \<Rightarrow> u8 list" where
  "word_bytes w = [ucast w, ucast (drop_bit 8 w), ucast (drop_bit 16 w), ucast (drop_bit 24 w)]"

fun fill_bytes :: "nat \<Rightarrow> nat \<Rightarrow> u8 \<Rightarrow> mem \<Rightarrow> mem" where
  "fill_bytes 0 s c b = b"
| "fill_bytes (Suc n) s c b = fill_bytes n (Suc s) c (b[s := c])"

fun fill_words :: "nat \<Rightarrow> nat \<Rightarrow> u8 \<Rightarrow> mem \<Rightarrow> mem" where
  "fill_words n s c b =
     (if 4 \<le> n then fill_words (n - 4) (s + 4) c (put_bytes s (word_bytes (fill_word c)) b)
      else fill_bytes n s c b)"

definition memset :: "nat \<Rightarrow> nat \<Rightarrow> u8 \<Rightarrow> nat \<Rightarrow> mem \<Rightarrow> mem result" where
  "memset base s c n b =
     (if \<not> in_range s n b then Inl Out_Of_Bounds
      else if (base + s) mod 4 = 0 then Inr (fill_words n s c b)
      else Inr (fill_bytes n s c b))"

text \<open>\<open>dest\<close> and \<open>src\<close> are different objects here.\<close>

definition strlcpy :: "mem \<Rightarrow> mem \<Rightarrow> nat \<Rightarrow> (mem \<times> nat) result" where
  "strlcpy dest src sz =
     bind_result (strlen src) (\<lambda>ret.
       if sz = 0 then Inr (dest, ret)
       else let len = (if sz \<le> ret then sz - 1 else ret)
            in if length dest \<le> len then Inl Out_Of_Bounds
               else Inr ((put_bytes 0 (take len src) dest)[len := 0], ret))"

definition strdup :: "(nat \<Rightarrow> bool) \<Rightarrow> mem option \<Rightarrow> mem option result" where
  "strdup alloc s =
     (case s of
        None \<Rightarrow> Inr None
      | Some s \<Rightarrow> bind_result (strlen s) (\<lambda>n.
          if alloc (n + 1) then bind_result (strcpy (replicate (n + 1) 0) s) (\<lambda>r. Inr (Some r))
          else Inr None))"

section \<open>Splitting\<close>

definition isspace :: "u8 \<Rightarrow> bool" where
  "isspace c \<longleftrightarrow> 9 \<le> c \<and> c \<le> 13 \<or> c = 32 \<or> c = 160"

fun skip_spaces :: "mem \<Rightarrow> nat result" where
  "skip_spaces [] = Inl Out_Of_Bounds"
| "skip_spaces (c # s) = (if isspace c then bind_result (skip_spaces s) (\<lambda>n. Inr (Suc n)) else Inr 0)"

text \<open>The place of the new terminator: after the last character that is not a space.\<close>

fun strim_end :: "mem \<Rightarrow> nat \<Rightarrow> nat" where
  "strim_end s 0 = 0"
| "strim_end s (Suc e) = (if isspace (s ! e) then strim_end s e else Suc e)"

definition strim :: "mem \<Rightarrow> (mem \<times> nat) result" where
  "strim s =
     bind_result (skip_spaces s) (\<lambda>k.
     bind_result (strlen (drop k s)) (\<lambda>sz.
       if sz = 0 then Inr (s, k)
       else Inr (s[k + strim_end (drop k s) sz := 0], k)))"

text \<open>
  \<open>strtok\<close> and \<open>strsep\<close> work on the object that holds the string; a position is an offset in it and
  the static \<open>___strtok\<close> is the second component of the state.
\<close>

definition strtok :: "mem \<times> nat option \<Rightarrow> nat option \<Rightarrow> mem \<Rightarrow> ((mem \<times> nat option) \<times> nat option) result" where
  "strtok st s ct =
     (case st of (b, saved) \<Rightarrow>
       case (if s \<noteq> None then s else saved) of
         None \<Rightarrow> Inr ((b, saved), None)
       | Some sbegin \<Rightarrow>
           bind_result (strspn (drop sbegin b) ct) (\<lambda>n.
             let sbegin = sbegin + n
             in if b ! sbegin = 0 then Inr ((b, None), None)
                else bind_result (strpbrk (drop sbegin b) ct) (\<lambda>send.
                  case send of
                    None \<Rightarrow> Inr ((b, None), Some sbegin)
                  | Some e \<Rightarrow> Inr ((b[sbegin + e := 0], Some (sbegin + e + 1)), Some sbegin))))"

definition strsep :: "mem \<Rightarrow> nat option \<Rightarrow> mem \<Rightarrow> (mem \<times> nat option \<times> nat option) result" where
  "strsep b s ct =
     (case s of
        None \<Rightarrow> Inr (b, None, None)
      | Some sbegin \<Rightarrow>
          bind_result (strpbrk (drop sbegin b) ct) (\<lambda>e.
            case e of
              None \<Rightarrow> Inr (b, None, Some sbegin)
            | Some e \<Rightarrow> Inr (b[sbegin + e := 0], Some (sbegin + e + 1), Some sbegin)))"

fun strswab_loop :: "mem \<Rightarrow> mem result" where
  "strswab_loop (p # q # s) =
     (if p = 0 then Inr (p # q # s)
      else if q = 0 then Inr (p # q # s)
      else bind_result (strswab_loop s) (\<lambda>r. Inr (q # p # r)))"
| "strswab_loop [p] = (if p = 0 then Inr [p] else Inl Out_Of_Bounds)"
| "strswab_loop [] = Inl Out_Of_Bounds"

definition strswab :: "mem option \<Rightarrow> mem option result" where
  "strswab s =
     (case s of
        None \<Rightarrow> Inr None
      | Some [] \<Rightarrow> Inl Out_Of_Bounds
      | Some (c # r) \<Rightarrow> if c = 0 then Inr None else bind_result (strswab_loop (c # r)) (\<lambda>x. Inr (Some x)))"

declare strstr_loop.simps [simp del] copy_words.simps [simp del] fill_words.simps [simp del]

section \<open>Strings\<close>

text \<open>The string at a pointer: the bytes before the first NUL, which has to be there.\<close>

definition is_cstr :: "mem \<Rightarrow> bool" where
  "is_cstr s \<longleftrightarrow> 0 \<in> set s"

definition cstr :: "mem \<Rightarrow> u8 list" where
  "cstr s = takeWhile (\<lambda>c. c \<noteq> 0) s"

lemma cstr_Cons [simp]: "cstr (c # s) = (if c = 0 then [] else c # cstr s)"
  by (simp add: cstr_def)

lemma is_cstr_Cons [simp]: "is_cstr (c # s) \<longleftrightarrow> c = 0 \<or> is_cstr s"
  by (auto simp: is_cstr_def)

lemma is_cstr_Nil [simp]: "\<not> is_cstr []"
  by (simp add: is_cstr_def)

lemma cstr_no_0: "0 \<notin> set (cstr s)"
  by (auto simp: cstr_def dest: set_takeWhileD)

lemma is_cstr_append [simp]: "is_cstr (xs @ 0 # ys)"
  by (simp add: is_cstr_def)

lemma cstr_append [simp]: "0 \<notin> set xs \<Longrightarrow> cstr (xs @ 0 # ys) = xs"
  by (induction xs) auto

lemma is_cstrE:
  assumes "is_cstr s"
  obtains r where "s = cstr s @ 0 # r"
  using assms split_list_first [of 0 s] by (auto simp: is_cstr_def)

lemma strlen_eq: "strlen s = (if is_cstr s then Inr (length (cstr s)) else Inl Out_Of_Bounds)"
  by (induction s) auto

lemma strlen_cstr [simp]: "is_cstr s \<Longrightarrow> strlen s = Inr (length (cstr s))"
  by (simp add: strlen_eq)

lemma sint_eq_0: "sint (w :: u8) = 0 \<longleftrightarrow> w = 0"
  by (metis signed_0 signed_word_eqI)

lemma strcmp_eq_0:
  assumes "is_cstr s" and "is_cstr t"
  shows "strcmp s t = Inr 0 \<longleftrightarrow> cstr s = cstr t"
  using assms
proof (induction s t rule: strcmp.induct)
  case (1 a cs b ct)
  then show ?case by (auto simp: Let_def sint_eq_0)
qed auto

lemma strncmp_eq_0:
  assumes "is_cstr s" and "is_cstr t"
  shows "strncmp s t n = Inr 0 \<longleftrightarrow> take n (cstr s) = take n (cstr t)"
  using assms
proof (induction s t n rule: strncmp.induct)
  case (2 a cs b ct n)
  then show ?case by (auto simp: Let_def sint_eq_0)
qed auto

lemma strcmp_total:
  assumes "is_cstr s" and "is_cstr t"
  shows "\<exists>r. strcmp s t = Inr r"
  using assms
  by (induction s t rule: strcmp.induct) (auto simp: Let_def)

text \<open>
  The order \<open>strcmp\<close> means to return: lexicographic on the unsigned bytes.
\<close>

fun cstr_less :: "u8 list \<Rightarrow> u8 list \<Rightarrow> bool" where
  "cstr_less [] ys \<longleftrightarrow> ys \<noteq> []"
| "cstr_less (x # xs) [] \<longleftrightarrow> False"
| "cstr_less (x # xs) (y # ys) \<longleftrightarrow> x < y \<or> x = y \<and> cstr_less xs ys"

lemma sint_diff_ascii:
  fixes a b :: u8
  assumes "a < 128" and "b < 128"
  shows "sint (a - b) = uint a - uint b"
proof -
  have ab: "uint a < 128" "uint b < 128" using assms by (simp_all add: word_less_def)
  have "sint (a - b) = sint (word_of_int (uint a - uint b) :: u8)" by simp
  also have "\<dots> = signed_take_bit 7 (uint a - uint b)" by (subst signed_of_int) simp
  also have "\<dots> = uint a - uint b"
  proof (rule signed_take_bit_int_eq_self)
    have "- 128 \<le> uint a - uint b" "uint a - uint b < 128"
      using ab uint_nonnegative [of a] uint_nonnegative [of b] by linarith+
    then show "- (2 ^ 7) \<le> uint a - uint b" "uint a - uint b < 2 ^ 7" by simp_all
  qed
  finally show ?thesis .
qed

lemma strcmp_sign_ascii:
  assumes "is_cstr s" and "is_cstr t" and "\<forall>c\<in>set (cstr s). c < 128" and "\<forall>c\<in>set (cstr t). c < 128"
  shows "\<exists>r. strcmp s t = Inr r \<and> (r < 0 \<longleftrightarrow> cstr_less (cstr s) (cstr t))
            \<and> (r > 0 \<longleftrightarrow> cstr_less (cstr t) (cstr s))"
  using assms
proof (induction s t rule: strcmp.induct)
  case (1 a cs b ct)
  show ?case
  proof (cases "a - b \<noteq> 0 \<or> a = 0")
    case True
    have ab: "a < 128" "b < 128" using 1 by (auto split: if_splits)
    have "sint (a - b) < 0 \<longleftrightarrow> a < b" "0 < sint (a - b) \<longleftrightarrow> b < a"
      unfolding sint_diff_ascii [OF ab] word_less_def by auto
    moreover have "a = 0 \<Longrightarrow> b \<noteq> 0 \<Longrightarrow> a < b" "b = 0 \<Longrightarrow> a \<noteq> 0 \<Longrightarrow> b < a"
      by (auto simp: word_neq_0_conv)
    ultimately show ?thesis using True by (auto simp: Let_def)
  next
    case False
    then show ?thesis using 1 by (auto simp: Let_def)
  qed
qed auto

lemma memcmp_eq:
  assumes "n \<le> length s" and "n \<le> length t"
  shows "\<exists>r. memcmp s t n = Inr r \<and> (r = 0 \<longleftrightarrow> take n s = take n t)"
  using assms
  by (induction s t n rule: memcmp.induct) (auto simp: Let_def word_uint_eq_iff)

text \<open>The first occurrence of one list in another.\<close>

fun find_sub :: "'a list \<Rightarrow> 'a list \<Rightarrow> nat option" where
  "find_sub n [] = (if n = [] then Some 0 else None)"
| "find_sub n (c # h) = (if prefix n (c # h) then Some 0 else map_option Suc (find_sub n h))"

lemma find_sub_Some:
  "find_sub n h = Some i \<longleftrightarrow> i \<le> length h \<and> prefix n (drop i h) \<and> (\<forall>j<i. \<not> prefix n (drop j h))"
proof (induction h arbitrary: i)
  case (Cons c h)
  then show ?case by (cases i) (auto simp: less_Suc_eq_0_disj)
qed auto

lemma find_sub_None: "find_sub n h = None \<longleftrightarrow> \<not> sublist n h"
  by (induction h) (auto simp: sublist_Cons_right)

lemma find_sub_bound: "find_sub n h = Some i \<Longrightarrow> i + length n \<le> length h"
  by (auto simp: find_sub_Some prefix_def dest: arg_cong [where f = length])

lemma find_sub_short: "length h < length n \<Longrightarrow> find_sub n h = None"
  by (cases "find_sub n h") (auto dest: find_sub_bound)

lemma prefix_iff_take: "prefix xs ys \<longleftrightarrow> take (length xs) ys = xs"
  by (auto simp: prefix_def) (metis append_take_drop_id)

lemma strstr_loop_eq:
  assumes "0 < l2" and "l2 \<le> length s2" and "l1 \<le> length s1"
  shows "strstr_loop s1 s2 l1 l2 = Inr (find_sub (take l2 s2) (take l1 s1))"
  using assms
proof (induction l1 arbitrary: s1)
  case 0
  then show ?case by (auto simp: strstr_loop.simps [of _ _ 0])
next
  case (Suc l1)
  show ?case
  proof (cases "Suc l1 < l2")
    case True
    then have "find_sub (take l2 s2) (take (Suc l1) s1) = None"
      using Suc.prems by (intro find_sub_short) simp
    with True show ?thesis by (simp add: strstr_loop.simps [of _ _ "Suc l1"])
  next
    case False
    obtain c s where s1: "s1 = c # s" and l: "l1 \<le> length s" using Suc.prems by (cases s1) auto
    obtain r where r: "memcmp s1 s2 l2 = Inr r" "r = 0 \<longleftrightarrow> take l2 s1 = take l2 s2"
      using memcmp_eq [of l2 s1 s2] Suc.prems False by auto
    have "prefix (take l2 s2) (take (Suc l1) s1) \<longleftrightarrow> take l2 s1 = take l2 s2"
      using Suc.prems False by (simp add: prefix_iff_take min_def)
    then show ?thesis
      using r False Suc.prems Suc.IH [OF Suc.prems(1,2) l]
      by (simp add: strstr_loop.simps [of _ _ "Suc l1"] s1)
  qed
qed

lemma cstr_take: "is_cstr s \<Longrightarrow> take (length (cstr s)) s = cstr s"
  by (elim is_cstrE) (metis append_eq_conv_conj)

lemma cstr_length: "is_cstr s \<Longrightarrow> length (cstr s) < length s"
  by (induction s) auto

lemma strstr_eq:
  assumes "is_cstr s1" and "is_cstr s2"
  shows "strstr s1 s2 = Inr (find_sub (cstr s2) (cstr s1))"
proof (cases "cstr s2 = []")
  case True
  then show ?thesis using assms by (cases "cstr s1") (simp_all add: strstr_def)
next
  case False
  then show ?thesis
    using assms cstr_length [of s1] cstr_length [of s2]
    by (simp add: strstr_def strstr_loop_eq cstr_take)
qed

lemma strchr_eq:
  assumes "is_cstr s" and "c \<noteq> 0"
  shows "strchr s c = Inr (find_sub [c] (cstr s))"
  using assms by (induction s) auto

section \<open>Copies\<close>

lemma length_copy_up [simp]: "length (copy_up n d s b) = length b"
  by (induction n d s b rule: copy_up.induct) auto

lemma length_copy_down [simp]: "length (copy_down n d s b) = length b"
  by (induction n d s b rule: copy_down.induct) auto

lemma nth_copy_up:
  assumes "d \<le> s \<or> s + n \<le> d" and "d + n \<le> length b" and "s + n \<le> length b"
  shows "copy_up n d s b ! i = (if d \<le> i \<and> i < d + n then b ! (s + (i - d)) else b ! i)"
  using assms
proof (induction n d s b rule: copy_up.induct)
  case (2 n d s b)
  then show ?case by (auto simp: nth_list_update Suc_diff_Suc not_less_eq_eq)
qed auto

lemma nth_copy_down:
  assumes "s \<le> d" and "d + n \<le> length b" and "s + n \<le> length b"
  shows "copy_down n d s b ! i = (if d \<le> i \<and> i < d + n then b ! (s + (i - d)) else b ! i)"
  using assms
proof (induction n d s b rule: copy_down.induct)
  case (2 n d s b)
  then show ?case by (auto simp: nth_list_update)
qed auto

text \<open>What every copy means: the old contents of the source area in the destination area.\<close>

definition copied :: "nat \<Rightarrow> nat \<Rightarrow> nat \<Rightarrow> mem \<Rightarrow> mem" where
  "copied d s n b = put_bytes d (take n (drop s b)) b"

lemma nth_copied:
  assumes "d + n \<le> length b" and "s + n \<le> length b" and "i < length b"
  shows "copied d s n b ! i = (if d \<le> i \<and> i < d + n then b ! (s + (i - d)) else b ! i)"
  using assms by (auto simp: copied_def nth_put_bytes)

lemma length_copied: "d + n \<le> length b \<Longrightarrow> s + n \<le> length b \<Longrightarrow> length (copied d s n b) = length b"
  by (simp add: copied_def)

lemma copy_up_copied:
  assumes "d \<le> s \<or> s + n \<le> d" and "d + n \<le> length b" and "s + n \<le> length b"
  shows "copy_up n d s b = copied d s n b"
  by (rule nth_equalityI) (use assms in \<open>simp_all add: nth_copy_up nth_copied length_copied\<close>)

lemma copy_down_copied:
  assumes "s \<le> d" and "d + n \<le> length b" and "s + n \<le> length b"
  shows "copy_down n d s b = copied d s n b"
  by (rule nth_equalityI) (use assms in \<open>simp_all add: nth_copy_down nth_copied length_copied\<close>)

lemma copy_words_spec:
  assumes "d + n \<le> s \<or> s + n \<le> d" and "d + n \<le> length b" and "s + n \<le> length b"
  shows "length (copy_words n d s b) = length b \<and>
     (\<forall>i<length b. copy_words n d s b ! i = (if d \<le> i \<and> i < d + n then b ! (s + (i - d)) else b ! i))"
  using assms
proof (induction n d s b rule: copy_words.induct)
  case (1 n d s b)
  show ?case
  proof (cases "4 \<le> n")
    case True
    let ?b = "put_bytes d (take 4 (drop s b)) b"
    have len: "length ?b = length b" using 1 True by simp
    have rec: "copy_words n d s b = copy_words (n - 4) (d + 4) (s + 4) ?b"
      using True by (simp add: copy_words.simps [of n])
    have IH: "length (copy_words (n - 4) (d + 4) (s + 4) ?b) = length b \<and>
     (\<forall>i<length b. copy_words (n - 4) (d + 4) (s + 4) ?b ! i
        = (if d + 4 \<le> i \<and> i < d + n then ?b ! (s + (i - d)) else ?b ! i))"
      using 1(1) [OF True] 1(2-4) True len by auto
    have nb: "?b ! i = (if d \<le> i \<and> i < d + 4 then b ! (s + (i - d)) else b ! i)" if "i < length b" for i
      using 1(2-4) True that by (auto simp: nth_put_bytes)
    have "copy_words (n - 4) (d + 4) (s + 4) ?b ! i = (if d \<le> i \<and> i < d + n then b ! (s + (i - d)) else b ! i)"
      if "i < length b" for i
    proof (cases "d + 4 \<le> i \<and> i < d + n")
      case in_rest: True
      then have "s + (i - d) < length b" using 1(2-4) by auto
      moreover have "\<not> (d \<le> s + (i - d) \<and> s + (i - d) < d + 4)" using 1(2) in_rest by auto
      ultimately have "?b ! (s + (i - d)) = b ! (s + (i - d))" using nb by auto
      then show ?thesis using IH in_rest that by auto
    next
      case False
      then show ?thesis using IH nb [OF that] that True by auto
    qed
    then show ?thesis using rec IH by simp
  next
    case False
    then show ?thesis using 1(2-4) nth_copy_up [of d s n b] by (auto simp: copy_words.simps [of n])
  qed
qed

lemma copy_words_copied:
  assumes "d + n \<le> s \<or> s + n \<le> d" and "d + n \<le> length b" and "s + n \<le> length b"
  shows "copy_words n d s b = copied d s n b"
  by (rule nth_equalityI)
    (use assms copy_words_spec [OF assms] in \<open>simp_all add: nth_copied length_copied\<close>)

lemma memcpy_copied:
  assumes "d + n \<le> s \<or> s + n \<le> d" and "d + n \<le> length b" and "s + n \<le> length b"
  shows "memcpy base d s n b = Inr (copied d s n b)"
  using assms copy_words_copied [OF assms] copy_up_copied [of d s n b]
  by (auto simp: memcpy_def in_range_def copied_def)

lemma memmove_copied:
  assumes "d + n \<le> length b" and "s + n \<le> length b"
  shows "memmove d s n b = Inr (copied d s n b)"
proof (cases "s = d")
  case True
  then show ?thesis using assms by (simp add: memmove_def copied_def put_bytes_def) (metis add.commute append_take_drop_id drop_drop)
next
  case False
  then show ?thesis
    using assms copy_up_copied [of d s n b] copy_down_copied [of s d n b]
    by (simp add: memmove_def in_range_def)
qed

lemma length_fill_bytes [simp]: "length (fill_bytes n s c b) = length b"
  by (induction n s c b rule: fill_bytes.induct) auto

lemma fill_bytes_eq:
  "s + n \<le> length b \<Longrightarrow> fill_bytes n s c b = put_bytes s (replicate n c) b"
proof (induction n s c b rule: fill_bytes.induct)
  case (2 n s c b)
  then show ?case
    by (intro nth_equalityI) (auto simp: nth_put_bytes nth_list_update nth_Cons split: nat.split)
qed simp

lemma fill_word_bytes: "word_bytes (fill_word c) = replicate 4 c"
proof -
  have four: "(4 :: nat) = Suc (Suc (Suc (Suc 0)))" by simp
  have "fill_word c = push_bit 8 (push_bit 8 (push_bit 8 (ucast c) OR ucast c) OR ucast c) OR ucast c"
    unfolding fill_word_def four by simp
  then show ?thesis
    unfolding word_bytes_def four replicate.simps
    by (simp only: list.inject) (intro conjI refl bit_word_eqI; auto simp: bit_simps dest: bit_imp_le_length)
qed

lemma fill_words_eq:
  "s + n \<le> length b \<Longrightarrow> fill_words n s c b = put_bytes s (replicate n c) b"
proof (induction n s c b rule: fill_words.induct)
  case (1 n s c b)
  show ?case
  proof (cases "4 \<le> n")
    case True
    let ?b = "put_bytes s (replicate 4 c) b"
    have "length ?b = length b" using 1 True by simp
    then have "fill_words n s c b = put_bytes (s + 4) (replicate (n - 4) c) ?b"
      using 1 True by (simp add: fill_words.simps [of n] fill_word_bytes)
    also have "\<dots> = put_bytes s (replicate n c) b"
      by (rule nth_equalityI) (use 1(2) True in \<open>auto simp: nth_put_bytes\<close>)
    finally show ?thesis .
  next
    case False
    then show ?thesis using 1(2) by (simp add: fill_words.simps [of n] fill_bytes_eq)
  qed
qed

lemma memset_eq:
  assumes "s + n \<le> length b"
  shows "memset base s c n b = Inr (put_bytes s (replicate n c) b)"
  using assms by (simp add: memset_def in_range_def fill_words_eq fill_bytes_eq)

lemma strcpy_eq:
  assumes "is_cstr src" and "length (cstr src) < length dest"
  shows "strcpy dest src = Inr (put_bytes 0 (cstr src @ [0]) dest)"
  using assms
  by (induction dest src rule: strcpy.induct) (auto simp: put_bytes_def)

lemma strlcpy_eq:
  assumes "is_cstr src" and "0 < n" and "n \<le> length dest"
  shows "\<exists>d. strlcpy dest src n = Inr (d, length (cstr src)) \<and> length d = length dest
           \<and> is_cstr d \<and> cstr d = take (n - 1) (cstr src)"
proof -
  let ?k = "if n \<le> length (cstr src) then n - 1 else length (cstr src)"
  let ?d = "(put_bytes 0 (take ?k src) dest)[?k := 0]"
  obtain r where src: "src = cstr src @ 0 # r" using assms(1) by (rule is_cstrE)
  have k: "?k < length dest" "?k \<le> length (cstr src)" using assms by auto
  have tk: "take ?k src = take (n - 1) (cstr src)"
    using assms(2) by (subst src) auto
  have lt: "length (take ?k src) = ?k" using k cstr_length [OF assms(1)] by simp
  have "?d = take ?k src @ 0 # drop (Suc ?k) dest"
    using k lt by (auto simp: put_bytes_def list_update_append Cons_nth_drop_Suc [symmetric])
  moreover have "0 \<notin> set (take ?k src)"
    unfolding tk using cstr_no_0 [of src] in_set_takeD by fast
  ultimately have "is_cstr ?d" "cstr ?d = take (n - 1) (cstr src)" by (simp_all add: tk)
  moreover have "strlcpy dest src n = Inr (?d, length (cstr src))"
    using assms k by (simp add: strlcpy_def Let_def)
  moreover have "length ?d = length dest" using k lt by (simp add: put_bytes_def)
  ultimately show ?thesis by blast
qed

section \<open>Properties\<close>

text \<open>C37: \<open>strstr\<close> returns for NUL-terminated arguments, and returns the offset of the first
  occurrence of the second string in the first, or \<open>NULL\<close> exactly when there is none.\<close>

theorem strstr_first_occurrence:
  assumes "is_cstr s1" and "is_cstr s2"
  shows "(\<exists>i. strstr s1 s2 = Inr (Some i) \<and> prefix (cstr s2) (drop i (cstr s1))
            \<and> (\<forall>j<i. \<not> prefix (cstr s2) (drop j (cstr s1))))
       \<or> strstr s1 s2 = Inr None \<and> \<not> sublist (cstr s2) (cstr s1)"
proof (cases "find_sub (cstr s2) (cstr s1)")
  case None
  then show ?thesis using assms by (simp add: strstr_eq find_sub_None)
next
  case (Some i)
  then show ?thesis using assms by (auto simp: strstr_eq find_sub_Some)
qed

theorem strstr_first_occurrence_witness:
  "(\<exists>i. strstr [97, 98, 97, 98, 99, 0] [98, 99, 0] = Inr (Some i)
        \<and> prefix [98, 99] (drop i [97, 98, 97, 98, 99 :: u8]))"
  using strstr_first_occurrence [of "[97, 98, 97, 98, 99, 0]" "[98, 99, 0]"] by (auto simp: sublist_code)

text \<open>C38: \<open>memmove\<close> within one object moves the old contents of the source area to the destination
  area and changes nothing else, however the two areas overlap.\<close>

theorem memmove_overlapping:
  assumes "d + n \<le> length b" and "s + n \<le> length b"
  shows "\<exists>b'. memmove d s n b = Inr b' \<and> length b' = length b
     \<and> (\<forall>i<length b. b' ! i = (if d \<le> i \<and> i < d + n then b ! (s + (i - d)) else b ! i))"
  using assms by (simp add: memmove_copied nth_copied length_copied)

theorem memmove_overlapping_witness:
  "memmove 1 0 3 [1, 2, 3, 4, 5] = Inr [1, 1, 2, 3, 5]
   \<and> (\<exists>b'. memmove 1 0 3 [1, 2, 3, 4, 5] = Inr b' \<and> length b' = 5 \<and> b' ! 3 = 3)"
  using memmove_overlapping [of 1 3 "[1, 2, 3, 4, 5]" 0]
  by (auto simp: memmove_def in_range_def numeral_eq_Suc)

text \<open>C39: the word-at-a-time loops of \<open>memcpy\<close> and \<open>memset\<close> do what the byte loops do, whatever the
  alignment: copying between areas that do not overlap, and filling.\<close>

theorem memcpy_memset_any_alignment:
  assumes "d + n \<le> s \<or> s + n \<le> d" and "d + n \<le> length b" and "s + n \<le> length b"
  shows "memcpy base d s n b = Inr (copy_up n d s b)
       \<and> memset base d c n b = Inr (put_bytes d (replicate n c) b)"
  using assms copy_up_copied [of d s n b] by (auto simp: memcpy_copied memset_eq)

theorem memcpy_memset_any_alignment_witness:
  "memcpy 0 0 8 5 (map of_nat [0..<13]) = Inr (copy_up 5 0 8 (map of_nat [0..<13]))"
  using memcpy_memset_any_alignment [of 0 5 8 "map of_nat [0..<13]" 0 7] by simp

text \<open>C40: on strings of 7-bit characters the sign of \<open>strcmp\<close> is the lexicographic order.\<close>

theorem strcmp_orders_ascii:
  assumes "is_cstr s" and "is_cstr t" and "\<forall>c\<in>set (cstr s). c < 128" and "\<forall>c\<in>set (cstr t). c < 128"
  shows "\<exists>r. strcmp s t = Inr r \<and> (r < 0 \<longleftrightarrow> cstr_less (cstr s) (cstr t))
            \<and> (r > 0 \<longleftrightarrow> cstr_less (cstr t) (cstr s))"
  using assms by (rule strcmp_sign_ascii)

theorem strcmp_orders_ascii_witness:
  "\<exists>r. strcmp [97, 98, 0] [97, 99, 0] = Inr r \<and> r < 0"
  using strcmp_orders_ascii [of "[97, 98, 0]" "[97, 99, 0]"] by auto

text \<open>on other bytes it is not an order at all: the difference is cut to a \<open>signed char\<close>, so
  three strings can each be reported smaller than the next, in a circle.\<close>

lemma strcmp_circle:
  "strcmp [1, 0] [86, 0] = Inr (- 85) \<and> strcmp [86, 0] [171, 0] = Inr (- 85)
   \<and> strcmp [171, 0] [1, 0] = Inr (- 86)"
  by (simp add: Let_def)

end
