(* ===== verification/Httpd_Fs.thy ===== *)
theory Httpd_Fs
  imports C_String
begin

text \<open>
  httpd/fs.c: the read-only file system that holds the web pages.  The table of files is generated
  at build time (fsdata.c) and is an argument of \<open>fs_open\<close>: a list of \<open>fsdata_file\<close> in the order of
  the links from \<open>FS_ROOT\<close>.  \<open>FS_STATISTICS\<close> is not defined.
\<close>

record fsdata_file =
  ff_name :: mem
  ff_obj :: nat
  ff_len :: u32

text \<open>
  Both comparisons index the strings with a \<open>u8_t\<close>: after 256 characters without a decision the
  index is back at 0 and the comparison never ends.
\<close>

fun fs_cmp_strict :: "nat \<Rightarrow> mem \<Rightarrow> mem \<Rightarrow> u8 result" where
  "fs_cmp_strict 0 s t = Inl Non_Termination"
| "fs_cmp_strict (Suc n) (a # s) (b # t) =
     (if a \<noteq> b then Inr 1 else if a = 0 then Inr 0 else fs_cmp_strict n s t)"
| "fs_cmp_strict (Suc n) _ _ = Inl Out_Of_Bounds"

definition fs_strcmp_strict :: "mem \<Rightarrow> mem \<Rightarrow> u8 result" where
  "fs_strcmp_strict str1 str2 = fs_cmp_strict 256 str1 str2"

fun fs_cmp_lenient :: "nat \<Rightarrow> mem \<Rightarrow> mem \<Rightarrow> u8 result" where
  "fs_cmp_lenient 0 s t = Inl Non_Termination"
| "fs_cmp_lenient (Suc n) s [] = Inl Out_Of_Bounds"
| "fs_cmp_lenient (Suc n) s (b # t) =
     (if b = 0 then Inr 0
      else case s of
        [] \<Rightarrow> Inl Out_Of_Bounds
      | a # s' \<Rightarrow> if a = 0x0d \<or> a = 0x0a then Inr 0
                 else if a \<noteq> b then Inr 1 else fs_cmp_lenient n s' t)"

definition fs_strcmp_lenient :: "mem \<Rightarrow> mem \<Rightarrow> u8 result" where
  "fs_strcmp_lenient str1 str2 = fs_cmp_lenient 256 str1 str2"

text \<open>The function pointer \<open>fs_strcmp\<close>: \<open>True\<close> is the strict comparison, its initial value.\<close>

definition fs_set_strcmp_mode :: "u32 \<Rightarrow> bool" where
  "fs_set_strcmp_mode use_strict \<longleftrightarrow> use_strict \<noteq> 0"

definition fs_strcmp :: "bool \<Rightarrow> mem \<Rightarrow> mem \<Rightarrow> u8 result" where
  "fs_strcmp strict = (if strict then fs_strcmp_strict else fs_strcmp_lenient)"

fun fs_open :: "bool \<Rightarrow> mem \<Rightarrow> fsdata_file list \<Rightarrow> fsdata_file option result" where
  "fs_open strict name [] = Inr None"
| "fs_open strict name (f # fs) =
     bind_result (fs_strcmp strict name (ff_name f)) (\<lambda>r.
       if r = 0 then Inr (Some f) else fs_open strict name fs)"

section \<open>Properties\<close>

definition fs_wf :: "fsdata_file list \<Rightarrow> bool" where
  "fs_wf fs \<longleftrightarrow> (\<forall>f\<in>set fs. is_cstr (ff_name f) \<and> length (cstr (ff_name f)) < 256)"

lemma fs_cmp_strict_eq:
  assumes "is_cstr s" and "is_cstr t" and "length (cstr t) < n"
  shows "fs_cmp_strict n s t = Inr (if cstr s = cstr t then 0 else 1)"
  using assms
proof (induction n s t rule: fs_cmp_strict.induct)
  case (2 n a s b t)
  then show ?case by (auto split: if_splits)
qed auto

lemma fs_open_eq:
  assumes "is_cstr name" and "fs_wf fs"
  shows "fs_open True name fs = Inr (find (\<lambda>f. cstr (ff_name f) = cstr name) fs)"
  using assms(2)
proof (induction fs)
  case (Cons f fs)
  then have "fs_strcmp True name (ff_name f) = Inr (if cstr name = cstr (ff_name f) then 0 else 1)"
    using assms(1) by (simp add: fs_strcmp_def fs_strcmp_strict_def fs_wf_def fs_cmp_strict_eq)
  with Cons show ?case by (auto simp: fs_wf_def)
qed simp

text \<open>With file names shorter than 256 characters \<open>fs_open\<close> always returns, and returns the
  first file whose name is the requested one, or nothing if there is none.\<close>

lemma fs_open_finds_first:
  assumes "is_cstr name" and "fs_wf fs"
  shows "(\<exists>f fs1 fs2. fs_open True name fs = Inr (Some f) \<and> fs = fs1 @ f # fs2
            \<and> cstr (ff_name f) = cstr name \<and> (\<forall>g\<in>set fs1. cstr (ff_name g) \<noteq> cstr name))
       \<or> fs_open True name fs = Inr None \<and> (\<forall>g\<in>set fs. cstr (ff_name g) \<noteq> cstr name)"
proof (cases "find (\<lambda>f. cstr (ff_name f) = cstr name) fs")
  case None
  then show ?thesis using assms by (simp add: fs_open_eq find_None_iff)
next
  case (Some f)
  then obtain i where i: "i < length fs" "cstr (ff_name (fs ! i)) = cstr name" "f = fs ! i"
    "\<forall>j<i. cstr (ff_name (fs ! j)) \<noteq> cstr name"
    by (auto simp: find_Some_iff)
  have "fs = take i fs @ f # drop (Suc i) fs" using i by (simp add: id_take_nth_drop)
  moreover have "\<forall>g\<in>set (take i fs). cstr (ff_name g) \<noteq> cstr name"
    using i by (auto simp: in_set_conv_nth)
  ultimately show ?thesis using Some i assms by (metis fs_open_eq)
qed

lemma fs_open_finds_first_witness:
  "\<exists>f. fs_open True [47, 98, 0] [\<lparr>ff_name = [47, 97, 0], ff_obj = 0, ff_len = 3\<rparr>,
     \<lparr>ff_name = [47, 98, 0], ff_obj = 1, ff_len = 4\<rparr>] = Inr (Some f) \<and> cstr (ff_name f) = [47, 98]"
  using fs_open_finds_first [of "[47, 98, 0]" "[\<lparr>ff_name = [47, 97, 0], ff_obj = 0, ff_len = 3\<rparr>,
     \<lparr>ff_name = [47, 98, 0], ff_obj = 1, ff_len = 4\<rparr>]"]
  by (auto simp: fs_wf_def)

end
