(* ===== verification/Httpd_App.thy ===== *)
theory Httpd_App
  imports Uip_Inv Httpd_Fs
begin

text \<open>
  httpd/httpd.c: the web server on top of uIP.  The static variables of the file extend the uIP
  state; the state of one connection is \<open>struct httpd_state\<close> in its \<open>appstate\<close> (\<open>hs\<close> points there).
  Console output and LEDs are not modelled.  The uploaded image goes to RAM, which is a function
  from addresses to bytes.  The pages, the allocator and the two request handlers of the board
  directory (\<open>web_macrw_handle\<close>, \<open>web_setenv_handle\<close>) are the fields of \<open>site\<close>; a handler takes the
  argument strings and the rest of the machine state, and returns the length of the response and
  the new state.
\<close>

section \<open>State\<close>

abbreviation (input) STATE_NONE :: u8 where "STATE_NONE \<equiv> 0"
abbreviation (input) STATE_FILE_REQUEST :: u8 where "STATE_FILE_REQUEST \<equiv> 1"
abbreviation (input) STATE_UPLOAD_REQUEST :: u8 where "STATE_UPLOAD_REQUEST \<equiv> 2"

abbreviation (input) ISO_space :: u8 where "ISO_space \<equiv> 0x20"
abbreviation (input) ISO_nl :: u8 where "ISO_nl \<equiv> 0x0a"
abbreviation (input) ISO_cr :: u8 where "ISO_cr \<equiv> 0x0d"
abbreviation (input) ISO_tab :: u8 where "ISO_tab \<equiv> 0x09"
abbreviation (input) ISO_slash :: u8 where "ISO_slash \<equiv> 0x2f"

abbreviation (input) WEBFAILSAFE_UPLOAD_RAM_ADDRESS :: u32 where "WEBFAILSAFE_UPLOAD_RAM_ADDRESS \<equiv> 0x88000000"
abbreviation (input) WEBFAILSAFE_UPLOAD_UBOOT_SIZE_IN_BYTES :: u32 where
  "WEBFAILSAFE_UPLOAD_UBOOT_SIZE_IN_BYTES \<equiv> 524288"
abbreviation (input) WEBFAILSAFE_UPLOAD_ART_SIZE_IN_BYTES :: u32 where
  "WEBFAILSAFE_UPLOAD_ART_SIZE_IN_BYTES \<equiv> 65536"
abbreviation (input) WEBFAILSAFE_UPLOAD_MIBIB_SIZE_IN_BYTES :: u32 where
  "WEBFAILSAFE_UPLOAD_MIBIB_SIZE_IN_BYTES \<equiv> 131072"

text \<open>\<open>WEBFAILSAFE_UPGRADE_TYPE_...\<close>, 0 to 4.\<close>

datatype upgrade_type = Type_Firmware | Type_Uboot | Type_Art | Type_Qsdk | Type_Mibib

record httpd = uip_state +
  webfailsafe_ready_for_upgrade :: bool
  webfailsafe_upgrade_type :: upgrade_type
  NetBootFileXferSize :: u32
  webfailsafe_data_pointer :: u32
  webfailsafe_post_done :: bool
  webfailsafe_upload_failed :: bool
  data_start_found :: bool
  post_packet_counter :: u8
  post_line_counter :: u8
  boundary_value :: "u8 list option"
  ram :: "u32 \<Rightarrow> u8"

record 'a site =
  fs_files :: "fsdata_file list"
  fs_strict :: bool
  file_index_html :: fsdata_file
  file_404_html :: fsdata_file
  file_flashing_html :: fsdata_file
  file_fail_html :: fsdata_file
  malloc :: "nat \<Rightarrow> bool"
  macrw_handle :: "u8 list list \<Rightarrow> 'a \<Rightarrow> u32 \<times> 'a"
  setenv_handle :: "u8 list list \<Rightarrow> 'a \<Rightarrow> u32 \<times> 'a"

definition hs :: "'a httpd_scheme \<Rightarrow> httpd_state" where
  "hs s = appstate (cur_conn s)"

definition upd_hs :: "(httpd_state \<Rightarrow> httpd_state) \<Rightarrow> 'a httpd_scheme \<Rightarrow> 'a httpd_scheme" where
  "upd_hs f s = upd_conn (uip_conn_ix s) (\<lambda>c. c\<lparr>appstate := f (appstate c)\<rparr>) s"

definition uip_mss :: "'a httpd_scheme \<Rightarrow> u16" where
  "uip_mss s = mss (cur_conn s)"

text \<open>The macros of httpd/uip.h the application uses.\<close>

definition uip_send :: "ptr \<Rightarrow> u16 \<Rightarrow> 'a httpd_scheme \<Rightarrow> 'a httpd_scheme" where
  "uip_send p n s = s\<lparr>uip_sappdata := p, uip_slen := n\<rparr>"

definition uip_close :: "'a httpd_scheme \<Rightarrow> 'a httpd_scheme" where
  "uip_close s = s\<lparr>uip_flags := UIP_CLOSE\<rparr>"

definition uip_abort :: "'a httpd_scheme \<Rightarrow> 'a httpd_scheme" where
  "uip_abort s = s\<lparr>uip_flags := UIP_ABORT\<rparr>"

section \<open>Access to the data of the packet\<close>

fun bytes_from :: "'a uip_state_scheme \<Rightarrow> ptr \<Rightarrow> mem" where
  "bytes_from s (In_Buf i) = drop i (uip_buf s)"
| "bytes_from s (In_Obj k i) = (if k < length (uip_objs s) then drop i (uip_objs s ! k) else [])"
| "bytes_from s _ = []"

abbreviation appdata :: "'a httpd_scheme \<Rightarrow> mem" where
  "appdata s \<equiv> bytes_from s (uip_appdata s)"

text \<open>\<open>uip_appdata[j] = v\<close>\<close>

definition set_app :: "nat \<Rightarrow> u8 \<Rightarrow> 'a httpd_scheme \<Rightarrow> 'a httpd_scheme result" where
  "set_app j v s =
     (case uip_appdata s of
        In_Buf i \<Rightarrow> if i + j < length (uip_buf s) then Inr (s\<lparr>uip_buf := (uip_buf s)[i + j := v]\<rparr>)
                    else Inl Out_Of_Bounds
      | _ \<Rightarrow> Inl Out_Of_Bounds)"

text \<open>Successive characters tested one after the other, stopping at the first that fails.\<close>

fun match_bytes :: "(u8 \<Rightarrow> bool) list \<Rightarrow> mem \<Rightarrow> bool result" where
  "match_bytes [] m = Inr True"
| "match_bytes (p # ps) [] = Inl Out_Of_Bounds"
| "match_bytes (p # ps) (c # m) = (if p c then match_bytes ps m else Inr False)"

definition ascii :: "string \<Rightarrow> mem" where
  "ascii s = map of_char s"

definition cs :: "string \<Rightarrow> mem" where
  "cs s = ascii s @ [0]"

definition is_get :: "mem \<Rightarrow> bool result" where
  "is_get m = match_bytes [\<lambda>c. c = 0x47, \<lambda>c. c = 0x45, \<lambda>c. c = 0x54, \<lambda>c. c = ISO_space \<or> c = ISO_tab] m"

definition is_post :: "mem \<Rightarrow> bool result" where
  "is_post m = match_bytes [\<lambda>c. c = 0x50, \<lambda>c. c = 0x4f, \<lambda>c. c = 0x53, \<lambda>c. c = 0x54,
                            \<lambda>c. c = ISO_space \<or> c = ISO_tab] m"

text \<open>The \<open>int\<close> of \<open>atoi\<close> wraps.\<close>

fun atoi_from :: "u32 \<Rightarrow> mem \<Rightarrow> u32 result" where
  "atoi_from i [] = Inl Out_Of_Bounds"
| "atoi_from i (c # m) = (if 48 \<le> c \<and> c \<le> 57 then atoi_from (i * 10 + ucast c - 48) m else Inr i)"

definition atoi :: "mem \<Rightarrow> u32 result" where
  "atoi m = atoi_from 0 m"

text \<open>\<open>parse_url_args\<close> on the object \<open>b\<close> from the offset \<open>p\<close>: the offsets of at most \<open>max_args\<close> tokens.\<close>

fun url_loop :: "nat \<Rightarrow> mem \<times> nat option \<Rightarrow> nat option \<Rightarrow> (mem \<times> nat list) result" where
  "url_loop n st None = Inr (fst st, [])"
| "url_loop 0 st (Some t) = Inr (fst st, [])"
| "url_loop (Suc n) st (Some t) =
     bind_result (strtok st None (cs ''&'')) (\<lambda>(st', tok).
     bind_result (url_loop n st' tok) (\<lambda>(b, ts). Inr (b, t # ts)))"

definition parse_url_args :: "mem \<Rightarrow> nat \<Rightarrow> nat \<Rightarrow> (mem \<times> nat list) result" where
  "parse_url_args b p max_args =
     bind_result (strtok (b, None) (Some p) (cs ''&'')) (\<lambda>(st, tok). url_loop max_args st tok)"

definition argv :: "mem \<times> nat list \<Rightarrow> u8 list list" where
  "argv r = map (\<lambda>t. cstr (drop t (fst r))) (snd r)"

definition write_ram :: "u32 \<Rightarrow> mem \<Rightarrow> (u32 \<Rightarrow> u8) \<Rightarrow> u32 \<Rightarrow> u8" where
  "write_ram p bs r = (\<lambda>a. if unat (a - p) < length bs then bs ! unat (a - p) else r a)"

section \<open>The functions of httpd.c\<close>

definition httpd_download_progress :: "'a httpd_scheme \<Rightarrow> 'a httpd_scheme" where
  "httpd_download_progress s =
     (let s = (if post_packet_counter s = 39
               then s\<lparr>post_packet_counter := 0, post_line_counter := post_line_counter s + 1\<rparr> else s);
          s = (if post_line_counter s = 10 then s\<lparr>post_line_counter := 0\<rparr> else s)
      in s\<lparr>post_packet_counter := post_packet_counter s + 1\<rparr>)"

definition httpd_init :: "'a httpd_scheme \<Rightarrow> 'a httpd_scheme" where
  "httpd_init s = uip_listen (htons 80) s"

definition httpd_state_reset :: "'a httpd_scheme \<Rightarrow> 'a httpd_scheme" where
  "httpd_state_reset s =
     (upd_hs (\<lambda>h. h\<lparr>hs_state := STATE_NONE, hs_count := 0, hs_dataptr := Null, hs_upload := 0,
                   hs_upload_total := 0\<rparr>) s)
       \<lparr>data_start_found := False, post_packet_counter := 0, post_line_counter := 0,
        boundary_value := None\<rparr>"

definition reset_abort :: "'a httpd_scheme \<Rightarrow> 'a httpd_scheme" where
  [c_defs]: "reset_abort s = uip_abort (httpd_state_reset s)"

text \<open>\<open>uip_send(hs->dataptr, (hs->upload > uip_mss() ? uip_mss() : hs->upload))\<close>\<close>

definition send_chunk :: "'a httpd_scheme \<Rightarrow> 'a httpd_scheme" where
  "send_chunk s =
     uip_send (hs_dataptr (hs s))
       (if ucast (uip_mss s) < hs_upload (hs s) then uip_mss s else ucast (hs_upload (hs s))) s"

text \<open>The kind of image by the name of the form field.\<close>

definition upload_kind :: "mem \<Rightarrow> upgrade_type option result" where
  "upload_kind m =
     bind_result (strstr m (cs ''name=\"firmware\"'')) (\<lambda>e. if e \<noteq> None then Inr (Some Type_Firmware) else
     bind_result (strstr m (cs ''name=\"uboot\"'')) (\<lambda>e. if e \<noteq> None then Inr (Some Type_Uboot) else
     bind_result (strstr m (cs ''name=\"art\"'')) (\<lambda>e. if e \<noteq> None then Inr (Some Type_Art) else
     bind_result (strstr m (cs ''name=\"mibib\"'')) (\<lambda>e. if e \<noteq> None then Inr (Some Type_Mibib) else
     Inr None))))"

definition wrong_size :: "upgrade_type \<Rightarrow> u32 \<Rightarrow> bool" where
  "wrong_size k n \<longleftrightarrow>
     k = Type_Uboot \<and> WEBFAILSAFE_UPLOAD_UBOOT_SIZE_IN_BYTES < n
     \<or> k = Type_Art \<and> n \<noteq> WEBFAILSAFE_UPLOAD_ART_SIZE_IN_BYTES
     \<or> k = Type_Mibib \<and> n \<noteq> WEBFAILSAFE_UPLOAD_MIBIB_SIZE_IN_BYTES"

definition eol :: mem where "eol = [0x0d, 0x0a, 0]"
definition eol2 :: mem where "eol2 = [0x0d, 0x0a, 0x0d, 0x0a, 0]"

definition httpd_findandstore_firstchunk :: "'a httpd_scheme \<Rightarrow> (bool \<times> 'a httpd_scheme) result" where
  "httpd_findandstore_firstchunk s =
     (case boundary_value s of
        None \<Rightarrow> Inr (False, s)
      | Some bv \<Rightarrow>
          bind_result (strstr (appdata s) (bv @ [0])) (\<lambda>start.
          case start of
            None \<Rightarrow> Inr (False, s)
          | Some st \<Rightarrow>
              bind_result (upload_kind (drop st (appdata s))) (\<lambda>kind.
              case kind of
                None \<Rightarrow> Inr (False, s)
              | Some k \<Rightarrow>
                  let s = s\<lparr>webfailsafe_upgrade_type := k\<rparr>
                  in bind_result (strstr (drop st (appdata s)) eol2) (\<lambda>e.
                     case e of
                       None \<Rightarrow> Inr (False, s)
                     | Some e \<Rightarrow>
                         if st + e < unat (uip_len s) then
                           let en = st + e + 4;
                               total = hs_upload_total (hs s) - of_nat (en - st) - of_nat (length bv) - 6;
                               s = upd_hs (\<lambda>h. h\<lparr>hs_upload_total := total\<rparr>) s;
                               s = (if wrong_size k total then s\<lparr>webfailsafe_upload_failed := True\<rparr> else s);
                               up = ucast (uip_len s) - of_nat en;
                               s = upd_hs (\<lambda>h. h\<lparr>hs_upload := up\<rparr>) s
                           in bind_result (read_mem s (ptr_add (uip_appdata s) en) (unat up)) (\<lambda>bs.
                              Inr (True, httpd_download_progress
                                (s\<lparr>ram := write_ram (webfailsafe_data_pointer s) bs (ram s),
                                   webfailsafe_data_pointer := webfailsafe_data_pointer s + up\<rparr>)))
                         else Inr (False, s)))))"

subsection \<open>Requests to the board handlers\<close>

text \<open>
  The response is built in an array on the stack of \<open>httpd_appcall\<close>; \<open>dataptr\<close> points there when
  the function returns.
\<close>

definition stack_reply :: "u32 \<times> 'a \<Rightarrow> 'a httpd_scheme \<Rightarrow> 'a httpd_scheme" where
  "stack_reply r s =
     (let n = (ucast (fst r) :: u16)
      in send_chunk (upd_hs (\<lambda>h. h\<lparr>is_macrw_resp := 1, macrw_buf := In_Stack 0, macrw_len := n,
                                  hs_dataptr := In_Stack 0, hs_upload := ucast n\<rparr>)
           (httpd.more_update (\<lambda>_. snd r) s)))"

definition buf_pos :: "'a httpd_scheme \<Rightarrow> nat" where
  "buf_pos s = (case uip_appdata s of In_Buf i \<Rightarrow> i | _ \<Rightarrow> 0)"

definition get_macrw :: "'a site \<Rightarrow> 'a httpd_scheme \<Rightarrow> 'a httpd_scheme result" where
  "get_macrw P s =
     bind_result (strchr (drop 4 (appdata s)) 0x3f) (\<lambda>query.
     case query of
       None \<Rightarrow> Inr (stack_reply (macrw_handle P [] (httpd.more s)) s)
     | Some q \<Rightarrow>
         bind_result (set_app (4 + q) 0 s) (\<lambda>s.
         bind_result (parse_url_args (uip_buf s) (buf_pos s + 4 + q + 1) 10) (\<lambda>r.
           let s = s\<lparr>uip_buf := fst r\<rparr>
           in Inr (stack_reply (macrw_handle P (argv r) (httpd.more s)) s))))"

text \<open>
  A POST with a body: the body is copied to the heap and parsed there.  The result is \<open>None\<close> when
  there is no end of the header, and the request is then treated as an upload.
\<close>

definition post_handler ::
  "(u8 list list \<Rightarrow> 'a \<Rightarrow> u32 \<times> 'a) \<Rightarrow> 'a site \<Rightarrow> 'a httpd_scheme \<Rightarrow> 'a httpd_scheme option result" where
  "post_handler h P s =
     bind_result (strstr (appdata s) eol2) (\<lambda>body.
     case body of
       None \<Rightarrow> Inr None
     | Some e \<Rightarrow>
         let header_len = e + 4
         in if unat (uip_len s) < header_len then Inl Out_Of_Bounds
            else
              let body_len = unat (uip_len s) - header_len
              in if \<not> malloc P (body_len + 1) then Inl Null_Deref
                 else bind_result (read_mem s (ptr_add (uip_appdata s) header_len) body_len) (\<lambda>body_copy.
                      bind_result (parse_url_args (body_copy @ [0]) 0 10) (\<lambda>r.
                        Inr (Some (stack_reply (h (argv r) (httpd.more s)) s)))))"

definition is_request :: "string \<Rightarrow> mem \<Rightarrow> bool result" where
  "is_request str m = bind_result (strncmp m (cs str) (length str)) (\<lambda>r. Inr (r = 0))"

subsection \<open>Files\<close>

text \<open>The loop \<open>for (i = 4; i < 30; i++)\<close>: the offset of the first separator, from \<open>i\<close> on.\<close>

fun name_end :: "nat \<Rightarrow> nat \<Rightarrow> mem \<Rightarrow> nat option result" where
  "name_end 0 i m = Inr None"
| "name_end (Suc n) i m =
     (if length m \<le> i then Inl Out_Of_Bounds
      else if m ! i = ISO_space \<or> m ! i = ISO_cr \<or> m ! i = ISO_nl \<or> m ! i = ISO_tab then Inr (Some i)
      else name_end n (i + 1) m)"

text \<open>\<open>fsfile\<close> is not set when \<open>fs_open\<close> fails; the callers that do not look at its result use it anyway.\<close>

definition open_page :: "'a site \<Rightarrow> mem \<Rightarrow> fsdata_file result" where
  "open_page P name =
     bind_result (fs_open (fs_strict P) name (fs_files P)) (\<lambda>r.
       case r of None \<Rightarrow> Inl Uninitialised | Some f \<Rightarrow> Inr f)"

definition serve :: "fsdata_file \<Rightarrow> 'a httpd_scheme \<Rightarrow> 'a httpd_scheme" where
  "serve f s =
     send_chunk (upd_hs (\<lambda>h. h\<lparr>hs_state := STATE_FILE_REQUEST, hs_dataptr := In_Obj (ff_obj f) 0,
                               hs_upload := ff_len f\<rparr>) s)"

definition wants_index :: "mem \<Rightarrow> bool result" where
  "wants_index m =
     bind_result (match_bytes [\<lambda>c. c = ISO_slash, \<lambda>c. c = 0] (drop 4 m)) (\<lambda>root.
     if root then Inr True
     else bind_result (is_request ''/cgi-bin/luci'' (drop 4 m)) (\<lambda>luci.
       if luci then match_bytes [\<lambda>c. c = 0 \<or> c = ISO_space \<or> c = ISO_cr \<or> c = ISO_nl] (drop 17 m)
       else Inr False))"

definition file_request :: "'a site \<Rightarrow> 'a httpd_scheme \<Rightarrow> 'a httpd_scheme result" where
  "file_request P s =
     bind_result (name_end 26 4 (appdata s)) (\<lambda>e.
     case e of
       None \<Rightarrow> Inr (reset_abort s)
     | Some i \<Rightarrow>
         bind_result (set_app i 0 s) (\<lambda>s.
         bind_result (wants_index (appdata s)) (\<lambda>index.
         bind_result
           (if index then open_page P (ff_name (file_index_html P))
            else bind_result (fs_open (fs_strict P) (drop 4 (appdata s)) (fs_files P)) (\<lambda>r.
                   case r of
                     Some f \<Rightarrow> Inr f
                   | None \<Rightarrow> open_page P (ff_name (file_404_html P)))) (\<lambda>f.
         Inr (serve f s)))))"

subsection \<open>Uploads\<close>

definition upload_boundary :: "'a site \<Rightarrow> 'a httpd_scheme \<Rightarrow> 'a httpd_scheme result" where
  "upload_boundary P s =
     bind_result (strstr (appdata s) (cs ''boundary='')) (\<lambda>start.
     case start of
       None \<Rightarrow> Inr (reset_abort s)
     | Some p \<Rightarrow>
         let m = drop (p + 9) (appdata s)
         in bind_result (strstr m eol) (\<lambda>e.
            case e of
              None \<Rightarrow> Inr (reset_abort s)
            | Some e \<Rightarrow>
                if \<not> malloc P (e + 3) then Inr (reset_abort s)
                else bind_result (httpd_findandstore_firstchunk
                       (s\<lparr>boundary_value := Some ([0x2d, 0x2d] @ take e m),
                          webfailsafe_data_pointer := WEBFAILSAFE_UPLOAD_RAM_ADDRESS\<rparr>)) (\<lambda>(found, s).
                     Inr (s\<lparr>data_start_found := found\<rparr>))))"

definition upload_request :: "'a site \<Rightarrow> 'a httpd_scheme \<Rightarrow> 'a httpd_scheme result" where
  "upload_request P s =
     bind_result (set_app (unat (uip_len s)) 0 s) (\<lambda>s.
     bind_result (strstr (appdata s) (cs ''Content-Length:'')) (\<lambda>start.
     case start of
       None \<Rightarrow> Inr (reset_abort s)
     | Some p \<Rightarrow>
         let m = drop (p + 16) (appdata s)
         in bind_result (strstr m eol) (\<lambda>e.
            if e = None then Inr (reset_abort s)
            else bind_result (atoi m) (\<lambda>n.
              let s = upd_hs (\<lambda>h. h\<lparr>hs_upload_total := n\<rparr>) s
              in if n < 10240 then Inr (reset_abort s) else upload_boundary P s))))"

definition upload_done :: "'a site \<Rightarrow> 'a httpd_scheme \<Rightarrow> 'a httpd_scheme result" where
  "upload_done P s =
     (let s = s\<lparr>webfailsafe_post_done := True, NetBootFileXferSize := hs_upload_total (hs s)\<rparr>
      in bind_result (open_page P (ff_name (if webfailsafe_upload_failed s then file_fail_html P
                                            else file_flashing_html P))) (\<lambda>f.
         Inr (serve f (httpd_state_reset s))))"

definition store_data :: "'a httpd_scheme \<Rightarrow> 'a httpd_scheme result" where
  "store_data s =
     (if webfailsafe_upload_failed s then Inr s
      else bind_result (read_mem s (uip_appdata s) (unat (uip_len s))) (\<lambda>bs.
             Inr (s\<lparr>ram := write_ram (webfailsafe_data_pointer s) bs (ram s),
                    webfailsafe_data_pointer := webfailsafe_data_pointer s + ucast (uip_len s)\<rparr>)))"

definition upload_data :: "'a site \<Rightarrow> 'a httpd_scheme \<Rightarrow> 'a httpd_scheme result" where
  "upload_data P s =
     bind_result (set_app (unat (uip_len s)) 0 s) (\<lambda>s.
     if \<not> data_start_found s then
       bind_result (httpd_findandstore_firstchunk s) (\<lambda>(found, s).
       if found then Inr (s\<lparr>data_start_found := True\<rparr>) else Inr (reset_abort s))
     else
       let s = upd_hs (\<lambda>h. h\<lparr>hs_upload := hs_upload h + ucast (uip_len s)\<rparr>) s
       in bind_result (store_data s) (\<lambda>s.
            let s = httpd_download_progress s
            in case boundary_value s of
                 None \<Rightarrow> Inl Null_Deref
               | Some bv \<Rightarrow>
                   if hs_upload_total (hs s) + of_nat (length bv) + 6 \<le> hs_upload (hs s)
                   then upload_done P s else Inr s))"

subsection \<open>The application callback\<close>

definition new_request :: "'a site \<Rightarrow> 'a httpd_scheme \<Rightarrow> 'a httpd_scheme result" where
  "new_request P s =
     bind_result (is_get (appdata s)) (\<lambda>get.
     if get then
       let s = upd_hs (\<lambda>h. h\<lparr>hs_state := STATE_FILE_REQUEST\<rparr>) s
       in bind_result (is_request ''/macrw'' (drop 4 (appdata s))) (\<lambda>m.
          if m then get_macrw P s else file_request P s)
     else bind_result (is_post (appdata s)) (\<lambda>post.
     if \<not> post then Inr (reset_abort s)
     else
       let s = upd_hs (\<lambda>h. h\<lparr>hs_state := STATE_UPLOAD_REQUEST\<rparr>) s
       in bind_result (is_request ''POST /macrw'' (appdata s)) (\<lambda>m.
          if m then
            bind_result (post_handler (macrw_handle P) P s) (\<lambda>r.
            case r of Some s' \<Rightarrow> Inr s' | None \<Rightarrow> upload_request P s)
          else bind_result (is_request ''POST /setenv'' (appdata s)) (\<lambda>e.
          if e then
            bind_result (post_handler (setenv_handle P) P s) (\<lambda>r.
            case r of Some s' \<Rightarrow> Inr s' | None \<Rightarrow> upload_request P s)
          else bind_result (is_request ''POST /reset'' (appdata s)) (\<lambda>r.
          if r then Inl Board_Reset else upload_request P s)))))"

definition advance :: "'a httpd_scheme \<Rightarrow> 'a httpd_scheme" where
  "advance s =
     send_chunk (upd_hs (\<lambda>h. h\<lparr>hs_dataptr := ptr_add (hs_dataptr h) (unat (clen (cur_conn s))),
                               hs_upload := hs_upload h - ucast (clen (cur_conn s))\<rparr>) s)"

definition acked :: "'a httpd_scheme \<Rightarrow> 'a httpd_scheme" where
  "acked s =
     (if is_macrw_resp (hs s) \<noteq> 0 then
        if hs_upload (hs s) \<le> ucast (uip_mss s)
        then upd_hs (\<lambda>h. h\<lparr>is_macrw_resp := 0\<rparr>) (uip_close (httpd_state_reset s))
        else advance s
      else if hs_state (hs s) = STATE_FILE_REQUEST then
        if hs_upload (hs s) \<le> ucast (uip_mss s) then
          let s = (if webfailsafe_post_done s then
                     let s = (if \<not> webfailsafe_upload_failed s
                              then s\<lparr>webfailsafe_ready_for_upgrade := True\<rparr> else s)
                     in s\<lparr>webfailsafe_post_done := False, webfailsafe_upload_failed := False\<rparr>
                   else s)
          in uip_close (httpd_state_reset s)
        else advance s
      else s)"

definition httpd_appcall :: "'a site \<Rightarrow> 'a httpd_scheme \<Rightarrow> 'a httpd_scheme result" where
  "httpd_appcall P s =
     (let flag = (\<lambda>f. uip_flags s AND f \<noteq> 0)
      in if lport (cur_conn s) \<noteq> htons 80 then Inr (uip_abort s)
         else if flag UIP_CLOSE then Inr (uip_close (httpd_state_reset s))
         else if flag UIP_ABORT \<or> flag UIP_TIMEDOUT then Inr (reset_abort s)
         else if flag UIP_POLL then
           let n = hs_count (hs s);
               s = upd_hs (\<lambda>h. h\<lparr>hs_count := hs_count h + 1\<rparr>) s
           in Inr (if 3000 \<le> n then reset_abort s else s)
         else if flag UIP_CONNECTED then Inr (httpd_state_reset s)
         else if flag UIP_NEWDATA \<and> hs_state (hs s) = STATE_NONE then new_request P s
         else if flag UIP_ACKDATA then Inr (acked s)
         else if flag UIP_REXMIT then
           Inr (if hs_state (hs s) = STATE_FILE_REQUEST then send_chunk s else s)
         else if flag UIP_NEWDATA then
           (if hs_state (hs s) = STATE_UPLOAD_REQUEST then upload_data P s else Inr s)
         else Inr s)"

section \<open>The callback stays within the application interface\<close>

lemma app_frame_inv_step:
  assumes "uip_inv s" and "app_frame s s'"
  shows "uip_inv s'"
proof -
  have same: "same_tcb (cur_conn s) (cur_conn s')" and ix: "uip_conn_ix s' = uip_conn_ix s"
    using assms(2) by (simp_all add: app_frame_def)
  have "conn_inv (uip_conns s' ! j)" if "j < UIP_CONNS" for j
    using that assms same ix
    by (cases "j = uip_conn_ix s") (auto simp: uip_inv_def conn_inv_def same_tcb_sel app_frame_def cur_conn_def)
  then show ?thesis using assms by (simp add: uip_inv_def uip_wf_def app_frame_def)
qed

definition within_app :: "'a uip_state_scheme \<Rightarrow> 'a uip_state_scheme \<Rightarrow> bool" where
  "within_app s s' \<longleftrightarrow> (uip_inv s \<longrightarrow> app_frame s s')"

lemma same_tcb_trans: "same_tcb a b \<Longrightarrow> same_tcb b c \<Longrightarrow> same_tcb a c"
  unfolding same_tcb_def by (metis uip_conn.surjective uip_conn.update_convs(15))

lemma within_trans:
  assumes "within_app s t" and "within_app t u"
  shows "within_app s u"
proof -
  have "app_frame s u" if "app_frame s t" "app_frame t u"
    using that same_tcb_trans unfolding app_frame_def by auto
  then show ?thesis
    using assms app_frame_inv_step unfolding within_app_def by blast
qed

lemma within_upd_conn:
  assumes "\<And>c. conn_inv c \<Longrightarrow> same_tcb c (f c) \<and> data_ptr (hs_dataptr (appstate (f c)))"
  shows "within_app s (upd_conn (uip_conn_ix s) f s)"
proof -
  have "app_frame s (upd_conn (uip_conn_ix s) f s)" if inv: "uip_inv s"
  proof -
    have "uip_conn_ix s < length (uip_conns s)" and "conn_inv (uip_conns s ! uip_conn_ix s)"
      using inv by (simp_all add: uip_inv_def uip_wf_def)
    then show ?thesis
      using assms inv by (simp add: app_frame_def cur_conn_def uip_inv_def uip_wf_def)
  qed
  then show ?thesis by (simp add: within_app_def)
qed

lemma within_refl [simp]: "within_app s s"
  unfolding within_app_def app_frame_def cur_conn_def
  by (auto simp: uip_inv_def uip_wf_def conn_inv_def)

lemma within_upd_hs:
  assumes "\<And>h. data_ptr (hs_dataptr h) \<Longrightarrow> data_ptr (hs_dataptr (f h))"
  shows "within_app s (upd_hs f s)"
  unfolding upd_hs_def
  by (rule within_upd_conn) (use assms in \<open>simp add: same_tcb_def conn_inv_def\<close>)

lemma within_same:
  assumes "uip_buf s' = uip_buf s" "uip_conns s' = uip_conns s" "uip_hostaddr s' = uip_hostaddr s"
    "uip_listenports s' = uip_listenports s" "uip_conn_ix s' = uip_conn_ix s" "ipid s' = ipid s"
    "iss s' = iss s" "uip_objs s' = uip_objs s" "uip_len s' = uip_len s" "uip_appdata s' = uip_appdata s"
    "uip_inv s \<Longrightarrow> data_ptr (uip_sappdata s')"
  shows "within_app s s'"
  using assms unfolding within_app_def app_frame_def cur_conn_def
  by (auto simp: uip_inv_def uip_wf_def conn_inv_def)

lemma within_flags [simp]: "within_app s (uip_close s)" "within_app s (uip_abort s)"
  by (rule within_same; simp add: uip_close_def uip_abort_def uip_inv_def uip_wf_def)+

lemma within_progress [simp]: "within_app s (httpd_download_progress s)"
  by (rule within_same) (simp_all add: httpd_download_progress_def Let_def uip_inv_def uip_wf_def)

lemma within_reset [simp]: "within_app s (httpd_state_reset s)"
proof -
  let ?t = "upd_hs (\<lambda>h. h\<lparr>hs_state := STATE_NONE, hs_count := 0, hs_dataptr := Null, hs_upload := 0,
                   hs_upload_total := 0\<rparr>) s"
  have "within_app s ?t" by (rule within_upd_hs) simp
  moreover have "within_app ?t (httpd_state_reset s)"
    by (rule within_same) (simp_all add: httpd_state_reset_def uip_inv_def uip_wf_def)
  ultimately show ?thesis by (rule within_trans)
qed

lemma within_reset_abort [simp]: "within_app s (reset_abort s)"
  unfolding reset_abort_def by (rule within_trans [OF within_reset within_flags(2)])

lemma within_send_chunk [simp]: "within_app s (send_chunk s)"
  unfolding send_chunk_def uip_send_def
  by (rule within_same) (auto simp: uip_inv_def uip_wf_def conn_inv_def hs_def cur_conn_def)

lemma within_set_app: "set_app j v s = Inr s' \<Longrightarrow> within_app s s'"
  unfolding within_app_def app_frame_def set_app_def cur_conn_def
  by (auto simp: uip_inv_def uip_wf_def conn_inv_def split: ptr.splits if_splits)

lemma within_serve [simp]: "within_app s (serve f s)"
  unfolding serve_def by (rule within_trans [OF within_upd_hs within_send_chunk]) simp

lemma within_advance [simp]: "within_app s (advance s)"
  unfolding advance_def by (rule within_trans [OF within_upd_hs within_send_chunk]) (simp add: data_ptr_add)

text \<open>\<open>strtok\<close> writes at or after the place it starts from.\<close>

lemma strtok_frame:
  assumes "strtok (b, saved) s ct = Inr ((b', saved'), tok)"
    and "\<And>q. s = Some q \<Longrightarrow> p \<le> q" and "\<And>q. s = None \<Longrightarrow> saved = Some q \<Longrightarrow> p \<le> q"
  shows "length b' = length b \<and> take p b' = take p b
     \<and> (\<forall>q. saved' = Some q \<longrightarrow> p \<le> q)"
proof -
  obtain start where st: "(if s \<noteq> None then s else saved) = start" by simp
  have le: "p \<le> q" if "start = Some q" for q using that st assms(2,3) by (cases s) auto
  show ?thesis
    using assms(1) st le assms(3)
    by (auto simp: strtok_def Let_def split: option.splits if_splits)
qed

lemma url_loop_frame:
  assumes "url_loop n (b, saved) tok = Inr (b', ts)" and "\<And>q. saved = Some q \<Longrightarrow> p \<le> q"
  shows "length b' = length b \<and> take p b' = take p b"
  using assms
proof (induction n arbitrary: b saved tok ts)
  case 0
  then show ?case by (cases tok) auto
next
  case (Suc n)
  show ?case
  proof (cases tok)
    case None
    then show ?thesis using Suc.prems by simp
  next
    case (Some t)
    then obtain b1 saved1 tok1 ts1 where st: "strtok (b, saved) None (cs ''&'') = Inr ((b1, saved1), tok1)"
      and rec: "url_loop n (b1, saved1) tok1 = Inr (b', ts1)"
      using Suc.prems(1) by auto
    have "length b1 = length b \<and> take p b1 = take p b \<and> (\<forall>q. saved1 = Some q \<longrightarrow> p \<le> q)"
      using strtok_frame [OF st, of p] Suc.prems(2) by auto
    then show ?thesis using Suc.IH [OF rec] by auto
  qed
qed

lemma parse_url_args_frame:
  assumes "parse_url_args b p n = Inr (b', ts)"
  shows "length b' = length b \<and> take p b' = take p b"
proof -
  obtain b1 saved1 tok where st: "strtok (b, None) (Some p) (cs ''&'') = Inr ((b1, saved1), tok)"
    and rec: "url_loop n (b1, saved1) tok = Inr (b', ts)"
    using assms by (auto simp: parse_url_args_def)
  have "length b1 = length b \<and> take p b1 = take p b \<and> (\<forall>q. saved1 = Some q \<longrightarrow> p \<le> q)"
    using strtok_frame [OF st, of p] by auto
  then show ?thesis using url_loop_frame [OF rec, of p] by auto
qed

lemma within_stack_reply [simp]: "within_app s (stack_reply r s)"
proof -
  let ?t = "httpd.more_update (\<lambda>_. snd r) s"
  have "within_app s ?t" by (rule within_same) (simp_all add: uip_inv_def uip_wf_def)
  then show ?thesis
    unfolding stack_reply_def Let_def
    by (rule within_trans [OF _ within_trans [OF within_upd_hs within_send_chunk]]) simp
qed

lemma within_buf:
  assumes "length b = length (uip_buf s)" and "uip_inv s \<Longrightarrow> take 54 b = take 54 (uip_buf s)"
  shows "within_app s (s\<lparr>uip_buf := b\<rparr>)"
  using assms unfolding within_app_def app_frame_def cur_conn_def
  by (auto simp: uip_inv_def uip_wf_def conn_inv_def)

lemma set_app_In_Buf: "set_app j v s = Inr s' \<Longrightarrow> uip_inv s' \<Longrightarrow> 54 \<le> buf_pos s'"
  by (auto simp: set_app_def buf_pos_def uip_inv_def uip_wf_def split: ptr.splits if_splits)

lemma take_shorter: "take n xs = take n ys \<Longrightarrow> m \<le> n \<Longrightarrow> take m xs = take m ys"
  by (drule arg_cong [where f = "take m"]) (simp add: min_def)

lemma within_get_macrw:
  assumes "get_macrw P s = Inr s'"
  shows "within_app s s'"
proof -
  obtain q where q: "strchr (drop 4 (appdata s)) 0x3f = Inr q"
    using assms by (auto simp: get_macrw_def)
  show ?thesis
  proof (cases q)
    case None
    then show ?thesis using assms q by (auto simp: get_macrw_def)
  next
    case (Some k)
    then obtain t r where t: "set_app (4 + k) 0 s = Inr t"
      and pr: "parse_url_args (uip_buf t) (buf_pos t + 4 + k + 1) 10 = Inr r"
      and s': "s' = stack_reply (macrw_handle P (argv r) (httpd.more t)) (t\<lparr>uip_buf := fst r\<rparr>)"
      using assms q unfolding get_macrw_def Let_def by auto
    have fr: "length (fst r) = length (uip_buf t)
        \<and> take (buf_pos t + 4 + k + 1) (fst r) = take (buf_pos t + 4 + k + 1) (uip_buf t)"
      using parse_url_args_frame [of _ _ _ "fst r" "snd r"] pr by simp
    have "take 54 (fst r) = take 54 (uip_buf t)" if "uip_inv t"
    proof -
      have "54 \<le> buf_pos t + 4 + k + 1" using set_app_In_Buf [OF t that] by simp
      then show ?thesis using fr take_shorter by blast
    qed
    then have "within_app t (t\<lparr>uip_buf := fst r\<rparr>)" using fr by (intro within_buf) auto
    then show ?thesis
      unfolding s' using within_set_app [OF t] within_stack_reply within_trans by blast
  qed
qed

lemma within_post_handler:
  assumes "post_handler h P s = Inr (Some s')"
  shows "within_app s s'"
  using assms by (auto simp: post_handler_def Let_def split: option.splits if_splits)

lemma within_file_request:
  assumes "file_request P s = Inr s'"
  shows "within_app s s'"
  using assms unfolding file_request_def
  by (auto split: option.splits intro: within_trans [OF within_set_app within_serve])

lemma within_firstchunk:
  assumes "httpd_findandstore_firstchunk s = Inr (found, s')"
  shows "within_app s s'"
proof -
  have k: "within_app s (s\<lparr>webfailsafe_upgrade_type := k\<rparr>)" for k
    by (rule within_same) (simp_all add: uip_inv_def uip_wf_def)
  have f: "within_app s (if b then s\<lparr>webfailsafe_upload_failed := True\<rparr> else s)" for b and s :: "'a httpd_scheme"
    by (rule within_same) (auto simp: uip_inv_def uip_wf_def)
  have h: "within_app s (upd_hs (\<lambda>h. h\<lparr>hs_upload_total := n\<rparr>) s)" "within_app s (upd_hs (\<lambda>h. h\<lparr>hs_upload := n\<rparr>) s)"
    for n and s :: "'a httpd_scheme"
    by (rule within_upd_hs; simp)+
  have r: "within_app s (s\<lparr>ram := m, webfailsafe_data_pointer := d\<rparr>)" for m d and s :: "'a httpd_scheme"
    by (rule within_same) (simp_all add: uip_inv_def uip_wf_def)
  have all: "within_app s (httpd_download_progress ((upd_hs (\<lambda>h. h\<lparr>hs_upload := up\<rparr>)
      (if b then (upd_hs (\<lambda>h. h\<lparr>hs_upload_total := total\<rparr>) (s\<lparr>webfailsafe_upgrade_type := k\<rparr>))\<lparr>webfailsafe_upload_failed := True\<rparr>
       else upd_hs (\<lambda>h. h\<lparr>hs_upload_total := total\<rparr>) (s\<lparr>webfailsafe_upgrade_type := k\<rparr>)))
      \<lparr>ram := m, webfailsafe_data_pointer := d\<rparr>))" for k up b total m d
    by (rule within_trans [OF k within_trans [OF h(1) within_trans [OF f within_trans [OF h(2)
          within_trans [OF r within_progress]]]]])
  show ?thesis
    using assms all [where b = True] all [where b = False] k
    unfolding httpd_findandstore_firstchunk_def Let_def
    by (auto split: option.splits if_splits)
qed

lemma within_upload_boundary:
  assumes "upload_boundary P s = Inr s'"
  shows "within_app s s'"
proof -
  have a: "within_app s (s\<lparr>boundary_value := b, webfailsafe_data_pointer := d\<rparr>)" for b d
    by (rule within_same) (simp_all add: uip_inv_def uip_wf_def)
  have f: "within_app s (s\<lparr>data_start_found := b\<rparr>)" for b and s :: "'a httpd_scheme"
    by (rule within_same) (simp_all add: uip_inv_def uip_wf_def)
  have "within_app s (t\<lparr>data_start_found := found\<rparr>)"
    if "httpd_findandstore_firstchunk (s\<lparr>boundary_value := b, webfailsafe_data_pointer := d\<rparr>) = Inr (found, t)"
    for b d found t
    by (rule within_trans [OF a within_trans [OF within_firstchunk [OF that] f]])
  then show ?thesis
    using assms unfolding upload_boundary_def Let_def by (auto split: option.splits if_splits)
qed

lemma within_upload_request:
  assumes "upload_request P s = Inr s'"
  shows "within_app s s'"
proof -
  have h: "within_app s (upd_hs (\<lambda>h. h\<lparr>hs_upload_total := n\<rparr>) s)" for n and s :: "'a httpd_scheme"
    by (rule within_upd_hs) simp
  have "within_app t s'" if "upload_boundary P (upd_hs (\<lambda>h. h\<lparr>hs_upload_total := n\<rparr>) t) = Inr s'" for t n
    by (rule within_trans [OF h within_upload_boundary [OF that]])
  moreover have "within_app t (reset_abort (upd_hs (\<lambda>h. h\<lparr>hs_upload_total := n\<rparr>) t))" for t :: "'a httpd_scheme" and n
    by (rule within_trans [OF h within_reset_abort])
  moreover obtain t where t: "set_app (unat (uip_len s)) 0 s = Inr t"
    using assms unfolding upload_request_def by auto
  ultimately have "within_app t s'"
    using assms unfolding upload_request_def Let_def by (auto split: option.splits if_splits)
  then show ?thesis using within_set_app [OF t] within_trans by blast
qed

lemma within_upload_done:
  assumes "upload_done P s = Inr s'"
  shows "within_app s s'"
proof -
  have "within_app s (s\<lparr>webfailsafe_post_done := True, NetBootFileXferSize := n\<rparr>)" for n
    by (rule within_same) (simp_all add: uip_inv_def uip_wf_def)
  then have "within_app s (serve f (httpd_state_reset (s\<lparr>webfailsafe_post_done := True, NetBootFileXferSize := n\<rparr>)))" for f n
    using within_trans within_reset within_serve by blast
  then show ?thesis using assms unfolding upload_done_def Let_def by auto
qed

lemma within_upload_data:
  assumes "upload_data P s = Inr s'"
  shows "within_app s s'"
proof -
  obtain t where t: "set_app (unat (uip_len s)) 0 s = Inr t"
    using assms unfolding upload_data_def by auto
  have f: "within_app u (u\<lparr>data_start_found := b\<rparr>)" for b and u :: "'a httpd_scheme"
    by (rule within_same) (simp_all add: uip_inv_def uip_wf_def)
  have r: "within_app u (u\<lparr>ram := m, webfailsafe_data_pointer := d\<rparr>)" for m d and u :: "'a httpd_scheme"
    by (rule within_same) (simp_all add: uip_inv_def uip_wf_def)
  have h: "within_app u (upd_hs (\<lambda>h. h\<lparr>hs_upload := hs_upload h + n\<rparr>) u)" for n and u :: "'a httpd_scheme"
    by (rule within_upd_hs) simp
  have "within_app t s'"
  proof (cases "data_start_found t")
    case False
    then obtain found u where u: "httpd_findandstore_firstchunk t = Inr (found, u)"
      "s' = (if found then u\<lparr>data_start_found := True\<rparr> else reset_abort u)"
      using assms t unfolding upload_data_def by (auto split: if_splits)
    then show ?thesis
      using within_trans [OF within_firstchunk [OF u(1)]] f [of u] by simp
  next
    case True
    let ?u = "upd_hs (\<lambda>h. h\<lparr>hs_upload := hs_upload h + ucast (uip_len t)\<rparr>) t"
    obtain v where v: "store_data ?u = Inr v"
      "upload_done P (httpd_download_progress v) = Inr s' \<or> httpd_download_progress v = s'"
      using assms t True unfolding upload_data_def Let_def by (auto split: option.splits if_splits)
    have "within_app ?u v" using v(1) r by (auto simp: store_data_def split: if_splits)
    then have "within_app t (httpd_download_progress v)"
      using within_trans [OF h] within_progress within_trans by blast
    then show ?thesis using v within_upload_done within_trans by blast
  qed
  then show ?thesis using within_set_app [OF t] within_trans by blast
qed

lemma within_new_request:
  assumes "new_request P s = Inr s'"
  shows "within_app s s'"
proof -
  have h: "within_app s t" if "within_app (upd_hs (hs_state_update (\<lambda>_. st)) s) t" for st t
    by (rule within_trans [OF within_upd_hs that]) simp
  show ?thesis
    using assms unfolding new_request_def Let_def
    by (auto split: if_splits option.splits
        dest!: within_get_macrw within_file_request within_post_handler within_upload_request h)
qed

lemma within_acked: "within_app s (acked s)"
proof -
  have d: "within_app s (s\<lparr>webfailsafe_ready_for_upgrade := a, webfailsafe_post_done := b, webfailsafe_upload_failed := c\<rparr>)"
    "within_app s (s\<lparr>webfailsafe_post_done := b, webfailsafe_upload_failed := c\<rparr>)" for a b c
    by (rule within_same; simp add: uip_inv_def uip_wf_def)+
  have m: "within_app (uip_close (httpd_state_reset s)) (upd_hs (\<lambda>h. h\<lparr>is_macrw_resp := 0\<rparr>) (uip_close (httpd_state_reset s)))"
    by (rule within_upd_hs) simp
  have rc: "within_app t (uip_close (httpd_state_reset t))" for t :: "'a httpd_scheme"
    by (rule within_trans [OF within_reset within_flags(1)])
  show ?thesis
    unfolding acked_def Let_def
    by (auto intro: within_trans [OF rc m] within_trans [OF d(1) rc] within_trans [OF d(2) rc] rc)
qed

lemma httpd_appcall_within:
  assumes "httpd_appcall P s = Inr s'"
  shows "within_app s s'"
proof -
  have c: "within_app s (upd_hs (\<lambda>h. h\<lparr>hs_count := hs_count h + 1\<rparr>) s)"
    by (rule within_upd_hs) simp
  show ?thesis
    using assms within_acked within_new_request within_upload_data
    unfolding httpd_appcall_def Let_def
    by (auto split: if_splits intro: c within_trans [OF c within_reset_abort]
        within_trans [OF within_reset within_flags(1)])
qed

interpretation web: uip_app "httpd_appcall P" for P :: "'a site"
proof
  fix s s' :: "'a httpd_scheme"
  assume "uip_inv s" and "httpd_appcall P s = Inr s'"
  then show "app_frame s s'" using httpd_appcall_within by (auto simp: within_app_def)
qed

end
