(* ===== verification/Uip_Props.thy ===== *)
theory Uip_Props
  imports Httpd_App
begin

text \<open>
  The properties of the TCP/IP stack that runs the web server: what \<open>uip_process\<close> does with the
  callback \<open>httpd_appcall\<close>, on every input packet and timer event.
\<close>

section \<open>Concrete states\<close>

text \<open>The state after power-up: cleared memory, and the server listening at 192.168.1.1:80.\<close>

definition boot_conn :: uip_conn where
  "boot_conn = \<lparr>ripaddr = (0, 0), lport = 0, rport = 0, rcv_nxt = (0, 0, 0, 0), snd_nxt = (0, 0, 0, 0),
     clen = 0, mss = 0, initialmss = 0, sa = 0, sv = 0, rto = 0, tcpstateflags = CLOSED, timer = 0, nrtx = 0,
     appstate = \<lparr>hs_state = 0, hs_count = 0, hs_dataptr = Null, hs_upload = 0, hs_upload_total = 0,
       is_macrw_resp = 0, macrw_buf = Null, macrw_len = 0\<rparr>\<rparr>"

definition boot_state :: httpd where
  "boot_state = \<lparr>uip_hostaddr = (0xa8c0, 0x0101), uip_buf = replicate 1502 0, uip_appdata = Null,
     uip_sappdata = Null, uip_urgdata = Null, uip_urglen = 0, uip_len = 0, uip_slen = 0, uip_flags = 0,
     uip_conn_ix = 0, uip_conns = [boot_conn, boot_conn], uip_listenports = [htons 80], ipid = 0,
     iss = (0, 0, 0, 0), uip_objs = [], webfailsafe_ready_for_upgrade = False,
     webfailsafe_upgrade_type = Type_Firmware, NetBootFileXferSize = 0, webfailsafe_data_pointer = 0,
     webfailsafe_post_done = False, webfailsafe_upload_failed = False, data_start_found = False,
     post_packet_counter = 0, post_line_counter = 0, boundary_value = None, ram = (\<lambda>_. 0)\<rparr>"

lemma boot_state_inv: "uip_inv boot_state"
proof -
  have "conn_inv boot_conn" by (simp add: conn_inv_def boot_conn_def)
  then show ?thesis
    by (auto simp: uip_inv_def uip_wf_def boot_state_def less_2_cases_iff)
qed

definition no_site :: "unit site" where
  "no_site = \<lparr>fs_files = [], fs_strict = True,
     file_index_html = \<lparr>ff_name = [0], ff_obj = 0, ff_len = 0\<rparr>, file_404_html = \<lparr>ff_name = [0], ff_obj = 0, ff_len = 0\<rparr>,
     file_flashing_html = \<lparr>ff_name = [0], ff_obj = 0, ff_len = 0\<rparr>, file_fail_html = \<lparr>ff_name = [0], ff_obj = 0, ff_len = 0\<rparr>,
     malloc = (\<lambda>_. True), macrw_handle = (\<lambda>_ u. (0, u)), setenv_handle = (\<lambda>_ u. (0, u))\<rparr>"

section \<open>Invariant and output\<close>


lemma uip_timer_boot: "uip_process app UIP_TIMER boot_state =
    Inr (boot_state\<lparr>uip_appdata := In_Buf 54, iss := (0, 0, 0, 1), uip_len := 0\<rparr>)"
  by (simp add: uip_process_def uip_timer_def Let_def boot_state_def boot_conn_def drop_packet_def)


text \<open>C2: every packet the stack hands to the driver carries a correct IP header checksum, its own
  length, and, if it is a TCP segment, a correct TCP checksum and between 40 and 1486 bytes.\<close>

theorem uip_process_output_checksums:
  assumes "uip_inv s" and "uip_process (httpd_appcall P) flag s = Inr s'" and "uip_len s' \<noteq> 0"
  shows "uip_ipchksum s' = 0xffff \<and> BUF_iplen (uip_buf s') = uip_len s'
     \<and> (BUF_proto (uip_buf s') = UIP_PROTO_TCP \<longrightarrow> uip_tcpchksum s' = Inr 0xffff \<and> 40 \<le> uip_len s' \<and> uip_len s' \<le> 1486)"
  using web.uip_process_processed [OF assms(2,1)] assms(3) unfolding processed_def well_sent_def by blast

lemma tcp_send_noconn_total:
  assumes "read_mem s (uip_appdata s) (unat (uip_len s - 40)) = Inr d" and "length (uip_buf s) = 1502"
    and "uip_appdata s = In_Buf 54"
  shows "\<exists>s'. tcp_send_noconn s = Inr s'"
proof -
  let ?b = "st16 50 0 ((uip_buf s)[16 := hi8 (uip_len s), 17 := lo8 (uip_len s)])"
  have iplen: "BUF_iplen ?b = uip_len s" using assms(2) by (simp add: BUF_iplen_def)
  have "read_mem (s\<lparr>uip_buf := ?b\<rparr>) (In_Buf 54) n = read_mem s (In_Buf 54) n" for n
    by (rule read_mem_cong) (use assms(2) in simp_all)
  then have "read_mem (s\<lparr>uip_buf := ?b\<rparr>) (uip_appdata s) (unat (BUF_iplen ?b - 40)) = Inr d"
    using assms(1,3) iplen by simp
  then obtain w where "uip_tcpchksum (s\<lparr>uip_buf := ?b\<rparr>) = Inr w"
    using uip_tcpchksum_Inr [of "s\<lparr>uip_buf := ?b\<rparr>" d] by auto
  then show ?thesis by (simp add: tcp_send_noconn_def Let_def ip_send_nolen_def)
qed

lemma tcp_send_synack_total:
  assumes "length (uip_buf s) = 1502" and "uip_appdata s = In_Buf 54"
  shows "\<exists>s'. tcp_send_synack k s = Inr s'"
proof -
  obtain b where b: "tcp_send_synack k s = tcp_send_noconn (s\<lparr>uip_len := 44, uip_buf := b\<rparr>)" "length b = 1502"
    using assms(1) by (simp add: tcp_send_synack_def tcp_send_def Let_def)
  have "\<exists>d. read_mem (s\<lparr>uip_len := 44, uip_buf := b\<rparr>) (In_Buf 54) 4 = Inr d"
    using b(2) by (simp add: numeral_eq_Suc)
  then show ?thesis
    using b assms(2) tcp_send_noconn_total [of "s\<lparr>uip_len := 44, uip_buf := b\<rparr>"] by auto
qed

text \<open>A half-open connection whose retransmission timer has run out.\<close>

definition half_open :: httpd where
  "half_open = boot_state\<lparr>uip_conns := [boot_conn\<lparr>tcpstateflags := SYN_RCVD, clen := 1, lport := htons 80\<rparr>, boot_conn]\<rparr>"

lemma half_open_inv: "uip_inv half_open"
  by (auto simp: half_open_def uip_inv_def uip_wf_def boot_state_def boot_conn_def conn_inv_def less_2_cases_iff)

lemma half_open_sends:
  "\<exists>s'. uip_process (httpd_appcall P) UIP_TIMER half_open = Inr s' \<and> uip_len s' = 44
      \<and> uip_buf s' ! 23 = 6"
proof -
  obtain t where t: "uip_process (httpd_appcall P) UIP_TIMER half_open = tcp_send_synack 0 t"
    "length (uip_buf t) = 1502" "uip_appdata t = In_Buf 54"
    by (simp add: uip_process_def uip_timer_def Let_def half_open_def boot_state_def boot_conn_def)
  obtain s' where s': "tcp_send_synack 0 t = Inr s'" using tcp_send_synack_total [OF t(2,3)] by blast
  have "emits_tcp 44 t s'" by (rule tcp_send_synack_emits [OF s']) (use t in simp)
  then show ?thesis using t(1) s' by auto
qed

theorem uip_process_output_checksums_witness:
  "\<exists>s'. uip_process (httpd_appcall no_site) UIP_TIMER half_open = Inr s'
     \<and> uip_ipchksum s' = 0xffff \<and> uip_tcpchksum s' = Inr 0xffff"
proof -
  obtain s' where s': "uip_process (httpd_appcall no_site) UIP_TIMER half_open = Inr s'"
    "uip_len s' = 44" "uip_buf s' ! 23 = 6"
    using half_open_sends by blast
  then show ?thesis using uip_process_output_checksums [OF half_open_inv s'(1)] by auto
qed

section \<open>Input\<close>

text \<open>C3: a TCP segment whose checksum does not verify is dropped: nothing is sent and no
  connection changes.\<close>

theorem bad_tcp_checksum_dropped:
  assumes "uip_tcpchksum (s\<lparr>uip_appdata := In_Buf 54\<rparr>) = Inr c" and "c \<noteq> 0xffff"
    and "BUF_proto (uip_buf s) = UIP_PROTO_TCP"
    and "uip_process app UIP_DATA s = Inr s'"
  shows "uip_len s' = 0 \<and> uip_conns s' = uip_conns s \<and> uip_buf s' = uip_buf s"
proof -
  let ?t = "s\<lparr>uip_appdata := In_Buf 54, uip_len := BUF_iplen (uip_buf s)\<rparr>"
  have "read_mem (v\<lparr>uip_len := n\<rparr>) p k = read_mem v p k" for v :: "'a uip_state_scheme" and n p k
    by (cases "(v, p, k)" rule: read_mem.cases) simp_all
  then have "uip_tcpchksum ?t = Inr c"
    using assms(1) by (simp add: uip_tcpchksum_def)
  then show ?thesis
    using assms(2-4)
    by (auto simp: uip_process_def ip_input_eq Let_def tcp_input_def drop_packet_def split: if_splits)
qed

theorem bad_tcp_checksum_dropped_witness:
  "\<exists>s'. uip_process (httpd_appcall no_site) UIP_DATA (boot_state\<lparr>uip_buf := (replicate 1502 0)[17 := 40, 23 := 6]\<rparr>) = Inr s'
     \<and> uip_len s' = 0 \<and> uip_conns s' = [boot_conn, boot_conn]"
proof -
  let ?s = "boot_state\<lparr>uip_buf := (replicate 1502 0)[17 := 40, 23 := 6]\<rparr>"
  have z: "uip_chksum (bytes_at (replicate 1502 0) i n) = 0" for i n
    by (auto simp: uip_chksum_eq_0_iff bytes_at_def)
  have "uip_tcpchksum (?s\<lparr>uip_appdata := In_Buf 54\<rparr>) = Inr 0x1a00"
    by (simp add: uip_tcpchksum_def Let_def BUF_iplen_def le16_def z uip_chksum_def [of "[]"] ld16_def
        ones_add_def htons_def lo8_def hi8_def boot_state_def)
  moreover obtain s' where "uip_process (httpd_appcall no_site) UIP_DATA ?s = Inr s'"
    by (simp add: uip_process_def ip_input_def Let_def drop_packet_def)
  ultimately show ?thesis
    using bad_tcp_checksum_dropped [of ?s "0x1a00" "httpd_appcall no_site" s'] by (simp add: boot_state_def)
qed

text \<open>C4: data is delivered in order only: a segment of a connection that carries data but does not
  start at the next expected sequence number changes no connection and is not shown to the
  application; it is answered with an acknowledgement of what has been received.\<close>

theorem out_of_order_data_refused:
  assumes "uip_conns s ! k = c" and "k < length (uip_conns s)" and "length (uip_buf s) = UIP_BUF_BYTES"
    and "BUF_flags (uip_buf s) AND TCP_RST = 0"
    and "uip_len s - ucast (push_bit 2 (drop_bit 4 (BUF_tcpoffset (uip_buf s)))) - 20 > 0"
    and "BUF_seqno (uip_buf s) \<noteq> rcv_nxt c"
    and "tcp_found app k s = Inr s'"
  shows "uip_conns s' = uip_conns s \<and> uip_len s' = 40 \<and> BUF_flags (uip_buf s') = TCP_ACK
     \<and> BUF_ackno (uip_buf s') = rcv_nxt c"
proof -
  let ?t = "s\<lparr>uip_conn_ix := k, uip_flags := 0,
              uip_len := uip_len s - ucast (push_bit 2 (drop_bit 4 (BUF_tcpoffset (uip_buf s)))) - 20\<rparr>"
  have "tcp_send_ack k ?t = Inr s'"
    using assms unfolding tcp_found_def Let_def by simp
  then show ?thesis
    using assms(1-3)
    by (auto simp: tcp_send_ack_def tcp_send_nodata_def tcp_send_noopts_def tcp_send_def tcp_send_noconn_def
        ip_send_nolen_def Let_def)
qed

lemma tcp_send_ack_total:
  assumes "length (uip_buf s) = 1502"
  shows "\<exists>s'. tcp_send_ack k s = Inr s'"
proof -
  obtain b where b: "tcp_send_ack k s = tcp_send_noconn (s\<lparr>uip_len := 40, uip_buf := b\<rparr>)" "length b = 1502"
    using assms by (simp add: tcp_send_ack_def tcp_send_nodata_def tcp_send_noopts_def tcp_send_def Let_def)
  have "BUF_iplen (st16 50 0 (b[16 := hi8 40, 17 := lo8 40])) = 40" using b(2) by (simp add: BUF_iplen_def)
  then show ?thesis
    unfolding b(1) tcp_send_noconn_def Let_def ip_send_nolen_def uip_tcpchksum_def by simp
qed

definition open_conn :: httpd where
  "open_conn = boot_state\<lparr>uip_conns := [boot_conn\<lparr>tcpstateflags := ESTABLISHED, rcv_nxt := (0, 0, 0, 1), lport := htons 80\<rparr>, boot_conn],
     uip_buf := (replicate 1502 0)[46 := 0x50], uip_len := 50\<rparr>"

theorem out_of_order_data_refused_witness:
  "\<exists>s'. tcp_found (httpd_appcall no_site) 0 open_conn = Inr s' \<and> uip_conns s' = uip_conns open_conn \<and> uip_len s' = 40"
proof -
  have h: "0 < length (uip_conns open_conn)" "length (uip_buf open_conn) = UIP_BUF_BYTES"
    "BUF_flags (uip_buf open_conn) AND TCP_RST = 0"
    "uip_len open_conn - ucast (push_bit 2 (drop_bit 4 (BUF_tcpoffset (uip_buf open_conn)))) - 20 > 0"
    "BUF_seqno (uip_buf open_conn) \<noteq> rcv_nxt (uip_conns open_conn ! 0)"
    by (simp_all add: open_conn_def boot_state_def ld4_def)
  obtain t where t: "tcp_found (httpd_appcall no_site) 0 open_conn = tcp_send_ack 0 t" "length (uip_buf t) = 1502"
    using h unfolding tcp_found_def Let_def by simp
  obtain s' where "tcp_send_ack 0 t = Inr s'" using tcp_send_ack_total [OF t(2)] by blast
  then show ?thesis using out_of_order_data_refused [OF refl h, of "httpd_appcall no_site" s'] t(1) by auto
qed

text \<open>C5: a segment that belongs to no connection and carries RST is never answered.\<close>

theorem no_reset_for_reset:
  assumes "BUF_flags (uip_buf s) AND TCP_RST \<noteq> 0" and "tcp_input app s = Inr s'"
    and "\<forall>k<UIP_CONNS. \<not> conn_matches (uip_buf s) (uip_conns s ! k)"
  shows "uip_len s' = 0 \<and> uip_conns s' = uip_conns s"
proof -
  have "find (\<lambda>k. conn_matches (uip_buf s) (uip_conns s ! k)) [0..<UIP_CONNS] = None"
    using assms(3) by (simp add: find_None_iff)
  moreover have "BUF_flags (uip_buf s) AND TCP_CTL \<noteq> TCP_SYN"
  proof
    assume syn: "BUF_flags (uip_buf s) AND TCP_CTL = TCP_SYN"
    have "BUF_flags (uip_buf s) AND TCP_RST = (BUF_flags (uip_buf s) AND TCP_CTL) AND TCP_RST"
      by (simp add: and.assoc)
    then show False using assms(1) syn by simp
  qed
  ultimately show ?thesis
    using assms(1,2) by (auto simp: tcp_input_def Let_def tcp_reset_def drop_packet_def split: if_splits)
qed

theorem no_reset_for_reset_witness:
  "\<exists>s'. tcp_input (httpd_appcall no_site) (boot_state\<lparr>uip_buf := (replicate 1502 0)[17 := 40, 47 := 0x04],
       uip_appdata := In_Buf 54\<rparr>) = Inr s' \<and> uip_len s' = 0"
proof -
  let ?s = "boot_state\<lparr>uip_buf := (replicate 1502 0)[17 := 40, 47 := 0x04], uip_appdata := In_Buf 54\<rparr>"
  have f: "BUF_flags (uip_buf ?s) AND TCP_RST \<noteq> 0" by simp
  have m: "\<forall>k<UIP_CONNS. \<not> conn_matches (uip_buf ?s) (uip_conns ?s ! k)"
    by (simp add: conn_matches_def boot_state_def boot_conn_def less_2_cases_iff)
  have ctl: "BUF_flags (uip_buf ?s) AND TCP_CTL \<noteq> TCP_SYN" by simp
  have reset: "tcp_reset ?s = drop_packet ?s" unfolding tcp_reset_def Let_def using f by (rule if_P)
  have fn: "find (\<lambda>k. conn_matches (uip_buf ?s) (uip_conns ?s ! k)) [0..<UIP_CONNS] = None"
    using m by (simp add: find_None_iff)
  have "BUF_iplen (uip_buf ?s) - 40 = 0" by (simp add: BUF_iplen_def le16_def)
  then obtain c where c: "uip_tcpchksum ?s = Inr c"
    unfolding uip_tcpchksum_def Let_def by simp
  obtain s' where "tcp_input (httpd_appcall no_site) ?s = Inr s'"
    unfolding tcp_input_def Let_def c fn bind_result_simps option.case if_P [OF ctl] reset drop_packet_def
    by (cases "c \<noteq> 0xffff") auto
  then show ?thesis using no_reset_for_reset [OF f _ m, of "httpd_appcall no_site" s'] by blast
qed

section \<open>The options of a SYN\<close>

text \<open>One round of the option loop: the next value of the counter, if the loop goes on.\<close>

definition opt_next :: "u8 list \<Rightarrow> nat \<Rightarrow> u8 \<Rightarrow> u8 option" where
  "opt_next b bound c =
     (if unat c < bound then
        let opt = b ! (54 + unat c)
        in if opt = 0x00 then None
           else if opt = 0x01 then Some (c + 1)
           else if opt = 0x02 \<and> b ! (55 + unat c) = 0x04 then None
           else if b ! (55 + unat c) = 0 then None
           else Some (c + b ! (55 + unat c))
      else None)"

fun opt_iter :: "u8 list \<Rightarrow> nat \<Rightarrow> nat \<Rightarrow> u8 \<Rightarrow> u8 option" where
  "opt_iter b bound 0 c = Some c"
| "opt_iter b bound (Suc n) c = Option.bind (opt_next b bound c) (opt_iter b bound n)"

lemma mss_options_next:
  "opt_next b bound c = Some c' \<Longrightarrow> mss_options (Suc n) b bound c = mss_options n b bound c'"
  by (auto simp: opt_next_def Let_def split: if_splits)

lemma mss_options_stop:
  "opt_next b bound c = None \<Longrightarrow> mss_options (Suc n) b bound c = mss_options 1 b bound c
     \<and> mss_options (Suc n) b bound c \<noteq> Inl Non_Termination"
  by (auto simp: opt_next_def Let_def split: if_splits)

lemma mss_options_iter:
  "mss_options n b bound c = Inl Non_Termination \<longleftrightarrow> opt_iter b bound n c \<noteq> None"
proof (induction n arbitrary: c)
  case (Suc n)
  show ?case
  proof (cases "opt_next b bound c")
    case None
    then show ?thesis using mss_options_stop [OF None, of n] by (auto simp del: mss_options.simps)
  next
    case (Some c')
    then show ?thesis using Suc mss_options_next [OF Some, of n] by (simp del: mss_options.simps)
  qed
qed simp

lemma mss_options_more_fuel:
  "opt_iter b bound n c = None \<Longrightarrow> mss_options (n + m) b bound c = mss_options n b bound c"
proof (induction n arbitrary: c)
  case (Suc n)
  show ?case
  proof (cases "opt_next b bound c")
    case None
    then show ?thesis using mss_options_stop [OF None, of n] mss_options_stop [OF None, of "n + m"]
      by (simp del: mss_options.simps)
  next
    case (Some c')
    then show ?thesis
      using Suc mss_options_next [OF Some, of n] mss_options_next [OF Some, of "n + m"]
      by (simp del: mss_options.simps)
  qed
qed simp

lemma opt_iter_add: "opt_iter b bound (m + n) c = Option.bind (opt_iter b bound m c) (opt_iter b bound n)"
proof (induction m arbitrary: c)
  case (Suc m)
  then show ?case by (cases "opt_next b bound c") simp_all
qed simp

lemma opt_iter_repeats:
  assumes "opt_iter b bound 256 c \<noteq> None"
  shows "opt_iter b bound n c \<noteq> None"
proof -
  let ?it = "\<lambda>n. opt_iter b bound n c"
  have def: "?it i \<noteq> None" if "i \<le> 256" for i
    using assms opt_iter_add [of b bound i "256 - i" c] that by (cases "?it i") auto
  have "\<not> inj_on ?it {..256}"
  proof
    assume inj: "inj_on ?it {..256}"
    have "?it ` {..256} \<subseteq> range Some" using def by (auto simp: image_subset_iff)
    then have "card (?it ` {..256}) \<le> card (range (Some :: u8 \<Rightarrow> u8 option))" by (intro card_mono) auto
    also have "\<dots> = 256" by (simp add: card_image card_word)
    finally show False using card_image [OF inj] by simp
  qed
  then obtain i j where ij: "i < j" "j \<le> 256" "?it i = ?it j"
    unfolding inj_on_def by (metis atMost_iff linorder_neqE_nat)
  have shift: "?it (i + k) = ?it (j + k)" for k
    using ij(3) by (simp add: opt_iter_add)
  show ?thesis
  proof (induction n rule: less_induct)
    case (less n)
    show ?case
    proof (cases "n \<le> 256")
      case True
      then show ?thesis using def by blast
    next
      case False
      then have "?it n = ?it (i + (n - j))" using shift [of "n - j"] ij by simp
      then show ?thesis using less [of "i + (n - j)"] ij False by simp
    qed
  qed
qed



text \<open>C7: a SYN whose options are a NOP followed by an unknown option of length 255 makes the loop run
  forever: the counter is a byte, and 1 + 255 is 0 again.\<close>

theorem syn_options_hang:
  assumes "b ! 54 = 0x01" and "b ! 55 = 0x05" and "b ! 56 = 0xff" and "BUF_tcpoffset b = 0x60"
  shows "parse_mss b = Inl Non_Termination"
proof -
  let ?bound = "4 :: nat"
  have n0: "opt_next b ?bound 0 = Some 1" and n1: "opt_next b ?bound 1 = Some 0"
    using assms(1-3) by (simp_all add: opt_next_def)
  have "opt_iter b ?bound n 0 \<noteq> None \<and> opt_iter b ?bound n 1 \<noteq> None" for n
    by (induction n) (simp_all add: n0 n1)
  then show ?thesis using assms(4) by (simp add: parse_mss_def mss_options_iter del: mss_options.simps)
qed

theorem syn_options_hang_witness:
  "parse_mss ((replicate 60 0)[46 := 0x60, 54 := 0x01, 55 := 0x05, 56 := 0xff]) = Inl Non_Termination"
  using syn_options_hang [of "(replicate 60 0)[46 := 0x60, 54 := 0x01, 55 := 0x05, 56 := 0xff]"] by simp

end
