(* ===== verification/Uip_Live.thy ===== *)
theory Uip_Live
  imports Uip_Props
begin

text \<open>
  A connection that is not open does not stay in the table for ever: with no packet arriving, the
  timer alone closes it.  A tick is one call of \<open>uip_periodic\<close> for the connection.
\<close>

fun ticks :: "'a app \<Rightarrow> nat \<Rightarrow> nat \<Rightarrow> 'a uip_state_scheme \<Rightarrow> 'a uip_state_scheme result" where
  "ticks app k 0 s = Inr s"
| "ticks app k (Suc n) s = bind_result (uip_periodic app k s) (ticks app k n)"

text \<open>The number of ticks until the timer closes the connection.\<close>

definition backoff :: "nat \<Rightarrow> nat" where
  "backoff n = 3 * 2 ^ min n 4"

fun rexmit_left :: "nat \<Rightarrow> nat \<Rightarrow> nat" where
  "rexmit_left 0 n = 0"
| "rexmit_left (Suc m) n = backoff n + 1 + rexmit_left m (Suc n)"

definition max_rexmit :: "uip_conn \<Rightarrow> nat" where
  "max_rexmit c = (if tcpstateflags c = SYN_RCVD then 3 else 8)"

definition life :: "uip_conn \<Rightarrow> nat" where
  "life c =
     (if tcpstateflags c = TIME_WAIT \<or> tcpstateflags c = FIN_WAIT_2 then unat (119 - timer c)
      else unat (timer c) + rexmit_left (max_rexmit c - unat (nrtx c)) (unat (nrtx c)))"

lemma rexmit_left_bound: "rexmit_left (m - n) n \<le> rexmit_left m 0"
  if "n \<le> m" for n m
  using that
proof (induction n)
  case (Suc n)
  then have "rexmit_left (m - n) n = backoff n + 1 + rexmit_left (m - Suc n) (Suc n)"
    by (metis Suc_diff_Suc Suc_le_lessD rexmit_left.simps(2))
  then show ?case using Suc by simp
qed simp

lemma life_bound: "conn_inv c \<Longrightarrow> life c < 512"
proof -
  assume inv: "conn_inv c"
  have t: "unat (timer c) < 256" "unat (119 - timer c) < 256" by (rule u8_less)+
  have "unat (nrtx c) \<le> max_rexmit c"
    using inv by (auto simp: conn_inv_def max_rexmit_def word_le_nat_alt)
  then have "rexmit_left (max_rexmit c - unat (nrtx c)) (unat (nrtx c)) \<le> rexmit_left (max_rexmit c) 0"
    by (rule rexmit_left_bound)
  also have "\<dots> \<le> 245"
    by (simp add: max_rexmit_def numeral_eq_Suc backoff_def)
  finally show ?thesis using t by (simp add: life_def)
qed

lemma push_backoff: "unat (push_bit (unat (if 4 < n then 4 else n)) (3 :: u8)) = backoff (unat (n :: u8))"
proof -
  have "unat (if 4 < n then 4 else n) = min (unat n) 4"
    by (simp add: word_less_nat_alt min_def)
  moreover have "unat (push_bit m (3 :: u8)) = 3 * 2 ^ m" if "m \<le> 4" for m
  proof -
    from that have "m \<in> {0, 1, 2, 3, 4}" by auto
    then show ?thesis by auto
  qed
  ultimately show ?thesis by (simp add: backoff_def)
qed

lemma unat_dec: "(w :: u8) \<noteq> 0 \<Longrightarrow> unat (w - 1) < unat w"
  by (simp add: unat_minus_one) (simp add: unat_gt_0)

lemma life_tick_wait:
  assumes "tcpstateflags c = TIME_WAIT \<or> tcpstateflags c = FIN_WAIT_2" and "timer c + 1 \<noteq> 120"
  shows "life (c\<lparr>timer := timer c + 1\<rparr>) < life c"
proof -
  have "119 - timer c \<noteq> 0" using assms(2) by auto
  moreover have "119 - (timer c + 1) = (119 - timer c) - 1" by simp
  ultimately have "unat (119 - (timer c + 1)) < unat (119 - timer c)" using unat_dec by metis
  then show ?thesis using assms(1) by (auto simp: life_def)
qed

lemma life_tick_count:
  assumes "tcpstateflags c \<noteq> TIME_WAIT" and "tcpstateflags c \<noteq> FIN_WAIT_2" and "timer c \<noteq> 0"
  shows "life (c\<lparr>timer := timer c - 1\<rparr>) < life c"
  using assms unat_dec [OF assms(3)] by (simp add: life_def max_rexmit_def)

lemma life_tick_rexmit:
  assumes "tcpstateflags c \<noteq> TIME_WAIT" and "tcpstateflags c \<noteq> FIN_WAIT_2" and "timer c = 0"
    and "unat (nrtx c) < max_rexmit c"
  shows "life (c\<lparr>timer := push_bit (unat (if 4 < nrtx c then 4 else nrtx c)) UIP_RTO, nrtx := nrtx c + 1\<rparr>) < life c"
proof -
  have n: "unat (nrtx c + 1) = unat (nrtx c) + 1"
    using assms(4) by (simp add: unat_word_ariths max_rexmit_def split: if_splits)
  have "rexmit_left (max_rexmit c - unat (nrtx c)) (unat (nrtx c))
      = backoff (unat (nrtx c)) + 1 + rexmit_left (max_rexmit c - (unat (nrtx c) + 1)) (unat (nrtx c) + 1)"
    using assms(4) by (metis Suc_diff_Suc Suc_eq_plus1 rexmit_left.simps(2))
  then show ?thesis
    using assms(1-3) n push_backoff [of "nrtx c"] by (simp add: life_def max_rexmit_def)
qed

lemma tcp_send_nodata_total:
  assumes "length (uip_buf s) = 1502"
  shows "\<exists>s'. tcp_send_nodata k s = Inr s'"
proof -
  obtain b where b: "tcp_send_nodata k s = tcp_send_noconn (s\<lparr>uip_len := 40, uip_buf := b\<rparr>)" "length b = 1502"
    using assms by (simp add: tcp_send_nodata_def tcp_send_noopts_def tcp_send_def Let_def)
  have "BUF_iplen (st16 50 0 (b[16 := hi8 40, 17 := lo8 40])) = 40" using b(2) by (simp add: BUF_iplen_def)
  then show ?thesis
    unfolding b(1) tcp_send_noconn_def Let_def ip_send_nolen_def uip_tcpchksum_def by simp
qed

lemma sends_conns: "sends s s' \<Longrightarrow> uip_conns s' = uip_conns s"
  by (rule sends_sel)

lemma rstack_total:
  assumes "uip_inv s"
  shows "\<exists>s'. tcp_send_rstack k s = Inr s' \<and> uip_conns s' = uip_conns s"
proof -
  have l: "length (uip_buf s) = 1502" "out_ready s" using assms uip_inv_out_ready by auto
  then obtain s' where "tcp_send_rstack k s = Inr s'"
    using tcp_send_nodata_total [of "upd_buf (\<lambda>b. b[47 := TCP_RST OR TCP_ACK]) s" k] by (auto simp: tcp_send_rstack_def)
  then show ?thesis using tcp_send_rstack_emits [OF _ l(2)] sends_conns by blast
qed

lemma finack_total:
  assumes "uip_inv s"
  shows "\<exists>s'. tcp_send_finack k s = Inr s' \<and> uip_conns s' = uip_conns s"
proof -
  have l: "length (uip_buf s) = 1502" "out_ready s" using assms uip_inv_out_ready by auto
  then obtain s' where "tcp_send_finack k s = Inr s'"
    using tcp_send_nodata_total [of "upd_buf (\<lambda>b. b[47 := TCP_FIN OR TCP_ACK]) s" k] by (auto simp: tcp_send_finack_def)
  then show ?thesis using tcp_send_finack_emits [OF _ l(2)] sends_conns by blast
qed

lemma synack_total:
  assumes "uip_inv s" and "uip_appdata s = In_Buf 54"
  shows "\<exists>s'. tcp_send_synack k s = Inr s' \<and> uip_conns s' = uip_conns s"
proof -
  have l: "length (uip_buf s) = 1502" "out_ready s" using assms uip_inv_out_ready by auto
  then show ?thesis using tcp_send_synack_total [OF l(1) assms(2), of k] tcp_send_synack_emits [OF _ l(2)] sends_conns by blast
qed

lemma httpd_timedout:
  assumes "uip_flags s = UIP_TIMEDOUT"
  shows "\<exists>s'. httpd_appcall P s = Inr s'"
  using assms by (auto simp: httpd_appcall_def Let_def)

text \<open>One tick of the timer, by the state of the connection.\<close>

definition at_timer :: "nat \<Rightarrow> 'a uip_state_scheme \<Rightarrow> 'a uip_state_scheme" where
  "at_timer k s = s\<lparr>uip_conn_ix := k, uip_appdata := In_Buf 54, iss := inc4 (iss s), uip_len := 0\<rparr>"

lemma at_timer_sel [simp]:
  "uip_conns (at_timer k s) = uip_conns s" "uip_conn_ix (at_timer k s) = k" "uip_appdata (at_timer k s) = In_Buf 54"
  by (simp_all add: at_timer_def)

lemma at_timer_inv: "uip_inv s \<Longrightarrow> k < UIP_CONNS \<Longrightarrow> uip_inv (at_timer k s)"
  by (simp add: at_timer_def uip_inv_def uip_wf_def)

definition nearer :: "uip_conn \<Rightarrow> uip_conn \<Rightarrow> bool" where
  "nearer c c' \<longleftrightarrow> tcpstateflags c' = CLOSED \<or> tcpstateflags c' = tcpstateflags c \<and> life c' < life c"

lemma tick_waiting:
  assumes "uip_inv s" and "k < UIP_CONNS"
    and "tcpstateflags (uip_conns s ! k) = TIME_WAIT \<or> tcpstateflags (uip_conns s ! k) = FIN_WAIT_2"
  shows "\<exists>s'. uip_periodic app k s = Inr s' \<and> nearer (uip_conns s ! k) (uip_conns s' ! k)"
proof -
  let ?c = "uip_conns s ! k"
  let ?c' = "let c = ?c\<lparr>timer := timer ?c + 1\<rparr> in if timer c = UIP_TIME_WAIT_TIMEOUT then c\<lparr>tcpstateflags := CLOSED\<rparr> else c"
  have k: "k < length (uip_conns s)" using assms by (simp add: uip_inv_def uip_wf_def)
  have "nearer ?c ?c'" using life_tick_wait [OF assms(3)] by (simp add: nearer_def Let_def)
  then show ?thesis
    using assms(3) k
    by (auto simp: uip_periodic_def uip_process_def uip_timer_def drop_packet_def upd_conn_def Let_def)
qed

lemma timer_step:
  assumes "uip_inv s" and "k < UIP_CONNS"
    and "tcpstateflags (uip_conns s ! k) \<in> {SYN_RCVD, FIN_WAIT_1, CLOSING, LAST_ACK}"
  defines "c \<equiv> uip_conns s ! k"
  defines "u \<equiv> upd_conn k (\<lambda>c. c\<lparr>timer := timer c - 1\<rparr>) (at_timer k s)"
  defines "w \<equiv> upd_conn k (\<lambda>c. c\<lparr>timer := push_bit (unat (if 4 < nrtx c then 4 else nrtx c)) UIP_RTO, nrtx := nrtx c + 1\<rparr>) u"
  shows "uip_periodic app k s =
     (if timer c \<noteq> 0 then drop_packet u
      else if unat (nrtx c) = max_rexmit c then
        bind_result (app ((upd_conn k (\<lambda>c. c\<lparr>tcpstateflags := CLOSED\<rparr>) u)\<lparr>uip_flags := UIP_TIMEDOUT\<rparr>)) (tcp_send_rstack k)
      else if tcpstateflags c = SYN_RCVD then tcp_send_synack k w else tcp_send_finack k w)"
proof -
  have ci: "conn_inv c" using assms(1,2) by (simp add: c_def uip_inv_def)
  then have "clen c \<noteq> 0" "nrtx c \<le> 8" "tcpstateflags c = SYN_RCVD \<longrightarrow> nrtx c \<le> 3"
    using assms(3) by (auto simp: conn_inv_def c_def)
  moreover have "nrtx c = 8 \<longleftrightarrow> unat (nrtx c) = 8" "nrtx c = 3 \<longleftrightarrow> unat (nrtx c) = 3"
    by (simp_all add: word_unat_eq_iff)
  ultimately have at_max: "(nrtx c = 8 \<or> (tcpstateflags c = SYN_SENT \<or> tcpstateflags c = SYN_RCVD) \<and> nrtx c = 3)
      \<longleftrightarrow> unat (nrtx c) = max_rexmit c" and "clen c \<noteq> 0"
    using assms(3) by (auto simp: max_rexmit_def c_def word_le_nat_alt)
  then show ?thesis
    using assms(3) web.conn_state_mask [OF ci]
    unfolding uip_periodic_def uip_process_def uip_timer_def Let_def w_def u_def at_timer_def
    by (auto simp: c_def)
qed

text \<open>The three events of a connection that retransmits.\<close>

lemma tick_retransmitting:
  assumes inv: "uip_inv s" and k: "k < UIP_CONNS"
    and st: "tcpstateflags (uip_conns s ! k) \<in> {SYN_RCVD, FIN_WAIT_1, CLOSING, LAST_ACK}"
  shows "\<exists>s'. uip_periodic (httpd_appcall P) k s = Inr s' \<and> nearer (uip_conns s ! k) (uip_conns s' ! k)"
proof -
  define c where "c = uip_conns s ! k"
  define u where "u = upd_conn k (\<lambda>c. c\<lparr>timer := timer c - 1\<rparr>) (at_timer k s)"
  define w where "w = upd_conn k (\<lambda>c. c\<lparr>timer := push_bit (unat (if 4 < nrtx c then 4 else nrtx c)) UIP_RTO, nrtx := nrtx c + 1\<rparr>) u"
  define v where "v = (upd_conn k (\<lambda>c. c\<lparr>tcpstateflags := CLOSED\<rparr>) u)\<lparr>uip_flags := UIP_TIMEDOUT\<rparr>"
  note step = timer_step [OF inv k st, of "httpd_appcall P", folded c_def u_def, folded w_def v_def]
  have u: "uip_inv u" "uip_conn_ix u = k"
    using at_timer_inv [OF inv k] evolves_upd_conn [of "at_timer k s" k "\<lambda>c. c\<lparr>timer := timer c - 1\<rparr>"]
    by (auto simp: u_def evolves_def conn_inv_def)
  have uc: "uip_conns u ! k = c\<lparr>timer := timer c - 1\<rparr>"
    unfolding u_def c_def using upd_conn_in_range [OF at_timer_inv [OF inv k]] by simp
  have ci: "conn_inv c" using inv k by (simp add: c_def uip_inv_def)
  have moving: "tcpstateflags c \<noteq> TIME_WAIT" "tcpstateflags c \<noteq> FIN_WAIT_2" using st by (auto simp: c_def)
  consider "timer c \<noteq> 0" | "timer c = 0" "unat (nrtx c) = max_rexmit c"
    | "timer c = 0" "unat (nrtx c) \<noteq> max_rexmit c" by blast
  then show ?thesis
  proof cases
    case 1
    then show ?thesis
      using step uc life_tick_count [OF moving] by (auto simp: nearer_def drop_packet_def c_def [symmetric])
  next
    case 2
    have v: "uip_inv v" "uip_conn_ix v = k" "tcpstateflags (uip_conns v ! k) = CLOSED"
      using u evolves_closed [of k u] upd_conn_in_range [OF u]
      by (auto simp: v_def evolves_def uip_inv_def uip_wf_def)
    obtain x where x: "httpd_appcall P v = Inr x" using httpd_timedout [of v] by (auto simp: v_def)
    have "uip_inv x" using web.app_evolves [OF x, of k] v by (simp add: evolves_def)
    then obtain s' where s': "tcp_send_rstack k x = Inr s'" "uip_conns s' = uip_conns x" using rstack_total by blast
    then have "uip_periodic (httpd_appcall P) k s = Inr s'" using 2 step x by simp
    moreover have "tcpstateflags (uip_conns s' ! k) = CLOSED" using web.app_state [OF x v(1,2)] v(3) s'(2) by simp
    ultimately show ?thesis by (auto simp: nearer_def)
  next
    case 3
    have few: "unat (nrtx c) < max_rexmit c"
      using 3 ci by (auto simp: conn_inv_def max_rexmit_def word_le_nat_alt split: if_splits)
    have retry: "nrtx c \<noteq> 8" "tcpstateflags c = SYN_RCVD \<Longrightarrow> nrtx c \<noteq> 3"
      using few by (auto simp: max_rexmit_def split: if_splits)
    have w: "uip_inv w" "uip_conn_ix w = k"
      using web.rexmit_evolves [of u k] u uc retry unfolding w_def by (auto simp: evolves_def)
    have a: "uip_appdata w = In_Buf 54" by (simp add: w_def u_def)
    have wc: "uip_conns w ! k = c\<lparr>timer := push_bit (unat (if 4 < nrtx c then 4 else nrtx c)) UIP_RTO, nrtx := nrtx c + 1\<rparr>"
      unfolding w_def using upd_conn_in_range [OF u] uc by simp
    obtain s' where "uip_periodic (httpd_appcall P) k s = Inr s'" "uip_conns s' = uip_conns w"
      using step 3 synack_total [OF w(1) a, of k] finack_total [OF w(1), of k] by (auto split: if_splits)
    then show ?thesis using wc life_tick_rexmit [OF moving 3(1) few] by (auto simp: nearer_def c_def [symmetric])
  qed
qed

lemma tick_nearer:
  assumes inv: "uip_inv s" and k: "k < UIP_CONNS"
    and "tcpstateflags (uip_conns s ! k) \<noteq> CLOSED" "tcpstateflags (uip_conns s ! k) \<noteq> ESTABLISHED"
  shows "\<exists>s'. uip_periodic (httpd_appcall P) k s = Inr s' \<and> uip_inv s' \<and> nearer (uip_conns s ! k) (uip_conns s' ! k)"
proof -
  have "conn_inv (uip_conns s ! k)" using inv k by (simp add: uip_inv_def)
  then have "tcpstateflags (uip_conns s ! k) \<in> {SYN_RCVD, FIN_WAIT_1, CLOSING, LAST_ACK}
      \<or> tcpstateflags (uip_conns s ! k) = TIME_WAIT \<or> tcpstateflags (uip_conns s ! k) = FIN_WAIT_2"
    using assms(3,4) by (auto simp: conn_inv_def)
  then obtain s' where s': "uip_periodic (httpd_appcall P) k s = Inr s'" "nearer (uip_conns s ! k) (uip_conns s' ! k)"
    using tick_waiting [OF inv k] tick_retransmitting [OF inv k] by blast
  then have "uip_inv s'"
    using web.uip_process_processed [OF _ uip_inv_update [OF inv k]] by (auto simp: uip_periodic_def processed_def)
  then show ?thesis using s' by blast
qed

lemma ticks_close:
  assumes "uip_inv s" and k: "k < UIP_CONNS"
    and "tcpstateflags (uip_conns s ! k) \<noteq> CLOSED" "tcpstateflags (uip_conns s ! k) \<noteq> ESTABLISHED"
  shows "\<exists>n s'. n \<le> Suc (life (uip_conns s ! k)) \<and> ticks (httpd_appcall P) k n s = Inr s'
     \<and> uip_inv s' \<and> tcpstateflags (uip_conns s' ! k) = CLOSED"
  using assms
proof (induction "life (uip_conns s ! k)" arbitrary: s rule: less_induct)
  case less
  obtain t where t: "uip_periodic (httpd_appcall P) k s = Inr t" "uip_inv t" "nearer (uip_conns s ! k) (uip_conns t ! k)"
    using tick_nearer [OF less.prems] by blast
  show ?case
  proof (cases "tcpstateflags (uip_conns t ! k) = CLOSED")
    case True
    then show ?thesis using t by (intro exI [of _ 1]) simp
  next
    case False
    then have near: "tcpstateflags (uip_conns t ! k) = tcpstateflags (uip_conns s ! k)"
        "life (uip_conns t ! k) < life (uip_conns s ! k)"
      using t(3) by (auto simp: nearer_def)
    then obtain n s' where n: "n \<le> Suc (life (uip_conns t ! k))" "ticks (httpd_appcall P) k n t = Inr s'"
        "uip_inv s'" "tcpstateflags (uip_conns s' ! k) = CLOSED"
      using less.hyps [of t] less.prems t(2) by auto
    have "ticks (httpd_appcall P) k (Suc n) s = Inr s'" using t(1) n(2) by simp
    moreover have "Suc n \<le> Suc (life (uip_conns s ! k))" using n(1) near(2) by simp
    ultimately show ?thesis using n(3,4) by blast
  qed
qed

text \<open>C10: no connection leaks.  A connection that is neither closed nor established is closed by at
  most 512 calls of the periodic timer, even if the peer never sends again; every call returns, and
  its table entry is free again.\<close>

theorem closing_connection_is_freed:
  assumes "uip_inv s" and "k < UIP_CONNS" and "tcpstateflags (uip_conns s ! k) \<noteq> ESTABLISHED"
  shows "\<exists>n s'. n \<le> 512 \<and> ticks (httpd_appcall P) k n s = Inr s'
     \<and> uip_inv s' \<and> tcpstateflags (uip_conns s' ! k) = CLOSED"
proof (cases "tcpstateflags (uip_conns s ! k) = CLOSED")
  case True
  then show ?thesis using assms(1) by (intro exI [of _ 0]) simp
next
  case False
  have "life (uip_conns s ! k) < 512" using life_bound assms(1,2) by (simp add: uip_inv_def)
  then show ?thesis using ticks_close [OF assms(1,2) False assms(3)] by (meson Suc_le_eq le_trans)
qed

theorem closing_connection_is_freed_witness:
  "\<exists>n s'. ticks (httpd_appcall no_site) 0 n half_open = Inr s' \<and> tcpstateflags (uip_conns s' ! 0) = CLOSED"
proof -
  have "tcpstateflags (uip_conns half_open ! 0) \<noteq> ESTABLISHED" by (simp add: half_open_def)
  then show ?thesis using closing_connection_is_freed [OF half_open_inv, of 0 no_site] by auto
qed

end
