(* ===== verification/C_Format.thy ===== *)
theory C_Format
  imports C_String
begin

text \<open>
  lib/vsprintf.c: numbers from text and formatted output.  \<open>CONFIG_SYS_VSNPRINTF\<close> is set, so \<open>ADDCH\<close>
  stores a character only in front of \<open>end\<close> and always moves on: the output of a call is modelled as
  the whole sequence of characters, and \<open>vsnprintf\<close> puts the part that fits into the buffer.
  The arguments of a call are a list; an argument is an integer or pointer-sized value, a
  \<open>long long\<close>, a string, or an address with the bytes found there.
\<close>

section \<open>Character classes\<close>

definition isdigit :: "u8 \<Rightarrow> bool" where
  "isdigit c \<longleftrightarrow> 48 \<le> c \<and> c \<le> 57"

definition islower :: "u8 \<Rightarrow> bool" where
  "islower c \<longleftrightarrow> 97 \<le> c \<and> c \<le> 122 \<or> 223 \<le> c \<and> c \<noteq> 247"

definition isupper :: "u8 \<Rightarrow> bool" where
  "isupper c \<longleftrightarrow> 65 \<le> c \<and> c \<le> 90 \<or> 192 \<le> c \<and> c \<le> 222 \<and> c \<noteq> 215"

definition isxdigit :: "u8 \<Rightarrow> bool" where
  "isxdigit c \<longleftrightarrow> isdigit c \<or> 65 \<le> c \<and> c \<le> 70 \<or> 97 \<le> c \<and> c \<le> 102"

definition isalnum :: "u8 \<Rightarrow> bool" where
  "isalnum c \<longleftrightarrow> isupper c \<or> islower c \<or> isdigit c"

definition toupper :: "u8 \<Rightarrow> u8" where
  "toupper c = (if islower c then c - 32 else c)"

section \<open>Numbers from text\<close>

text \<open>The value of a digit, an \<open>int\<close> expression that is stored in an unsigned long.\<close>

definition digit_value :: "u8 \<Rightarrow> 'w :: len word" where
  "digit_value c = (if isdigit c then ucast c - 48 else ucast (if islower c then toupper c else c) - 65 + 10)"

text \<open>The loop over the digits; \<open>n\<close> is the number of characters consumed so far.\<close>

fun strtoul_digits :: "'w :: len word \<Rightarrow> 'w word \<Rightarrow> nat \<Rightarrow> mem \<Rightarrow> ('w word \<times> nat) result" where
  "strtoul_digits base acc n [] = Inl Out_Of_Bounds"
| "strtoul_digits base acc n (c # s) =
     (if isxdigit c \<and> digit_value c < base then strtoul_digits base (acc * base + digit_value c) (Suc n) s
      else Inr (acc, n))"

text \<open>The base and the number of characters of the prefix.\<close>

definition strtoul_prefix :: "'w :: len word \<Rightarrow> mem \<Rightarrow> ('w word \<times> nat) result" where
  "strtoul_prefix base s =
     (case s of
        [] \<Rightarrow> Inl Out_Of_Bounds
      | c # s1 \<Rightarrow>
          if c = 48 then
            (case s1 of
               [] \<Rightarrow> Inl Out_Of_Bounds
             | x # s2 \<Rightarrow>
                 if x = 120 then
                   (case s2 of
                      [] \<Rightarrow> Inl Out_Of_Bounds
                    | d # s3 \<Rightarrow> if isxdigit d then Inr (16, 2) else Inr (if base = 0 then 8 else base, 1))
                 else Inr (if base = 0 then 8 else base, 1))
          else Inr (if base = 0 then 10 else base, 0))"

definition strtoul_any :: "mem \<Rightarrow> 'w :: len word \<Rightarrow> ('w word \<times> nat) result" where
  "strtoul_any cp base =
     bind_result (strtoul_prefix base cp) (\<lambda>(base, k). strtoul_digits base 0 k (drop k cp))"

text \<open>The result and the offset of \<open>*endp\<close>.\<close>

definition simple_strtoul :: "mem \<Rightarrow> u32 \<Rightarrow> (u32 \<times> nat) result" where
  "simple_strtoul cp base = strtoul_any cp base"

definition simple_strtoull :: "mem \<Rightarrow> u64 \<Rightarrow> (u64 \<times> nat) result" where
  "simple_strtoull cp base = strtoul_any cp base"

text \<open>\<open>-EINVAL\<close> is \<open>None\<close>.\<close>

definition strict_strtoul :: "mem \<Rightarrow> u32 \<Rightarrow> u32 option result" where
  "strict_strtoul cp base =
     bind_result (strlen cp) (\<lambda>len.
     if len = 0 then Inr None
     else bind_result (simple_strtoul cp base) (\<lambda>(val, tail).
       if tail = 0 then Inr None
       else if cp ! tail = 0 \<or> len = tail + 1 \<and> cp ! tail = 10 then Inr (Some val)
       else Inr None))"

definition simple_strtol :: "mem \<Rightarrow> u32 \<Rightarrow> (s32 \<times> nat) result" where
  "simple_strtol cp base =
     (if cp = [] then Inl Out_Of_Bounds
      else if hd cp = 45 then
        bind_result (simple_strtoul (tl cp) base) (\<lambda>(v, n). Inr (- v, Suc n))
      else simple_strtoul cp base)"

text \<open>The suffixes G, M, K and k, and the optional i or iB after them.\<close>

definition ustrtoul :: "mem \<Rightarrow> u32 \<Rightarrow> (u32 \<times> nat) result" where
  "ustrtoul cp base =
     bind_result (simple_strtoul cp base) (\<lambda>(r, e).
       let c = cp ! e;
           r = (if c = 71 then r * 1024 else r);
           r = (if c = 71 \<or> c = 77 then r * 1024 else r)
       in if c = 71 \<or> c = 77 \<or> c = 75 \<or> c = 107 then
            (if length cp \<le> e + 1 then Inl Out_Of_Bounds
             else if cp ! (e + 1) \<noteq> 105 then Inr (r * 1024, e)
             else if length cp \<le> e + 2 then Inl Out_Of_Bounds
             else Inr (r * 1024, if cp ! (e + 2) = 66 then e + 3 else e + 2))
          else Inr (r, e))"

text \<open>The decimal number at the front of a format, an \<open>int\<close>, and the rest.\<close>

fun skip_atoi :: "s32 \<Rightarrow> mem \<Rightarrow> s32 \<times> mem" where
  "skip_atoi i [] = (i, [])"
| "skip_atoi i (c # s) = (if isdigit c then skip_atoi (i * 10 + ucast c - 48) s else (i, c # s))"

section \<open>Digits\<close>

text \<open>The digits come in reverse order, the least significant one first.\<close>

definition put_dec_trunc :: "u32 \<Rightarrow> u8 list" where
  "put_dec_trunc q =
     (let d1 = drop_bit 4 q AND 0xf; d2 = drop_bit 8 q AND 0xf; d3 = drop_bit 12 q;
          d0 = 6 * (d3 + d2 + d1) + (q AND 0xf);
          q = drop_bit 11 (d0 * 0xcd);
          d0 = d0 - 10 * q;
          out0 = ucast d0 + 48;
          d1 = q + 9 * d3 + 5 * d2 + d1
      in if d1 = 0 then [out0]
         else
           let q = drop_bit 11 (d1 * 0xcd);
               d1 = d1 - 10 * q;
               out1 = ucast d1 + 48;
               d2 = q + 2 * d2
           in if d2 = 0 \<and> d3 = 0 then [out0, out1]
              else
                let q = drop_bit 7 (d2 * 0xd);
                    d2 = d2 - 10 * q;
                    out2 = ucast d2 + 48;
                    d3 = q + 4 * d3
                in if d3 = 0 then [out0, out1, out2]
                   else
                     let q = drop_bit 11 (d3 * 0xcd);
                         d3 = d3 - 10 * q;
                         out3 = ucast d3 + 48
                     in if q = 0 then [out0, out1, out2, out3] else [out0, out1, out2, out3, ucast q + 48])"

definition put_dec_full :: "u32 \<Rightarrow> u8 list" where
  "put_dec_full q =
     (let d1 = drop_bit 4 q AND 0xf; d2 = drop_bit 8 q AND 0xf; d3 = drop_bit 12 q;
          d0 = 6 * (d3 + d2 + d1) + (q AND 0xf);
          q = drop_bit 11 (d0 * 0xcd);
          d0 = d0 - 10 * q;
          out0 = ucast d0 + 48;
          d1 = q + 9 * d3 + 5 * d2 + d1;
          q = drop_bit 11 (d1 * 0xcd);
          d1 = d1 - 10 * q;
          out1 = ucast d1 + 48;
          d2 = q + 2 * d2;
          q = drop_bit 7 (d2 * 0xd);
          d2 = d2 - 10 * q;
          out2 = ucast d2 + 48;
          d3 = q + 4 * d3;
          q = drop_bit 11 (d3 * 0xcd);
          d3 = d3 - 10 * q;
          out3 = ucast d3 + 48
      in [out0, out1, out2, out3, ucast q + 48])"

function put_dec :: "u64 \<Rightarrow> u8 list" where
  "put_dec num =
     (if num < 100000 then put_dec_trunc (ucast num)
      else put_dec_full (ucast (num mod 100000)) @ put_dec (num div 100000))"
  by pat_completeness auto
termination
  by (relation "measure unat") (auto simp: unat_div word_less_nat_alt word_le_nat_alt not_less)

text \<open>\<open>tmp\<close> for the bases 8 and 16; the shift is 3 or 4, given as \<open>Suc\<close> of the first argument.\<close>

definition number_digit :: "u8 \<Rightarrow> u8" where
  "number_digit d = (if d < 10 then 48 + d else 55 + d)"

function put_pow2 :: "nat \<Rightarrow> u8 \<Rightarrow> u8 \<Rightarrow> u64 \<Rightarrow> u8 list" where
  "put_pow2 shift msk locase num =
     (number_digit (ucast num AND msk) OR locase)
       # (if drop_bit (Suc shift) num = 0 then [] else put_pow2 shift msk locase (drop_bit (Suc shift) num))"
  by pat_completeness auto
termination
proof (relation "measure (\<lambda>(_, _, _, num). unat num)")
  fix shift :: nat and msk locase :: u8 and num :: u64
  assume nz: "drop_bit (Suc shift) num \<noteq> 0"
  have d: "unat (drop_bit (Suc shift) num) = unat num div 2 ^ Suc shift"
    unfolding unat_drop_bit_eq by (simp only: drop_bit_eq_div)
  have "num \<noteq> 0" using nz by (metis drop_bit_of_0)
  then have "unat num \<noteq> 0" by (simp add: unat_eq_0)
  moreover have "(1 :: nat) < 2 ^ Suc shift" by (rule one_less_power) simp_all
  ultimately have "unat num div 2 ^ Suc shift < unat num" by (intro div_less_dividend) (simp_all only: neq0_conv)
  then show "((shift, msk, locase, drop_bit (Suc shift) num), shift, msk, locase, num) \<in> measure (\<lambda>(_, _, _, num). unat num)"
    using d by simp
qed simp

section \<open>Fields\<close>

abbreviation (input) ZEROPAD :: u32 where "ZEROPAD \<equiv> 1"
abbreviation (input) SIGN :: u32 where "SIGN \<equiv> 2"
abbreviation (input) PLUS :: u32 where "PLUS \<equiv> 4"
abbreviation (input) SPACE :: u32 where "SPACE \<equiv> 8"
abbreviation (input) LEFT :: u32 where "LEFT \<equiv> 16"
abbreviation (input) SMALL :: u32 where "SMALL \<equiv> 32"
abbreviation (input) SPECIAL :: u32 where "SPECIAL \<equiv> 64"

text \<open>\<open>while (--size >= 0) ADDCH(buf, c)\<close>\<close>

definition pad :: "int \<Rightarrow> u8 \<Rightarrow> u8 list" where
  "pad n c = replicate (nat n) c"

text \<open>The sign character, if any, and the magnitude.\<close>

definition number_sign :: "u64 \<Rightarrow> u32 \<Rightarrow> u8 list \<times> u64" where
  "number_sign num type =
     (if type AND SIGN = 0 then ([], num)
      else if sint num < 0 then ([45], - num)
      else if type AND PLUS \<noteq> 0 then ([43], num)
      else if type AND SPACE \<noteq> 0 then ([32], num)
      else ([], num))"

definition number_digits :: "u64 \<Rightarrow> nat \<Rightarrow> u32 \<Rightarrow> u8 list" where
  "number_digits num base type =
     (if num = 0 then [48]
      else if base \<noteq> 10 then
        put_pow2 (if base = 16 then 3 else 2) (of_nat base - 1) (ucast (type AND SMALL)) num
      else put_dec num)"

definition number :: "u64 \<Rightarrow> nat \<Rightarrow> int \<Rightarrow> int \<Rightarrow> u32 \<Rightarrow> u8 list" where
  "number num base sz precision type =
     (let need_pfx = type AND SPECIAL \<noteq> 0 \<and> base \<noteq> 10;
          zeropad = type AND ZEROPAD \<noteq> 0 \<and> type AND LEFT = 0; left = type AND LEFT \<noteq> 0;
          (sign, num) = number_sign num type;
          sz = sz - int (length sign);
          sz = (if need_pfx then sz - (if base = 16 then 2 else 1) else sz);
          tmp = number_digits num base type;
          precision = max precision (int (length tmp));
          sz = sz - precision;
          pfx = (if need_pfx then 48 # (if base = 16 then [88 OR ucast (type AND SMALL)] else []) else [])
      in (if zeropad \<or> left then [] else pad sz 32) @ sign @ pfx
           @ (if zeropad then pad sz 48 else []) @ pad (precision - int (length tmp)) 48
           @ rev tmp @ (if left then pad sz 32 else []))"

definition to_mem :: "string \<Rightarrow> mem" where
  "to_mem s = map of_char s"

text \<open>\<open>string\<close>: the precision is converted to \<open>size_t\<close>; the bytes of a null pointer are \<open>None\<close>.\<close>

definition format_string :: "mem option \<Rightarrow> int \<Rightarrow> s32 \<Rightarrow> u32 \<Rightarrow> u8 list result" where
  "format_string s field_width precision flags =
     (let m = (case s of None \<Rightarrow> to_mem ''<NULL>'' @ [0] | Some m \<Rightarrow> m)
      in bind_result (strnlen m (unat precision)) (\<lambda>len.
           let p = pad (field_width - int len) 32
           in Inr (if flags AND LEFT = 0 then p @ take len m else take len m @ p)))"

definition hex_asc :: "u8 \<Rightarrow> u8" where
  "hex_asc d = (if d < 10 then 48 + d else 87 + d)"

definition pack_hex_byte :: "u8 \<Rightarrow> u8 list" where
  "pack_hex_byte b = [hex_asc (drop_bit 4 (b AND 0xf0)), hex_asc (b AND 0x0f)]"

text \<open>The text of an address: the groups with a separator between them.\<close>

fun join :: "u8 list \<Rightarrow> u8 list list \<Rightarrow> u8 list" where
  "join sep [] = []"
| "join sep [g] = g"
| "join sep (g # gs) = g @ sep @ join sep gs"

definition mac_address_string :: "mem \<Rightarrow> int \<Rightarrow> s32 \<Rightarrow> u32 \<Rightarrow> u8 list result" where
  "mac_address_string addr field_width precision flags =
     (if length addr < 6 then Inl Out_Of_Bounds
      else format_string
             (Some (join (if flags AND SPECIAL \<noteq> 0 then [] else [58]) (map pack_hex_byte (take 6 addr)) @ [0]))
             field_width precision (flags AND NOT SPECIAL))"

definition ip6_addr_string :: "mem \<Rightarrow> int \<Rightarrow> s32 \<Rightarrow> u32 \<Rightarrow> u8 list result" where
  "ip6_addr_string addr field_width precision flags =
     (if length addr < 16 then Inl Out_Of_Bounds
      else format_string
             (Some (join (if flags AND SPECIAL \<noteq> 0 then [] else [58])
                (map (\<lambda>i. pack_hex_byte (addr ! (2 * i)) @ pack_hex_byte (addr ! (2 * i + 1))) [0..<8]) @ [0]))
             field_width precision (flags AND NOT SPECIAL))"

definition ip4_addr_string :: "mem \<Rightarrow> int \<Rightarrow> s32 \<Rightarrow> u32 \<Rightarrow> u8 list result" where
  "ip4_addr_string addr field_width precision flags =
     (if length addr < 4 then Inl Out_Of_Bounds
      else format_string
             (Some (join [46] (map (\<lambda>b. rev (put_dec_trunc (ucast b))) (take 4 addr)) @ [0]))
             field_width precision (flags AND NOT SPECIAL))"

text \<open>\<open>pointer\<close>: the two characters after the conversion choose the format.\<close>

definition pointer_number :: "u32 \<Rightarrow> s32 \<Rightarrow> s32 \<Rightarrow> u32 \<Rightarrow> u8 list" where
  "pointer_number p field_width precision flags =
     (let flags = flags OR SMALL
      in if field_width = -1 then number (ucast p) 16 8 (sint precision) (flags OR ZEROPAD)
         else number (ucast p) 16 (sint field_width) (sint precision) flags)"

definition pointer :: "u8 \<Rightarrow> u8 \<Rightarrow> u32 \<Rightarrow> mem \<Rightarrow> s32 \<Rightarrow> s32 \<Rightarrow> u32 \<Rightarrow> u8 list result" where
  "pointer f0 f1 p m field_width precision flags =
     (let w = sint field_width
      in if p = 0 then format_string (Some (to_mem ''(null)'' @ [0])) w precision flags
         else if f0 = 109 then mac_address_string m w precision (flags OR SPECIAL)
         else if f0 = 77 then mac_address_string m w precision flags
         else if f0 = 105 \<or> f0 = 73 then
           let flags = (if f0 = 105 then flags OR SPECIAL else flags)
           in if f1 = 54 then ip6_addr_string m w precision flags
              else if f1 = 52 then ip4_addr_string m w precision flags
              else Inr (pointer_number p field_width precision (flags AND NOT SPECIAL))
         else Inr (pointer_number p field_width precision flags))"

section \<open>The format interpreter\<close>

datatype va = VA_Int u32 | VA_Quad u64 | VA_Str "mem option" | VA_Ptr u32 mem

fun va_int :: "va list \<Rightarrow> (u32 \<times> va list) result" where
  "va_int (VA_Int n # args) = Inr (n, args)"
| "va_int _ = Inl Uninitialised"

fun va_quad :: "va list \<Rightarrow> (u64 \<times> va list) result" where
  "va_quad (VA_Quad n # args) = Inr (n, args)"
| "va_quad _ = Inl Uninitialised"

fun parse_flags :: "u32 \<Rightarrow> mem \<Rightarrow> u32 \<times> mem" where
  "parse_flags flags [] = (flags, [])"
| "parse_flags flags (c # s) =
     (if c = 45 then parse_flags (flags OR LEFT) s
      else if c = 43 then parse_flags (flags OR PLUS) s
      else if c = 32 then parse_flags (flags OR SPACE) s
      else if c = 35 then parse_flags (flags OR SPECIAL) s
      else if c = 48 then parse_flags (flags OR ZEROPAD) s
      else (flags, c # s))"

definition parse_width :: "u32 \<Rightarrow> mem \<Rightarrow> va list \<Rightarrow> (s32 \<times> u32 \<times> mem \<times> va list) result" where
  "parse_width flags fmt args =
     (case fmt of
        [] \<Rightarrow> Inl Out_Of_Bounds
      | c # s \<Rightarrow>
          if isdigit c then let (w, r) = skip_atoi 0 fmt in Inr (w, flags, r, args)
          else if c = 42 then
            bind_result (va_int args) (\<lambda>(w, args).
              Inr (if sint w < 0 then (- w, flags OR LEFT, s, args) else (w, flags, s, args)))
          else Inr (-1, flags, fmt, args))"

definition parse_precision :: "mem \<Rightarrow> va list \<Rightarrow> (s32 \<times> mem \<times> va list) result" where
  "parse_precision fmt args =
     (case fmt of
        [] \<Rightarrow> Inl Out_Of_Bounds
      | c # s \<Rightarrow>
          if c \<noteq> 46 then Inr (-1, fmt, args)
          else if s = [] then Inl Out_Of_Bounds
          else
            bind_result
              (if isdigit (hd s) then let (p, r) = skip_atoi 0 s in Inr (p, r, args)
               else if hd s = 42 then bind_result (va_int args) (\<lambda>(p, args). Inr (p, tl s, args))
               else Inr (-1, s, args)) (\<lambda>(p, r, args).
            Inr (if sint p < 0 then 0 else p, r, args)))"

text \<open>The qualifier, 0 for none.\<close>

definition parse_qualifier :: "mem \<Rightarrow> u8 \<times> mem" where
  "parse_qualifier fmt =
     (case fmt of
        [] \<Rightarrow> (0, [])
      | c # s \<Rightarrow>
          if c = 104 \<or> c = 108 \<or> c = 76 \<or> c = 90 \<or> c = 122 \<or> c = 116 then
            (if c = 108 \<and> s \<noteq> [] \<and> hd s = 108 then (76, tl s) else (c, s))
          else (0, fmt))"

definition va_number :: "u8 \<Rightarrow> u32 \<Rightarrow> va list \<Rightarrow> (u64 \<times> va list) result" where
  "va_number qualifier flags args =
     (if qualifier = 76 then va_quad args
      else bind_result (va_int args) (\<lambda>(n, args).
        let signed = flags AND SIGN \<noteq> 0
        in Inr (if qualifier = 90 \<or> qualifier = 122 then ucast n
                else if qualifier = 116 then scast n
                else if qualifier = 104 then
                  (if signed then scast (ucast n :: u16) else ucast (ucast n :: u16))
                else if signed then scast n else ucast n, args)))"

text \<open>The base and the flags of the integer conversions.\<close>

definition int_conversion :: "u8 \<Rightarrow> u32 \<Rightarrow> (nat \<times> u32) option" where
  "int_conversion c flags =
     (if c = 111 then Some (8, flags)
      else if c = 120 then Some (16, flags OR SMALL)
      else if c = 88 then Some (16, flags)
      else if c = 100 \<or> c = 105 then Some (10, flags OR SIGN)
      else if c = 117 then Some (10, flags)
      else None)"

text \<open>
  One conversion: the characters put out and the arguments left, given the number of
  characters put out before.  \<open>%n\<close> stores that number through a pointer; the values stored are the
  third component.
\<close>

definition convert :: "u8 \<Rightarrow> u8 \<Rightarrow> u8 \<Rightarrow> u8 \<Rightarrow> s32 \<Rightarrow> s32 \<Rightarrow> u32 \<Rightarrow> nat \<Rightarrow> va list
    \<Rightarrow> (u8 list \<times> va list \<times> u32 list) result" where
  "convert c f0 f1 qualifier field_width precision flags written args =
     (if c = 99 then
        bind_result (va_int args) (\<lambda>(n, args).
          let p = pad (sint field_width - 1) 32
          in Inr (if flags AND LEFT = 0 then p @ [ucast n] else ucast n # p, args, []))
      else if c = 115 then
        (case args of
           VA_Str s # args \<Rightarrow>
             bind_result (format_string s (sint field_width) precision flags) (\<lambda>out. Inr (out, args, []))
         | _ \<Rightarrow> Inl Uninitialised)
      else if c = 112 then
        (case args of
           VA_Ptr p m # args \<Rightarrow>
             bind_result (pointer f0 f1 p m field_width precision flags) (\<lambda>out. Inr (out, args, []))
         | _ \<Rightarrow> Inl Uninitialised)
      else if c = 110 then
        (case args of
           VA_Ptr p m # args \<Rightarrow> Inr ([], args, [of_nat written])
         | _ \<Rightarrow> Inl Uninitialised)
      else if c = 37 then Inr ([37], args, [])
      else
        case int_conversion c flags of
          Some (base, flags) \<Rightarrow>
            bind_result (va_number qualifier flags args) (\<lambda>(num, args).
              Inr (number num base (sint field_width) (sint precision) flags, args, []))
        | None \<Rightarrow> Inr (if c = 0 then [37] else [37, c], args, []))"

text \<open>What is left of the format after the conversion character and the suffixes of \<open>%p\<close>.\<close>

definition after_conversion :: "u8 \<Rightarrow> mem \<Rightarrow> mem" where
  "after_conversion c rest = (if c = 112 then dropWhile isalnum rest else rest)"

definition suffix_char :: "nat \<Rightarrow> mem \<Rightarrow> u8" where
  "suffix_char i m = (if i < length m then m ! i else 0)"

definition parse_spec :: "mem \<Rightarrow> va list \<Rightarrow> (u32 \<times> s32 \<times> s32 \<times> u8 \<times> mem \<times> va list) result" where
  "parse_spec fmt args =
     (let (flags, fmt) = parse_flags 0 fmt
      in bind_result (parse_width flags fmt args) (\<lambda>(w, flags, fmt, args).
         bind_result (parse_precision fmt args) (\<lambda>(p, fmt, args).
           let (q, fmt) = parse_qualifier fmt in Inr (flags, w, p, q, fmt, args))))"

lemma skip_atoi_length: "skip_atoi i s = (n, r) \<Longrightarrow> length r \<le> length s"
  by (induction s arbitrary: i) (auto split: if_splits intro: le_SucI)

lemma parse_flags_length: "parse_flags f s = (g, r) \<Longrightarrow> length r \<le> length s"
  by (induction s arbitrary: f) (auto split: if_splits intro: le_SucI)

lemma parse_spec_length:
  assumes "parse_spec fmt args = Inr (flags, w, p, q, r, args')"
  shows "length r \<le> length fmt"
proof -
  obtain f1 m1 where f: "parse_flags 0 fmt = (f1, m1)" by fastforce
  from assms f obtain f2 w2 m2 a2 where w: "parse_width f1 m1 args = Inr (w2, f2, m2, a2)"
    and "bind_result (parse_precision m2 a2) (\<lambda>(p, fmt, args).
           let (q, fmt) = parse_qualifier fmt in Inr (f2, w2, p, q, fmt, args)) = Inr (flags, w, p, q, r, args')"
    by (auto simp: parse_spec_def)
  then obtain p3 m3 a3 where p: "parse_precision m2 a2 = Inr (p3, m3, a3)" and q: "parse_qualifier m3 = (q, r)"
    by (auto split: prod.splits)
  have "length m1 \<le> length fmt" by (rule parse_flags_length [OF f])
  moreover have "length m2 \<le> length m1"
    using w by (auto simp: parse_width_def split: list.splits if_splits prod.splits dest: skip_atoi_length)
  moreover have "length m3 \<le> length m2"
    using p by (auto simp: parse_precision_def split: list.splits if_splits prod.splits dest: skip_atoi_length
        intro: le_SucI)
  moreover have "length r \<le> length m3"
    using q by (auto simp: parse_qualifier_def split: list.splits if_splits)
  ultimately show ?thesis by simp
qed

declare put_dec.simps [simp del] put_pow2.simps [simp del]

lemma bind_result_cong [fundef_cong]:
  "r = r' \<Longrightarrow> (\<And>a. r' = Inr a \<Longrightarrow> f a = g a) \<Longrightarrow> bind_result r f = bind_result r' g"
  by (cases r') auto

lemma after_conversion_length: "length (after_conversion c r) \<le> length r"
  by (simp add: after_conversion_def length_dropWhile_le)

function vformat :: "nat \<Rightarrow> mem \<Rightarrow> va list \<Rightarrow> (u8 list \<times> u32 list) result" where
  "vformat n [] args = Inl Out_Of_Bounds"
| "vformat n (c # fmt) args =
     (if c = 0 then Inr ([], [])
      else if c \<noteq> 37 then bind_result (vformat (Suc n) fmt args) (\<lambda>(out, st). Inr (c # out, st))
      else bind_result (parse_spec fmt args) (\<lambda>(flags, w, p, q, r, args).
        case r of
          [] \<Rightarrow> Inl Out_Of_Bounds
        | conv # rest \<Rightarrow>
            bind_result (convert conv (suffix_char 0 rest) (suffix_char 1 rest) q w p flags n args) (\<lambda>(o1, args, st1).
            bind_result (vformat (n + length o1) (if conv = 0 then r else after_conversion conv rest) args)
              (\<lambda>(o2, st2). Inr (o1 @ o2, st1 @ st2)))))"
  by pat_completeness auto
termination
proof (relation "measure (\<lambda>(_, fmt, _). length fmt)", simp, simp)
  fix n c fmt args x flags y w z p xa q ya r args' za conv rest out a st
  assume "parse_spec fmt args = Inr x" "(flags, y) = x" "(w, z) = y" "(p, xa) = z" "(q, ya) = xa" "(r, args') = ya"
    and r: "r = conv # rest"
  then have "parse_spec fmt args = Inr (flags, w, p, q, r, args')" by simp
  then have "length r \<le> length fmt" by (rule parse_spec_length)
  then have "length (if conv = 0 then r else after_conversion conv rest) \<le> length fmt"
    using after_conversion_length [of conv rest] r by auto
  then show "((n + length (out :: u8 list), if conv = 0 then r else after_conversion conv rest, a), n, c # fmt, args)
      \<in> measure (\<lambda>(_, fmt, _). length fmt)" by auto
qed

text \<open>
  The buffer gets the characters that fit and a terminator; a buffer smaller than the size given is
  overrun.
\<close>

definition vsnprintf :: "mem \<Rightarrow> nat \<Rightarrow> mem \<Rightarrow> va list \<Rightarrow> (mem \<times> u32) result" where
  "vsnprintf buf sz fmt args =
     bind_result (vformat 0 fmt args) (\<lambda>(out, st).
       let bs = (if sz = 0 then [] else take (sz - 1) out @ [0])
       in if length buf < length bs then Inl Out_Of_Bounds
          else Inr (put_bytes 0 bs buf, of_nat (length out)))"

definition vscnprintf :: "mem \<Rightarrow> nat \<Rightarrow> mem \<Rightarrow> va list \<Rightarrow> (mem \<times> u32) result" where
  "vscnprintf buf sz fmt args =
     bind_result (vsnprintf buf sz fmt args) (\<lambda>(b, i).
       Inr (b, if unat i < sz then i else if sz \<noteq> 0 then of_nat (sz - 1) else 0))"

definition snprintf :: "mem \<Rightarrow> nat \<Rightarrow> mem \<Rightarrow> va list \<Rightarrow> (mem \<times> u32) result" where
  "snprintf buf sz fmt args = vsnprintf buf sz fmt args"

definition scnprintf :: "mem \<Rightarrow> nat \<Rightarrow> mem \<Rightarrow> va list \<Rightarrow> (mem \<times> u32) result" where
  "scnprintf buf sz fmt args = vscnprintf buf sz fmt args"

definition vsprintf :: "mem \<Rightarrow> mem \<Rightarrow> va list \<Rightarrow> (mem \<times> u32) result" where
  "vsprintf buf fmt args = vsnprintf buf 0x7fffffff fmt args"

definition sprintf :: "mem \<Rightarrow> mem \<Rightarrow> va list \<Rightarrow> (mem \<times> u32) result" where
  "sprintf buf fmt args = vsprintf buf fmt args"

function itoa_digits :: "u32 \<Rightarrow> u8 list" where
  "itoa_digits i = (48 + ucast (i mod 10)) # (if i div 10 = 0 then [] else itoa_digits (i div 10))"
  by pat_completeness auto
termination
proof (relation "measure unat")
  fix i :: u32
  assume "i div 10 \<noteq> 0"
  then have "unat i \<noteq> 0" by (auto simp: word_unat_eq_iff unat_div)
  then show "(i div 10, i) \<in> measure unat" by (simp add: unat_div)
qed simp

definition simple_itoa :: "u32 \<Rightarrow> mem" where
  "simple_itoa i = rev (itoa_digits i) @ [0]"

declare itoa_digits.simps [simp del]

end
