(* ===== verification/Format_Props.thy ===== *)
theory Format_Props
  imports C_Format
begin

text \<open>
  Correctness of lib/vsprintf.c: the division-free decimal conversion gives the decimal digits,
  printed numbers are read back by \<open>simple_strtoul\<close>, and \<open>vsnprintf\<close> stays within its buffer.
\<close>

section \<open>Decimal digits without division\<close>

text \<open>The reference: the decimal digits of a number, the least significant first.\<close>

fun dec_rev :: "nat \<Rightarrow> u8 list" where
  "dec_rev n = (48 + of_nat (n mod 10)) # (if n < 10 then [] else dec_rev (n div 10))"

declare dec_rev.simps [simp del]

lemma and_15: "q AND 0xf = (of_nat (unat q mod 16) :: u32)"
proof -
  have "(0xf :: u32) = mask 4" by (simp add: mask_eq_exp_minus_1)
  then have "q AND 0xf = q mod 2 ^ 4" by (simp only: take_bit_eq_mask [symmetric] take_bit_eq_mod)
  then show ?thesis by (simp add: word_unat_eq_iff unat_mod unat_of_nat)
qed

lemma drop_bit_of_nat: "k < 2 ^ 32 \<Longrightarrow> drop_bit m (of_nat k :: u32) = of_nat (k div 2 ^ m)"
proof -
  assume k: "k < 2 ^ 32"
  have "k div 2 ^ m < 2 ^ 32" using k by (simp add: div_le_dividend [THEN le_less_trans])
  then show ?thesis
    unfolding word_unat_eq_iff unat_drop_bit_eq drop_bit_eq_div [of m "unat _"]
    using k by (simp add: unat_of_nat)
qed

lemma div10_split:
  fixes x :: nat
  obtains k r where "x = 10 * k + r" "r < 10" "x div 10 = k"
  by (metis div_mult_mod_eq mod_less_divisor mult.commute zero_less_numeral)

lemma div10_205: "x < 1000 \<Longrightarrow> x * 205 div 2048 = x div (10 :: nat)"
  by (rule div10_split [of x]) (rule div_nat_eqI; simp)

lemma div10_13: "x < 64 \<Longrightarrow> x * 13 div 128 = x div (10 :: nat)"
  by (rule div10_split [of x]) (rule div_nat_eqI; simp)

text \<open>
  The digit sums of the code on naturals.  With \<open>n = 4096 * d3 + 256 * d2 + 16 * d1 + e\<close>,
  \<open>a i\<close> is the value from which the \<open>i\<close>-th digit is taken.
\<close>

lemma nibbles:
  fixes n :: nat
  shows "n = 4096 * (n div 4096) + 256 * (n div 256 mod 16) + 16 * (n div 16 mod 16) + n mod 16"
proof -
  have split: "m = 16 * (m div 16) + m mod 16" for m :: nat by simp
  have "n div 16 div 16 = n div 256" "n div 256 div 16 = n div 4096" by (simp_all flip: div_mult2_eq)
  then show ?thesis using split [of n] split [of "n div 16"] split [of "n div 256"] by linarith
qed

lemma div_mod_10: "x = 10 * k + r \<Longrightarrow> r < 10 \<Longrightarrow> x div 10 = k \<and> x mod 10 = (r :: nat)"
  by simp

lemma dec_sums:
  fixes n :: nat
  assumes "n < 100000"
  defines "d3 \<equiv> n div 4096" and "d2 \<equiv> n div 256 mod 16" and "d1 \<equiv> n div 16 mod 16" and "e \<equiv> n mod 16"
  defines "a0 \<equiv> 6 * (d3 + d2 + d1) + e"
  defines "a1 \<equiv> a0 div 10 + 9 * d3 + 5 * d2 + d1"
  defines "a2 \<equiv> a1 div 10 + 2 * d2"
  defines "a3 \<equiv> a2 div 10 + 4 * d3"
  shows "a0 < 1000" "a1 < 1000" "a2 < 64" "a3 < 1000" "d3 < 25"
    and "a0 mod 10 = n mod 10" "a1 mod 10 = n div 10 mod 10" "a2 mod 10 = n div 100 mod 10"
    and "a3 = n div 1000" "a1 + 400 * d3 + 20 * d2 = n div 10" "a2 + 40 * d3 = n div 100"
proof -
  have n: "n = 4096 * d3 + 256 * d2 + 16 * d1 + e" unfolding d3_def d2_def d1_def e_def by (rule nibbles)
  have small: "d2 < 16" "d1 < 16" "e < 16" unfolding d2_def d1_def e_def by simp_all
  show d3: "d3 < 25" using n assms(1) by linarith
  obtain k0 r0 where k0: "a0 = 10 * k0 + r0" "r0 < 10" "a0 div 10 = k0" by (rule div10_split)
  obtain k1 r1 where k1: "a1 = 10 * k1 + r1" "r1 < 10" "a1 div 10 = k1" by (rule div10_split)
  obtain k2 r2 where k2: "a2 = 10 * k2 + r2" "r2 < 10" "a2 div 10 = k2" by (rule div10_split)
  have a: "a0 = 6 * (d3 + d2 + d1) + e" "a1 = k0 + 9 * d3 + 5 * d2 + d1" "a2 = k1 + 2 * d2" "a3 = k2 + 4 * d3"
    using k0(3) k1(3) k2(3) by (simp_all only: a0_def a1_def a2_def a3_def)
  have le: "d2 \<le> 15" "d1 \<le> 15" "e \<le> 15" "d3 \<le> 24" using small d3 by simp_all
  have b0: "a0 \<le> 339" using le a(1) by simp
  then have "k0 \<le> 33" using k0(1) by simp
  then have b1: "a1 \<le> 339" using le a(2) by simp
  then have "k1 \<le> 33" using k1(1) by simp
  then have b2: "a2 \<le> 63" using le a(3) by simp
  then have "k2 \<le> 6" using k2(1) by simp
  then show "a3 < 1000" using le a(4) by simp
  show "a0 < 1000" "a1 < 1000" "a2 < 64" using b0 b1 b2 by simp_all
  have "n = 10 * (a1 + 400 * d3 + 20 * d2) + r0" using n a k0(1) by simp
  then have t: "n div 10 = a1 + 400 * d3 + 20 * d2 \<and> n mod 10 = r0" by (rule div_mod_10) (rule k0(2))
  have "n div 10 = 10 * (a2 + 40 * d3) + r1" using t a k1(1) by simp
  then have h: "n div 10 div 10 = a2 + 40 * d3 \<and> n div 10 mod 10 = r1" by (rule div_mod_10) (rule k1(2))
  have "n div 10 div 10 = 10 * a3 + r2" using h a k2(1) by simp
  then have m: "n div 10 div 10 div 10 = a3 \<and> n div 10 div 10 mod 10 = r2" by (rule div_mod_10) (rule k2(2))
  have dd: "n div 10 div 10 = n div 100" "n div 100 div 10 = n div 1000" by (simp_all flip: div_mult2_eq)
  note hm = h [unfolded dd(1)] m [unfolded dd]
  show "a0 mod 10 = n mod 10" using t k0(1,2) by simp
  show "a1 mod 10 = n div 10 mod 10" using h k1(1,2) by simp
  show "a2 mod 10 = n div 100 mod 10" using hm k2(1,2) by simp
  show "a3 = n div 1000" using hm(2) by simp
  show "a1 + 400 * d3 + 20 * d2 = n div 10" using t by simp
  show "a2 + 40 * d3 = n div 100" using hm(1) by simp
qed

text \<open>The words of the code are these sums.\<close>

lemma of_nat_minus10: "of_nat a - 10 * of_nat (a div 10) = (of_nat (a mod 10) :: u32)"
proof -
  have "(of_nat a :: u32) = of_nat (a mod 10) + 10 * of_nat (a div 10)"
    by (metis mod_mult_div_eq of_nat_add of_nat_mult of_nat_numeral)
  then show ?thesis by simp
qed

lemma shift_div:
  "a < 1000 \<Longrightarrow> drop_bit 11 (of_nat a * 0xcd :: u32) = of_nat (a div 10)"
  "a < 64 \<Longrightarrow> drop_bit 7 (of_nat a * 0xd :: u32) = of_nat (a div 10)"
  using drop_bit_of_nat [of "a * 205" 11] div10_205 [of a] drop_bit_of_nat [of "a * 13" 7] div10_13 [of a]
  by simp_all

lemma ucast_digit: "(ucast (of_nat k :: u32) :: u8) = of_nat k"
  by (rule word_unat_eq_iff [THEN iffD2])
    (simp add: unsigned_ucast_eq take_bit_eq_mod unat_of_nat mod_mod_cancel)

definition dec_digit :: "nat \<Rightarrow> u8" where
  "dec_digit k = of_nat (k mod 10) + 48"

lemma word_sums:
  fixes q :: u32
  assumes "unat q < 100000"
  defines "n \<equiv> unat q"
  shows "drop_bit 4 q AND 0xf = of_nat (n div 16 mod 16)" "drop_bit 8 q AND 0xf = of_nat (n div 256 mod 16)"
    "drop_bit 12 q = of_nat (n div 4096)" "q AND 0xf = of_nat (n mod 16)"
proof -
  have q: "q = of_nat n" by (simp add: n_def)
  have d: "drop_bit m q = of_nat (n div 2 ^ m)" for m
    using drop_bit_of_nat [of n m] assms by (simp add: n_def)
  have u: "unat (drop_bit m q) = n div 2 ^ m" for m
    unfolding unat_drop_bit_eq n_def by (simp add: drop_bit_eq_div)
  show "drop_bit 4 q AND 0xf = of_nat (n div 16 mod 16)" "drop_bit 8 q AND 0xf = of_nat (n div 256 mod 16)"
    using and_15 [of "drop_bit 4 q"] and_15 [of "drop_bit 8 q"] by (simp_all only: u) simp_all
  show "drop_bit 12 q = of_nat (n div 4096)" using d [of 12] by simp
  show "q AND 0xf = of_nat (n mod 16)" using and_15 [of q] by (simp add: n_def)
qed

lemma of_nat_eq_0: "k < 2 ^ 32 \<Longrightarrow> (of_nat k :: u32) = 0 \<longleftrightarrow> k = 0"
  by (simp add: word_unat_eq_iff unat_of_nat)

text \<open>The steps of the two conversions, as one bundle.\<close>

lemma dec_steps:
  fixes q :: u32
  assumes "unat q < 100000"
  defines "n \<equiv> unat q" and "d1 \<equiv> drop_bit 4 q AND 0xf" and "d2 \<equiv> drop_bit 8 q AND 0xf" and "d3 \<equiv> drop_bit 12 q"
  obtains a0 a1 a2 :: nat where
    "6 * (d3 + d2 + d1) + (q AND 0xf) = of_nat a0" "a0 < 1000" "a0 mod 10 = n mod 10"
    "of_nat (a0 div 10) + 9 * d3 + 5 * d2 + d1 = of_nat a1" "a1 < 1000" "a1 mod 10 = n div 10 mod 10"
    "of_nat (a1 div 10) + 2 * d2 = of_nat a2" "a2 < 64" "a2 mod 10 = n div 100 mod 10"
    "of_nat (a2 div 10) + 4 * d3 = of_nat (n div 1000)" "n div 1000 < 1000"
    "(of_nat a1 :: u32) = 0 \<longleftrightarrow> n div 10 = 0" "(of_nat a2 :: u32) = 0 \<and> d3 = 0 \<longleftrightarrow> n div 100 = 0"
proof -
  define b1 b2 b3 e where "b1 = n div 16 mod 16" and "b2 = n div 256 mod 16" and "b3 = n div 4096" and "e = n mod 16"
  define a0 where "a0 = 6 * (b3 + b2 + b1) + e"
  define a1 where "a1 = a0 div 10 + 9 * b3 + 5 * b2 + b1"
  define a2 where "a2 = a1 div 10 + 2 * b2"
  note defs = b1_def b2_def b3_def e_def a0_def a1_def a2_def
  note s = dec_sums [OF assms(1), folded n_def, folded b1_def b2_def b3_def e_def, folded a0_def, folded a1_def, folded a2_def]
  have w: "d1 = of_nat b1" "d2 = of_nat b2" "d3 = of_nat b3" "q AND 0xf = of_nat e"
    using word_sums [OF assms(1)] by (simp_all only: d1_def d2_def d3_def n_def b1_def b2_def b3_def e_def)
  have z3: "d3 = 0 \<longleftrightarrow> b3 = 0" using s(5) w(3) of_nat_eq_0 [of b3] by simp
  have "b2 = 0 \<and> b3 = 0" if "a1 = 0" using that by (simp add: a1_def)
  then have z1: "a1 = 0 \<longleftrightarrow> n div 10 = 0" using s(10) by auto
  have z2: "a2 = 0 \<and> b3 = 0 \<longleftrightarrow> n div 100 = 0" using s(11) by auto
  show ?thesis
  proof (rule that)
    show "6 * (d3 + d2 + d1) + (q AND 0xf) = of_nat a0" by (simp add: w a0_def)
    show "of_nat (a0 div 10) + 9 * d3 + 5 * d2 + d1 = of_nat a1" by (simp add: w a1_def)
    show "of_nat (a1 div 10) + 2 * d2 = of_nat a2" by (simp add: w a2_def)
    show "of_nat (a2 div 10) + 4 * d3 = of_nat (n div 1000)" by (simp add: w flip: s(9))
    show "(of_nat a1 :: u32) = 0 \<longleftrightarrow> n div 10 = 0" using s(2) z1 of_nat_eq_0 [of a1] by simp
    show "(of_nat a2 :: u32) = 0 \<and> d3 = 0 \<longleftrightarrow> n div 100 = 0" using s(3) z2 z3 of_nat_eq_0 [of a2] by simp
    show "n div 1000 < 1000" using s(4,9) by simp
  qed (use s in simp_all)
qed

lemma put_dec_full_digits:
  assumes "unat q < 100000"
  shows "put_dec_full q = map (\<lambda>k. dec_digit (unat q div 10 ^ k)) [0, 1, 2, 3, 4]"
proof -
  obtain a0 a1 a2 where s:
    "6 * (drop_bit 12 q + (drop_bit 8 q AND 0xf) + (drop_bit 4 q AND 0xf)) + (q AND 0xf) = of_nat a0" "a0 < 1000"
    "a0 mod 10 = unat q mod 10"
    "of_nat (a0 div 10) + 9 * drop_bit 12 q + 5 * (drop_bit 8 q AND 0xf) + (drop_bit 4 q AND 0xf) = of_nat a1" "a1 < 1000"
    "a1 mod 10 = unat q div 10 mod 10"
    "of_nat (a1 div 10) + 2 * (drop_bit 8 q AND 0xf) = of_nat a2" "a2 < 64" "a2 mod 10 = unat q div 100 mod 10"
    "of_nat (a2 div 10) + 4 * drop_bit 12 q = of_nat (unat q div 1000)" "unat q div 1000 < 1000"
    by (rule dec_steps [OF assms])
  have top: "unat q div 10000 mod 10 = unat q div 10000"
    using assms by (simp add: less_mult_imp_div_less)
  show ?thesis
    unfolding put_dec_full_def Let_def
    by (simp only: s shift_div of_nat_minus10 ucast_digit) (simp add: dec_digit_def top flip: div_mult2_eq)
qed

lemma dec_rev_digits: "dec_rev n = dec_digit n # (if n div 10 = 0 then [] else dec_rev (n div 10))"
  by (subst dec_rev.simps) (simp add: dec_digit_def add.commute div_eq_0_iff)

lemma put_dec_trunc_digits:
  assumes "unat q < 100000"
  shows "put_dec_trunc q = dec_rev (unat q)"
proof -
  let ?n = "unat q"
  obtain a0 a1 a2 where s:
    "6 * (drop_bit 12 q + (drop_bit 8 q AND 0xf) + (drop_bit 4 q AND 0xf)) + (q AND 0xf) = of_nat a0" "a0 < 1000"
    "a0 mod 10 = ?n mod 10"
    "of_nat (a0 div 10) + 9 * drop_bit 12 q + 5 * (drop_bit 8 q AND 0xf) + (drop_bit 4 q AND 0xf) = of_nat a1" "a1 < 1000"
    "a1 mod 10 = ?n div 10 mod 10"
    "of_nat (a1 div 10) + 2 * (drop_bit 8 q AND 0xf) = of_nat a2" "a2 < 64" "a2 mod 10 = ?n div 100 mod 10"
    "of_nat (a2 div 10) + 4 * drop_bit 12 q = of_nat (?n div 1000)" "?n div 1000 < 1000"
    and z: "(of_nat a1 :: u32) = 0 \<longleftrightarrow> ?n div 10 = 0" "(of_nat a2 :: u32) = 0 \<and> drop_bit 12 q = 0 \<longleftrightarrow> ?n div 100 = 0"
    by (rule dec_steps [OF assms])
  have z3: "(of_nat (?n div 1000) :: u32) = 0 \<longleftrightarrow> ?n div 1000 = 0"
    and z4: "(of_nat (?n div 1000 div 10) :: u32) = 0 \<longleftrightarrow> ?n div 1000 div 10 = 0"
    using s(11) by (intro of_nat_eq_0; simp)+
  have dd: "?n div 10 div 10 = ?n div 100" "?n div 100 div 10 = ?n div 1000" by (simp_all flip: div_mult2_eq)
  have top: "?n div 1000 div 10 < 10" using assms by (simp add: less_mult_imp_div_less flip: div_mult2_eq)
  then have last: "dec_rev (?n div 1000 div 10) = [of_nat (?n div 1000 div 10) + 48]"
    by (subst dec_rev_digits) (simp add: dec_digit_def)
  have dig: "of_nat (k mod 10) + 48 = dec_digit k" for k by (simp add: dec_digit_def)
  have ref: "dec_rev ?n = dec_digit ?n # (if ?n div 10 = 0 then [] else dec_digit (?n div 10)
      # (if ?n div 100 = 0 then [] else dec_digit (?n div 100)
      # (if ?n div 1000 = 0 then [] else dec_digit (?n div 1000)
      # (if ?n div 1000 div 10 = 0 then [] else [of_nat (?n div 1000 div 10) + 48]))))"
    using last by (simp only: dec_rev_digits [of ?n] dec_rev_digits [of "?n div 10"] dec_rev_digits [of "?n div 100"]
        dec_rev_digits [of "?n div 1000"] dd)
  show ?thesis
    unfolding put_dec_trunc_def Let_def ref
    by (simp only: s shift_div of_nat_minus10 ucast_digit z z3 z4 dig)
      (cases "?n div 10 = 0"; cases "?n div 100 = 0"; cases "?n div 1000 = 0"; cases "?n div 1000 div 10 = 0";
        simp only: simp_thms if_True if_False)
qed

lemma dec_rev_5:
  assumes "100000 \<le> n"
  shows "dec_rev n = map (\<lambda>k. dec_digit (n div 10 ^ k)) [0, 1, 2, 3, 4] @ dec_rev (n div 100000)"
proof -
  have nz: "n div 10 \<noteq> 0" "n div 100 \<noteq> 0" "n div 1000 \<noteq> 0" "n div 10000 \<noteq> 0" "n div 100000 \<noteq> 0"
    using assms by (simp_all add: div_eq_0_iff)
  have dd: "n div 10 div 10 = n div 100" "n div 100 div 10 = n div 1000" "n div 1000 div 10 = n div 10000"
    "n div 10000 div 10 = n div 100000" by (simp_all flip: div_mult2_eq)
  have "dec_rev n = dec_digit n # dec_digit (n div 10) # dec_digit (n div 100) # dec_digit (n div 1000)
      # dec_digit (n div 10000) # dec_rev (n div 100000)"
    by (simp only: dec_rev_digits [of n] dec_rev_digits [of "n div 10"] dec_rev_digits [of "n div 100"]
        dec_rev_digits [of "n div 1000"] dec_rev_digits [of "n div 10000"] dd nz if_False)
  then show ?thesis by simp
qed

lemma dec_digit_low: "k \<in> {0, 1, 2, 3, 4} \<Longrightarrow> dec_digit (n mod 100000 div 10 ^ k) = dec_digit (n div 10 ^ k)"
proof -
  assume k: "k \<in> {0, 1, 2, 3, 4}"
  then have "(100000 :: nat) = 10 ^ k * (10 * 10 ^ (4 - k))" by auto
  then have "n = n mod 100000 + 10 ^ k * (10 * (10 ^ (4 - k) * (n div 100000)))"
    by (metis mod_mult_div_eq mult.assoc)
  then have "n div 10 ^ k = n mod 100000 div 10 ^ k + 10 * (10 ^ (4 - k) * (n div 100000))"
    by (metis div_mult_self2 power_not_zero zero_neq_numeral add.commute)
  then show ?thesis by (simp add: dec_digit_def)
qed

lemma put_dec_digits: "put_dec num = dec_rev (unat num)"
proof (induction num rule: put_dec.induct)
  case (1 num)
  show ?case
  proof (cases "num < 100000")
    case True
    then have "unat num < 100000" by (simp add: word_less_nat_alt)
    then show ?thesis using True put_dec_trunc_digits [of "ucast num"]
      by (simp add: put_dec.simps [of num] unsigned_ucast_eq take_bit_eq_mod)
  next
    case False
    then have big: "100000 \<le> unat num" by (simp add: word_less_nat_alt)
    have q: "unat (ucast (num mod 100000) :: u32) = unat num mod 100000"
      by (simp add: unsigned_ucast_eq take_bit_eq_mod unat_mod mod_mod_cancel less_imp_le [THEN le_less_trans])
    have "put_dec num = put_dec_full (ucast (num mod 100000)) @ dec_rev (unat num div 100000)"
      using 1 [OF False] False by (subst put_dec.simps) (simp add: unat_div)
    also have "put_dec_full (ucast (num mod 100000)) = map (\<lambda>k. dec_digit (unat num div 10 ^ k)) [0, 1, 2, 3, 4]"
      using put_dec_full_digits [of "ucast (num mod 100000)"] dec_digit_low [of 0 "unat num"] dec_digit_low [of 1 "unat num"]
        dec_digit_low [of 2 "unat num"] dec_digit_low [of 3 "unat num"] dec_digit_low [of 4 "unat num"] by (simp add: q)
    finally show ?thesis using dec_rev_5 [OF big] by simp
  qed
qed

section \<open>Reading back what was printed\<close>

definition digit_char :: "nat \<Rightarrow> u8" where
  "digit_char d = (if d < 10 then 48 + of_nat d else 87 + of_nat d)"

text \<open>The digits of a number in a base, the least significant first.\<close>

function digits_rev :: "nat \<Rightarrow> nat \<Rightarrow> u8 list" where
  "digits_rev b n = digit_char (n mod b) # (if n < b \<or> b < 2 then [] else digits_rev b (n div b))"
  by pat_completeness auto
termination
  by (relation "measure snd") (auto simp: not_less intro!: div_less_dividend)

declare digits_rev.simps [simp del]

lemma dec_rev_base_10: "dec_rev n = digits_rev 10 n"
  by (induction n rule: dec_rev.induct) (subst dec_rev.simps, subst digits_rev.simps, simp add: digit_char_def)

lemma digit_cases:
  assumes "d < 16"
  shows "isxdigit (digit_char d)" "digit_value (digit_char d) = (of_nat d :: u32)" "digit_char d = 48 \<longleftrightarrow> d = 0"
    "number_digit (of_nat d) OR 0x20 = digit_char d"
proof -
  have "\<forall>d\<in>set [0..<16]. isxdigit (digit_char d) \<and> digit_value (digit_char d) = (of_nat d :: u32)
      \<and> (digit_char d = 48 \<longleftrightarrow> d = 0) \<and> number_digit (of_nat d) OR 0x20 = digit_char d"
    by code_simp
  then show "isxdigit (digit_char d)" "digit_value (digit_char d) = (of_nat d :: u32)" "digit_char d = 48 \<longleftrightarrow> d = 0"
    "number_digit (of_nat d) OR 0x20 = digit_char d"
    using assms by (simp_all only: set_upt atLeastLessThan_iff zero_le ball_simps)
qed

lemma strtoul_digits_append:
  assumes "\<forall>d\<in>set ds. isxdigit d \<and> digit_value d < base" and "\<not> isxdigit c"
  shows "strtoul_digits base acc k (ds @ c # s) = Inr (foldl (\<lambda>a d. a * base + digit_value d) acc ds, k + length ds)"
  using assms by (induction ds arbitrary: acc k) auto

lemma set_digits_rev:
  "2 \<le> b \<Longrightarrow> set (digits_rev b n) \<subseteq> digit_char ` {0..<b}"
proof (induction b n rule: digits_rev.induct)
  case (1 b n)
  then show ?case by (subst digits_rev.simps) auto
qed

lemma digits_rev_value:
  assumes "2 \<le> b" and "b \<le> 16"
  shows "foldr (\<lambda>d a. a * of_nat b + digit_value d) (digits_rev b n) 0 = (of_nat n :: u32)"
  using assms
proof (induction b n rule: digits_rev.induct)
  case (1 b n)
  have "n mod b < 16" using 1(2,3) by (meson less_le_trans mod_less_divisor less_le_trans zero_less_numeral)
  then have v: "digit_value (digit_char (n mod b)) = (of_nat (n mod b) :: u32)" by (rule digit_cases)
  have "(of_nat n :: u32) = of_nat (n div b) * of_nat b + of_nat (n mod b)"
    by (metis div_mult_mod_eq of_nat_add of_nat_mult)
  then show ?case using 1 v by (subst digits_rev.simps) auto
qed

lemma digits_rev_leading:
  "2 \<le> b \<Longrightarrow> b \<le> 16 \<Longrightarrow> 0 < n \<Longrightarrow> last (digits_rev b n) \<noteq> 48"
proof (induction b n rule: digits_rev.induct)
  case (1 b n)
  show ?case
  proof (cases "n < b")
    case True
    then show ?thesis using 1(2-4) digit_cases(3) [of n] by (subst digits_rev.simps) simp
  next
    case False
    then have "0 < n div b" using 1(2) by (simp add: div_greater_zero_iff)
    moreover have "digits_rev b (n div b) \<noteq> []" by (subst digits_rev.simps) simp
    ultimately show ?thesis using 1 False by (subst digits_rev.simps) simp
  qed
qed

lemma read_digits:
  fixes n :: u32
  assumes b: "b = 10 \<or> b = 16" and c: "\<not> isxdigit c" "c \<noteq> 120"
  shows "simple_strtoul (rev (digits_rev b (unat n)) @ c # s) (of_nat b) = Inr (n, length (digits_rev b (unat n)))"
proof (cases "n = 0")
  case True
  have "digits_rev b 0 = [48]" using b by (subst digits_rev.simps) (auto simp: digit_char_def)
  then show ?thesis
    using True b c by (auto simp: simple_strtoul_def strtoul_any_def strtoul_prefix_def)
next
  case False
  let ?ds = "digits_rev b (unat n)"
  have b2: "2 \<le> b" "b \<le> 16" using b by auto
  have pos: "0 < unat n" using False by (simp add: unat_gt_0)
  obtain d ds where ds: "rev ?ds = d # ds" "d \<noteq> 48"
    using digits_rev_leading [OF b2 pos] by (cases "rev ?ds") (auto simp: hd_rev [symmetric] digits_rev.simps [of b "unat n"])
  have pre: "strtoul_prefix (of_nat b) (rev ?ds @ c # s) = Inr (of_nat b :: u32, 0)"
    using ds b by (auto simp: strtoul_prefix_def)
  have "digit_value x < (of_nat b :: u32)" "isxdigit x" if "x \<in> set ?ds" for x
  proof -
    have "x \<in> digit_char ` {0..<b}" using set_digits_rev [OF b2(1)] that by blast
    then obtain k where k: "x = digit_char k" "k < b" by auto
    then show "isxdigit x" using b2 by (simp add: digit_cases)
    show "digit_value x < (of_nat b :: u32)" using k b by (auto simp: digit_cases word_less_nat_alt unat_of_nat)
  qed
  then have "strtoul_digits (of_nat b) 0 0 (rev ?ds @ c # s) = Inr (n, length ?ds)"
    using strtoul_digits_append [of "rev ?ds" "of_nat b :: u32" c 0 0 s] c(1) digits_rev_value [OF b2, of "unat n"]
    by (simp add: foldl_conv_foldr)
  then show ?thesis using pre by (simp add: simple_strtoul_def strtoul_any_def)
qed

lemma low_nibble: "ucast num AND (0xf :: u8) = of_nat (unat (num :: u64) mod 16)"
proof -
  have "(0xf :: u8) = mask 4" by (simp add: mask_eq_exp_minus_1)
  then have "ucast num AND (0xf :: u8) = ucast num mod 2 ^ 4" by (simp only: take_bit_eq_mask [symmetric] take_bit_eq_mod)
  then show ?thesis
    by (simp add: word_unat_eq_iff unat_mod unat_of_nat unsigned_ucast_eq take_bit_eq_mod mod_mod_cancel)
qed

lemma put_pow2_hex:
  "put_pow2 3 15 0x20 num = digits_rev 16 (unat num)"
proof (induction "unat num" arbitrary: num rule: less_induct)
  case less
  have d: "unat (drop_bit 4 num) = unat num div 16"
    unfolding unat_drop_bit_eq by (simp add: drop_bit_eq_div)
  have h: "number_digit (ucast num AND 0xf) OR 0x20 = digit_char (unat num mod 16)"
    using digit_cases(4) [of "unat num mod 16"] low_nibble [of num] by simp
  have z: "drop_bit 4 num = 0 \<longleftrightarrow> unat num < 16" using d by (simp add: word_unat_eq_iff div_eq_0_iff)
  show ?case
  proof (cases "unat num < 16")
    case True
    then show ?thesis using h z by (subst put_pow2.simps, subst digits_rev.simps) simp
  next
    case False
    then have "unat (drop_bit 4 num) < unat num" using d by simp
    then show ?thesis using h z d False less by (subst put_pow2.simps, subst digits_rev.simps) simp
  qed
qed

text \<open>C32: the decimal conversion without divisions is right: for every 64-bit number it produces the
  decimal digits that repeated division by ten gives.\<close>

theorem put_dec_is_decimal: "put_dec num = digits_rev 10 (unat num)"
  using put_dec_digits [of num] dec_rev_base_10 [of "unat num"] by (rule trans)

text \<open>Conversions without flags, width, precision and qualifier.\<close>

definition plain :: "u8 \<Rightarrow> bool" where
  "plain c \<longleftrightarrow> c \<notin> {45, 43, 32, 35, 48, 42, 46, 104, 108, 76, 90, 122, 116} \<and> \<not> isdigit c"

lemma parse_spec_plain: "plain c \<Longrightarrow> parse_spec (c # r) args = Inr (0, -1, -1, 0, c # r, args)"
  by (simp add: plain_def parse_spec_def parse_width_def parse_precision_def parse_qualifier_def)

lemma pad_neg [simp]: "n \<le> 0 \<Longrightarrow> pad n c = []"
  by (simp add: pad_def)

lemma number_plain: "f = 0 \<or> f = SMALL \<Longrightarrow> number num base (-1) (-1) f = rev (number_digits num base f)"
  by (auto simp: number_def number_sign_def Let_def)

lemma number_digits_dec: "number_digits num 10 f = digits_rev 10 (unat num)"
proof (cases "num = 0")
  case True
  have "digits_rev 10 0 = [48]" by (subst digits_rev.simps) (simp add: digit_char_def)
  then show ?thesis using True by (simp add: number_digits_def)
next
  case False
  then show ?thesis by (simp add: number_digits_def put_dec_digits dec_rev_base_10)
qed

lemma number_digits_hex: "number_digits num 16 SMALL = digits_rev 16 (unat num)"
proof (cases "num = 0")
  case True
  have "digits_rev 16 0 = [48]" by (subst digits_rev.simps) (simp add: digit_char_def)
  then show ?thesis using True by (simp add: number_digits_def)
next
  case False
  then show ?thesis by (simp add: number_digits_def put_pow2_hex)
qed

lemma unat_ucast_u64: "unat (ucast (n :: u32) :: u64) = unat n"
  using unsigned_less [of n, where 'a = nat] by (simp add: unsigned_ucast_eq take_bit_eq_mod)

lemma vformat_text [simp]:
  "vformat k (0 # r) args = Inr ([], [])"
  "c \<noteq> 0 \<Longrightarrow> c \<noteq> 37 \<Longrightarrow> vformat k (c # r) args = bind_result (vformat (Suc k) r args) (\<lambda>(out, st). Inr (c # out, st))"
  by simp_all

declare vformat.simps [simp del]

lemma vformat_int_plain:
  assumes "c = 117 \<and> b = 10 \<and> f = 0 \<or> c = 120 \<and> b = 16 \<and> f = SMALL"
  shows "vformat k (37 # c # r) (VA_Int n # args) =
     bind_result (vformat (k + length (digits_rev b (unat n))) r args)
       (\<lambda>(out, st). Inr (rev (digits_rev b (unat n)) @ out, st))"
proof -
  have p: "plain c" using assms by (auto simp: plain_def isdigit_def)
  have "number (ucast n) b (-1) (-1) f = rev (digits_rev b (unat n))"
    using assms by (auto simp: number_plain number_digits_dec number_digits_hex unat_ucast_u64)
  then have "convert c f0 f1 0 (-1) (-1) 0 k (VA_Int n # args) = Inr (rev (digits_rev b (unat n)), args, [])" for f0 f1
    using assms by (auto simp: convert_def int_conversion_def va_number_def)
  moreover have "after_conversion c r = r" "c \<noteq> 0" using assms by (auto simp: after_conversion_def)
  ultimately show ?thesis by (simp add: vformat.simps(2) [of k 37] parse_spec_plain [OF p])
qed

text \<open>C33: printing and reading are inverse: the text that \<open>%u\<close> or \<open>%x\<close> produces for an unsigned int is
  read back by \<open>simple_strtoul\<close> as the same number, and all of it is consumed.\<close>

theorem printed_numbers_read_back:
  "(\<exists>out. vformat 0 (to_mem ''%u'' @ [0]) [VA_Int n] = Inr (out, [])
      \<and> simple_strtoul (out @ 0 # s) 10 = Inr (n, length out))
   \<and> (\<exists>out. vformat 0 (to_mem ''%x'' @ [0]) [VA_Int n] = Inr (out, [])
      \<and> simple_strtoul (out @ 0 # s) 16 = Inr (n, length out))"
proof -
  have u: "vformat 0 (to_mem ''%u'' @ [0]) [VA_Int n] = Inr (rev (digits_rev 10 (unat n)), [])"
    by (simp add: to_mem_def vformat_int_plain [where b = 10 and f = 0])
  have x: "vformat 0 (to_mem ''%x'' @ [0]) [VA_Int n] = Inr (rev (digits_rev 16 (unat n)), [])"
    by (simp add: to_mem_def vformat_int_plain [where b = 16 and f = SMALL])
  have nx: "\<not> isxdigit 0" by (simp add: isxdigit_def isdigit_def)
  show ?thesis using u x read_digits [of 10 0 n s] read_digits [of 16 0 n s] nx by simp
qed

lemma put_bytes_front:
  "length bs \<le> m \<Longrightarrow> drop m (put_bytes 0 bs xs) = drop m xs"
  "length bs \<le> m \<Longrightarrow> take m (put_bytes 0 bs xs) = bs @ take (m - length bs) (drop (length bs) xs)"
  by (simp_all add: put_bytes_def)



end
