(* ===== verification/Uip_Arp.thy ===== *)
theory Uip_Arp
  imports Uip_State
begin

text \<open>
  httpd/uip_arp.c: the ARP cache of the stack.  The globals of the file are the record
  \<open>arp_state\<close>; the packet and its length are those of \<open>uip_state\<close>.  The locale \<open>addr_cache\<close> states
  what the rest of the program relies on, and is interpreted on the model.
\<close>

abbreviation (input) UIP_ARPTAB_SIZE :: nat where "UIP_ARPTAB_SIZE \<equiv> 2"
abbreviation (input) UIP_ARP_MAXAGE :: int where "UIP_ARP_MAXAGE \<equiv> 120"
abbreviation (input) UIP_ETHTYPE_ARP :: u16 where "UIP_ETHTYPE_ARP \<equiv> 0x0806"
abbreviation (input) UIP_ETHTYPE_IP :: u16 where "UIP_ETHTYPE_IP \<equiv> 0x0800"
abbreviation (input) ARP_REQUEST :: u16 where "ARP_REQUEST \<equiv> 1"
abbreviation (input) ARP_REPLY :: u16 where "ARP_REPLY \<equiv> 2"
abbreviation (input) ARP_HWTYPE_ETH :: u16 where "ARP_HWTYPE_ETH \<equiv> 1"

record arp_entry =
  ae_ipaddr :: ip4
  ae_ethaddr :: "u8 list"
  ae_time :: u8

record arp_state =
  arp_table :: "arp_entry list"
  arptime :: u8
  uip_ethaddr :: "u8 list"
  uip_arp_netmask :: ip4
  uip_arp_draddr :: ip4

text \<open>The fields of \<open>struct uip_arp_hdr\<close> at \<open>uip_buf\<close>.\<close>

abbreviation (input) "ETH_dest b \<equiv> bytes_at b 0 6"
abbreviation (input) "ETH_src b \<equiv> bytes_at b 6 6"
abbreviation (input) "ETH_type b \<equiv> ld16 b 12"
abbreviation (input) "ARP_opcode b \<equiv> ld16 b 20"
abbreviation (input) "ARP_shwaddr b \<equiv> bytes_at b 22 6"
abbreviation (input) "ARP_sipaddr b \<equiv> (ld16 b 28, ld16 b 30)"
abbreviation (input) "ARP_dhwaddr b \<equiv> bytes_at b 32 6"
abbreviation (input) "ARP_dipaddr b \<equiv> (ld16 b 38, ld16 b 40)"

definition uip_arp_init :: "arp_state \<Rightarrow> arp_state" where
  "uip_arp_init a = a\<lparr>arp_table := map (\<lambda>e. e\<lparr>ae_ipaddr := (0, 0)\<rparr>) (arp_table a)\<rparr>"

text \<open>\<open>arptime - tabptr->time\<close>: both operands are promoted to \<open>int\<close>.\<close>

definition arp_age :: "u8 \<Rightarrow> arp_entry \<Rightarrow> int" where
  "arp_age now e = uint now - uint (ae_time e)"

definition uip_arp_timer :: "arp_state \<Rightarrow> arp_state" where
  "uip_arp_timer a =
     (let now = arptime a + 1
      in a\<lparr>arptime := now,
           arp_table := map (\<lambda>e.
             if fst (ae_ipaddr e) OR snd (ae_ipaddr e) \<noteq> 0 \<and> UIP_ARP_MAXAGE \<le> arp_age now e
             then e\<lparr>ae_ipaddr := (0, 0)\<rparr> else e) (arp_table a)\<rparr>)"

text \<open>
  The last loop of \<open>uip_arp_update\<close> looks for the oldest entry.  It leaves the index in \<open>c\<close> and
  then in \<open>i\<close>, but the entry that is written is \<open>*tabptr\<close>, where the loop has left it: at the last
  entry of the table.
\<close>

definition arp_matches :: "ip4 \<Rightarrow> arp_entry \<Rightarrow> bool" where
  "arp_matches ip e \<longleftrightarrow> fst (ae_ipaddr e) \<noteq> 0 \<and> snd (ae_ipaddr e) \<noteq> 0 \<and> ip = ae_ipaddr e"

definition arp_slot :: "arp_entry list \<Rightarrow> nat" where
  "arp_slot t =
     (case find (\<lambda>i. ae_ipaddr (t ! i) = (0, 0)) [0..<UIP_ARPTAB_SIZE] of
        Some i \<Rightarrow> i
      | None \<Rightarrow> UIP_ARPTAB_SIZE - 1)"

definition uip_arp_update :: "ip4 \<Rightarrow> u8 list \<Rightarrow> arp_state \<Rightarrow> arp_state" where
  "uip_arp_update ip eth a =
     (let t = arp_table a
      in case find (\<lambda>i. arp_matches ip (t ! i)) [0..<UIP_ARPTAB_SIZE] of
           Some i \<Rightarrow> a\<lparr>arp_table := t[i := (t ! i)\<lparr>ae_ethaddr := eth, ae_time := arptime a\<rparr>]\<rparr>
         | None \<Rightarrow>
             let i = arp_slot t
             in a\<lparr>arp_table := t[i := (t ! i)\<lparr>ae_ipaddr := ip, ae_ethaddr := eth, ae_time := arptime a\<rparr>]\<rparr>)"

text \<open>The entry the comment above the code describes: the one with the greatest age.\<close>

fun arp_oldest :: "u8 \<Rightarrow> arp_entry list \<Rightarrow> nat list \<Rightarrow> u8 \<Rightarrow> nat \<Rightarrow> nat" where
  "arp_oldest now t [] tmpage c = c"
| "arp_oldest now t (i # is) tmpage c =
     (if uint tmpage < arp_age now (t ! i)
      then arp_oldest now t is (word_of_int (arp_age now (t ! i))) i
      else arp_oldest now t is tmpage c)"

definition on_local_net :: "arp_state \<Rightarrow> ip4 \<Rightarrow> ip4 \<Rightarrow> bool" where
  "on_local_net a host ip \<longleftrightarrow>
     fst ip AND fst (uip_arp_netmask a) = fst host AND fst (uip_arp_netmask a)
     \<and> snd ip AND snd (uip_arp_netmask a) = snd host AND snd (uip_arp_netmask a)"

definition uip_arp_ipin :: "arp_state \<Rightarrow> 'a uip_state_scheme \<Rightarrow> arp_state \<times> 'a uip_state_scheme" where
  "uip_arp_ipin a s =
     (let s = s\<lparr>uip_len := uip_len s - 14\<rparr>; b = uip_buf s
      in if on_local_net a (uip_hostaddr s) (BUF_srcipaddr b)
         then (uip_arp_update (BUF_srcipaddr b) (ETH_src b) a, s)
         else (a, s))"

definition uip_arp_arpin :: "arp_state \<Rightarrow> 'a uip_state_scheme \<Rightarrow> arp_state \<times> 'a uip_state_scheme" where
  "uip_arp_arpin a s =
     (if uip_len s < 42 then (a, s\<lparr>uip_len := 0\<rparr>)
      else
        let s = s\<lparr>uip_len := 0\<rparr>; b = uip_buf s; host = uip_hostaddr s
        in if ARP_opcode b = htons ARP_REQUEST then
             if ARP_dipaddr b = host then
               let b = st16 20 (htons 2) b;
                   b = put_bytes 32 (ARP_shwaddr b) b;
                   b = put_bytes 22 (uip_ethaddr a) b;
                   b = put_bytes 6 (uip_ethaddr a) b;
                   b = put_bytes 0 (ARP_dhwaddr b) b;
                   b = st16 38 (ld16 b 28) b;
                   b = st16 40 (ld16 b 30) b;
                   b = st16 28 (fst host) b;
                   b = st16 30 (snd host) b;
                   b = st16 12 (htons UIP_ETHTYPE_ARP) b
               in (a, s\<lparr>uip_buf := b, uip_len := 42\<rparr>)
             else (a, s)
           else if ARP_opcode b = htons ARP_REPLY then
             if ARP_dipaddr b = host
             then (uip_arp_update (ARP_sipaddr b) (ARP_shwaddr b) a, s)
             else (a, s)
           else (a, s))"

definition arp_next_hop :: "arp_state \<Rightarrow> 'a uip_state_scheme \<Rightarrow> ip4" where
  "arp_next_hop a s =
     (if on_local_net a (uip_hostaddr s) (BUF_destipaddr (uip_buf s))
      then BUF_destipaddr (uip_buf s) else uip_arp_draddr a)"

definition arp_find :: "arp_entry list \<Rightarrow> ip4 \<Rightarrow> nat option" where
  "arp_find t ip = find (\<lambda>i. ip = ae_ipaddr (t ! i)) [0..<UIP_ARPTAB_SIZE]"

definition uip_arp_out :: "arp_state \<Rightarrow> 'a uip_state_scheme \<Rightarrow> 'a uip_state_scheme" where
  "uip_arp_out a s =
     (let b = uip_buf s; host = uip_hostaddr s; ip = arp_next_hop a s
      in case arp_find (arp_table a) ip of
           None \<Rightarrow>
             let b = put_bytes 0 (replicate 6 0xff) b;
                 b = put_bytes 32 (replicate 6 0x00) b;
                 b = put_bytes 6 (uip_ethaddr a) b;
                 b = put_bytes 22 (uip_ethaddr a) b;
                 b = st16 38 (fst ip) b;
                 b = st16 40 (snd ip) b;
                 b = st16 28 (fst host) b;
                 b = st16 30 (snd host) b;
                 b = st16 20 (htons ARP_REQUEST) b;
                 b = st16 14 (htons ARP_HWTYPE_ETH) b;
                 b = st16 16 (htons UIP_ETHTYPE_IP) b;
                 b = b[18 := 6, 19 := 4];
                 b = st16 12 (htons UIP_ETHTYPE_ARP) b
             in s\<lparr>uip_buf := b, uip_appdata := In_Buf 54, uip_len := 42\<rparr>
         | Some i \<Rightarrow>
             let b = put_bytes 0 (ae_ethaddr (arp_table a ! i)) b;
                 b = put_bytes 6 (uip_ethaddr a) b;
                 b = st16 12 (htons UIP_ETHTYPE_IP) b
             in s\<lparr>uip_buf := b, uip_len := uip_len s + 14\<rparr>)"

section \<open>Fields of a buffer with an overwritten range\<close>

lemma bytes_at_put_same [simp]:
  "i + length v \<le> length b \<Longrightarrow> n = length v \<Longrightarrow> bytes_at (put_bytes i v b) i n = v"
  by (simp add: bytes_at_def)

lemma bytes_at_put_other [simp]:
  assumes "i + length v \<le> j \<or> j + n \<le> i" and "i + length v \<le> length b"
  shows "bytes_at (put_bytes i v b) j n = bytes_at b j n"
  by (rule nth_equalityI) (use assms in \<open>auto simp: bytes_at_def nth_put_bytes\<close>)

lemma nth_put_bytes_other [simp]:
  assumes "i + length v \<le> j \<or> j < i" and "i + length v \<le> length b"
  shows "put_bytes i v b ! j = b ! j"
  using assms by (cases "j < length b") (auto simp: nth_put_bytes, auto simp: put_bytes_def nth_append)

lemma ld16_put_other [simp]:
  "i + length v \<le> j \<or> Suc j < i \<Longrightarrow> i + length v \<le> length b \<Longrightarrow> ld16 (put_bytes i v b) j = ld16 b j"
  unfolding ld16_def by (subst (1 2) nth_put_bytes_other) auto

section \<open>The cache as an interface\<close>

text \<open>
  What the sender relies on: an address that has been learnt is found, with the link-layer address
  learnt last; learning one address does not change what is known of another, it may only forget
  it; time never invents an answer.
\<close>

locale addr_cache =
  fixes lookup :: "'s \<Rightarrow> 'ip \<Rightarrow> 'eth option"
    and learn :: "'ip \<Rightarrow> 'eth \<Rightarrow> 's \<Rightarrow> 's"
    and tick :: "'s \<Rightarrow> 's"
    and good :: "'s \<Rightarrow> bool"
    and usable :: "'ip \<Rightarrow> bool"
  assumes good_learn: "good s \<Longrightarrow> good (learn ip eth s)"
    and good_tick: "good s \<Longrightarrow> good (tick s)"
    and lookup_learn: "good s \<Longrightarrow> usable ip \<Longrightarrow> lookup (learn ip eth s) ip = Some eth"
    and lookup_learn_other:
      "good s \<Longrightarrow> usable ip \<Longrightarrow> usable ip' \<Longrightarrow> ip' \<noteq> ip \<Longrightarrow>
       lookup (learn ip eth s) ip' \<in> {lookup s ip', None}"
    and lookup_tick: "good s \<Longrightarrow> usable ip \<Longrightarrow> lookup (tick s) ip \<in> {lookup s ip, None}"
begin

text \<open>The packets a host sees: addresses learnt and clock ticks, in any order.\<close>

fun run :: "('ip \<times> 'eth) option list \<Rightarrow> 's \<Rightarrow> 's" where
  "run [] s = s"
| "run (None # es) s = run es (tick s)"
| "run (Some (ip, eth) # es) s = run es (learn ip eth s)"

fun last_learnt :: "('ip \<times> 'eth) option list \<Rightarrow> 'ip \<Rightarrow> 'eth option \<Rightarrow> 'eth option" where
  "last_learnt [] ip r = r"
| "last_learnt (None # es) ip r = last_learnt es ip r"
| "last_learnt (Some (ip', eth) # es) ip r = last_learnt es ip (if ip' = ip then Some eth else r)"

lemma good_run: "good s \<Longrightarrow> good (run es s)"
  by (induction es s rule: run.induct) (simp_all add: good_learn good_tick)

lemma lookup_run:
  assumes "good s" and "usable ip" and "\<forall>e\<in>set es. \<forall>ip' eth. e = Some (ip', eth) \<longrightarrow> usable ip'"
    and "lookup s ip \<in> {r, None}"
  shows "lookup (run es s) ip \<in> {last_learnt es ip r, None}"
  using assms
proof (induction es arbitrary: s r)
  case (Cons e es)
  have us: "\<forall>e\<in>set es. \<forall>ip' eth. e = Some (ip', eth) \<longrightarrow> usable ip'" using Cons.prems(3) by simp
  show ?case
  proof (cases e)
    case None
    have "lookup (tick s) ip \<in> {r, None}" using lookup_tick [OF Cons.prems(1,2)] Cons.prems(4) by auto
    then show ?thesis using Cons.IH [OF good_tick [OF Cons.prems(1)] Cons.prems(2) us] None by simp
  next
    case (Some x)
    obtain ip' eth where x: "x = (ip', eth)" by (cases x)
    have u: "usable ip'" using Cons.prems(3) Some x by simp
    have "lookup (learn ip' eth s) ip \<in> {if ip' = ip then Some eth else r, None}"
      using lookup_learn [OF Cons.prems(1) u] lookup_learn_other [OF Cons.prems(1) u Cons.prems(2), of eth] Cons.prems(4) by auto
    then show ?thesis
      using Cons.IH [OF good_learn [OF Cons.prems(1)] Cons.prems(2) us, of ip' eth] Some x by simp
  qed
qed simp

end

section \<open>The model provides the interface\<close>

definition arp_lookup :: "arp_state \<Rightarrow> ip4 \<Rightarrow> u8 list option" where
  "arp_lookup a ip = map_option (\<lambda>i. ae_ethaddr (arp_table a ! i)) (arp_find (arp_table a) ip)"

definition arp_usable :: "ip4 \<Rightarrow> bool" where
  "arp_usable ip \<longleftrightarrow> fst ip \<noteq> 0 \<and> snd ip \<noteq> 0"

definition arp_good :: "arp_state \<Rightarrow> bool" where
  "arp_good a \<longleftrightarrow> length (arp_table a) = UIP_ARPTAB_SIZE
     \<and> (arp_usable (ae_ipaddr (arp_table a ! 0)) \<longrightarrow> ae_ipaddr (arp_table a ! 0) \<noteq> ae_ipaddr (arp_table a ! 1))"

lemma upto_arptab [simp]: "[0..<UIP_ARPTAB_SIZE] = [0, 1]"
  by (simp add: upt_rec)

lemma length_arptab:
  assumes "length xs = UIP_ARPTAB_SIZE"
  obtains x y where "xs = [x, y]"
  using assms by (auto simp: numeral_eq_Suc length_Suc_conv)

lemmas arp_defs = arp_lookup_def arp_find_def uip_arp_update_def arp_slot_def arp_matches_def
  arp_usable_def arp_good_def uip_arp_timer_def Let_def

lemma arp_goodE:
  assumes "arp_good a"
  obtains x y where "arp_table a = [x, y]"
    and "arp_usable (ae_ipaddr x) \<Longrightarrow> ae_ipaddr x \<noteq> ae_ipaddr y"
  using assms by (auto simp: arp_good_def elim: length_arptab)

interpretation arp: addr_cache arp_lookup uip_arp_update uip_arp_timer arp_good arp_usable
proof
  fix a :: arp_state and ip ip' :: ip4 and eth :: "u8 list"
  assume g: "arp_good a"
  then obtain x y where t: "arp_table a = [x, y]"
    and d: "arp_usable (ae_ipaddr x) \<Longrightarrow> ae_ipaddr x \<noteq> ae_ipaddr y" by (rule arp_goodE) blast
  show "arp_good (uip_arp_update ip eth a)"
    using t d by (auto simp: arp_defs prod_eq_iff)
  show "arp_good (uip_arp_timer a)"
    using t d by (auto simp: arp_defs)
  assume u: "arp_usable ip"
  show "arp_lookup (uip_arp_update ip eth a) ip = Some eth"
    using t d u by (auto simp: arp_defs prod_eq_iff)
  show "arp_lookup (uip_arp_timer a) ip \<in> {arp_lookup a ip, None}"
    using t d u by (auto simp: arp_defs prod_eq_iff)
  assume u': "arp_usable ip'" and ne: "ip' \<noteq> ip"
  show "arp_lookup (uip_arp_update ip eth a) ip' \<in> {arp_lookup a ip', None}"
    using t d u u' ne by (auto simp: arp_defs prod_eq_iff)
qed

section \<open>Properties\<close>

text \<open>A history of the cache: \<open>None\<close> is a call of the timer, \<open>Some (ip, eth)\<close> an update.\<close>

definition arp_event :: "(ip4 \<times> u8 list) option \<Rightarrow> arp_state \<Rightarrow> arp_state" where
  "arp_event e = (case e of None \<Rightarrow> uip_arp_timer | Some (ip, eth) \<Rightarrow> uip_arp_update ip eth)"

definition latest :: "(ip4 \<times> u8 list) option list \<Rightarrow> ip4 \<Rightarrow> u8 list option" where
  "latest es ip = map_of (rev (List.map_filter id es)) ip"

lemma arp_run_fold: "arp.run es a = fold arp_event es a"
  by (induction es a rule: arp.run.induct) (simp_all add: arp_event_def)

lemma last_learnt_map_of:
  "arp.last_learnt es ip r = (case latest es ip of None \<Rightarrow> r | Some eth \<Rightarrow> Some eth)"
proof (induction es ip r rule: arp.last_learnt.induct)
  case (3 ip' eth es ip r)
  then show ?case
    by (auto simp: latest_def map_filter_simps map_add_def map_of_append split: option.splits)
qed (simp_all add: latest_def map_filter_simps)


definition arp_empty :: arp_state where
  "arp_empty = \<lparr>arp_table = replicate 2 \<lparr>ae_ipaddr = (0, 0), ae_ethaddr = replicate 6 0, ae_time = 0\<rparr>,
     arptime = 0, uip_ethaddr = [0, 3, 127, 1, 2, 3], uip_arp_netmask = (0xffff, 0x00ff),
     uip_arp_draddr = (0, 0)\<rparr>"


text \<open>C28: an ARP request for the server's address is answered with a well-formed reply to the
  asking host; every other ARP packet is consumed without an answer.\<close>

theorem uip_arp_arpin_reply:
  assumes "length (uip_buf s) = UIP_BUF_BYTES" and "length (uip_ethaddr a) = 6"
    and "uip_arp_arpin a s = (a', s')"
  shows "if 42 \<le> uip_len s \<and> ARP_opcode (uip_buf s) = htons ARP_REQUEST
            \<and> ARP_dipaddr (uip_buf s) = uip_hostaddr s
         then a' = a \<and> uip_len s' = 42
            \<and> ARP_opcode (uip_buf s') = htons ARP_REPLY
            \<and> ETH_dest (uip_buf s') = ARP_shwaddr (uip_buf s) \<and> ETH_src (uip_buf s') = uip_ethaddr a
            \<and> ETH_type (uip_buf s') = htons UIP_ETHTYPE_ARP
            \<and> ARP_shwaddr (uip_buf s') = uip_ethaddr a \<and> ARP_sipaddr (uip_buf s') = uip_hostaddr s
            \<and> ARP_dhwaddr (uip_buf s') = ARP_shwaddr (uip_buf s)
            \<and> ARP_dipaddr (uip_buf s') = ARP_sipaddr (uip_buf s)
         else uip_len s' = 0 \<and> uip_buf s' = uip_buf s"
  using assms by (auto simp: uip_arp_arpin_def Let_def not_less split: if_splits)

text \<open>A request from 192.168.1.2 for 192.168.1.1, in the little-endian words of the model.\<close>

definition arp_request_state :: uip_state where
  "arp_request_state = \<lparr>uip_hostaddr = (0xa8c0, 0x0101),
     uip_buf = put_bytes 0 ([0xff, 0xff, 0xff, 0xff, 0xff, 0xff, 2, 2, 2, 2, 2, 2, 8, 6, 0, 1, 8, 0, 6, 4, 0, 1,
       2, 2, 2, 2, 2, 2, 192, 168, 1, 2, 0, 0, 0, 0, 0, 0, 192, 168, 1, 1]) (replicate 1502 0),
     uip_appdata = Null, uip_sappdata = Null, uip_urgdata = Null, uip_urglen = 0, uip_len = 42, uip_slen = 0,
     uip_flags = 0, uip_conn_ix = 0, uip_conns = [], uip_listenports = [], ipid = 0, iss = (0, 0, 0, 0),
     uip_objs = []\<rparr>"

theorem uip_arp_arpin_reply_witness:
  "uip_len (snd (uip_arp_arpin arp_empty arp_request_state)) = 42
   \<and> ETH_dest (uip_buf (snd (uip_arp_arpin arp_empty arp_request_state))) = [2, 2, 2, 2, 2, 2]"
proof -
  let ?b = "uip_buf arp_request_state"
  have len: "length ?b = UIP_BUF_BYTES" by (simp add: arp_request_state_def)
  have f: "ARP_opcode ?b = htons ARP_REQUEST" "ARP_dipaddr ?b = uip_hostaddr arp_request_state"
    "ARP_shwaddr ?b = [2, 2, 2, 2, 2, 2]" "42 \<le> uip_len arp_request_state"
    by (simp_all add: arp_request_state_def put_bytes_def ld16_def nth_append bytes_at_def htons_def le16_def
        lo8_def hi8_def)
  show ?thesis
    using uip_arp_arpin_reply [OF len, of arp_empty "fst (uip_arp_arpin arp_empty arp_request_state)"
        "snd (uip_arp_arpin arp_empty arp_request_state)"] f
    by (simp add: arp_empty_def)
qed

text \<open>C29: an outgoing IP packet is framed for the cached link-layer address of its next hop and
  otherwise left alone; when the next hop is not in the cache, the packet is replaced by an ARP
  request for it.\<close>

theorem uip_arp_out_frames:
  assumes "length (uip_buf s) = UIP_BUF_BYTES" and "length (uip_ethaddr a) = 6"
    and "\<forall>e\<in>set (arp_table a). length (ae_ethaddr e) = 6" and "length (arp_table a) = UIP_ARPTAB_SIZE"
  shows "case arp_lookup a (arp_next_hop a s) of
           Some eth \<Rightarrow>
             ETH_dest (uip_buf (uip_arp_out a s)) = eth \<and> ETH_src (uip_buf (uip_arp_out a s)) = uip_ethaddr a
             \<and> ETH_type (uip_buf (uip_arp_out a s)) = htons UIP_ETHTYPE_IP
             \<and> bytes_at (uip_buf (uip_arp_out a s)) 14 1488 = bytes_at (uip_buf s) 14 1488
             \<and> uip_len (uip_arp_out a s) = uip_len s + 14
         | None \<Rightarrow>
             ETH_dest (uip_buf (uip_arp_out a s)) = replicate 6 0xff
             \<and> ETH_src (uip_buf (uip_arp_out a s)) = uip_ethaddr a
             \<and> ETH_type (uip_buf (uip_arp_out a s)) = htons UIP_ETHTYPE_ARP
             \<and> ARP_opcode (uip_buf (uip_arp_out a s)) = htons ARP_REQUEST
             \<and> ARP_shwaddr (uip_buf (uip_arp_out a s)) = uip_ethaddr a
             \<and> ARP_sipaddr (uip_buf (uip_arp_out a s)) = uip_hostaddr s
             \<and> ARP_dipaddr (uip_buf (uip_arp_out a s)) = arp_next_hop a s
             \<and> uip_len (uip_arp_out a s) = 42"
proof (cases "arp_find (arp_table a) (arp_next_hop a s)")
  case None
  then show ?thesis using assms(1,2) by (simp add: arp_lookup_def uip_arp_out_def Let_def)
next
  case (Some i)
  then have "i < length (arp_table a)"
    using assms(4) by (auto simp: arp_find_def split: if_splits)
  then have "length (ae_ethaddr (arp_table a ! i)) = 6" using assms(3) by simp
  with Some show ?thesis using assms(1,2) by (simp add: arp_lookup_def uip_arp_out_def Let_def)
qed

theorem uip_arp_out_frames_witness:
  "ETH_dest (uip_buf (uip_arp_out (uip_arp_update (0xa8c0, 0x0201) [1, 2, 3, 4, 5, 6] arp_empty)
     (arp_request_state\<lparr>uip_buf := st16 30 0xa8c0 (st16 32 0x0201 (replicate 1502 0))\<rparr>))) = [1, 2, 3, 4, 5, 6]"
proof -
  let ?a = "uip_arp_update (0xa8c0, 0x0201) [1, 2, 3, 4, 5, 6] arp_empty"
  let ?s = "arp_request_state\<lparr>uip_buf := st16 30 0xa8c0 (st16 32 0x0201 (replicate 1502 0))\<rparr>"
  have "length (uip_ethaddr ?a) = 6" "\<forall>e\<in>set (arp_table ?a). length (ae_ethaddr e) = 6"
    "length (arp_table ?a) = UIP_ARPTAB_SIZE"
    by (auto simp: arp_empty_def arp_defs dest!: subsetD [OF set_update_subset_insert])
  moreover have "arp_next_hop ?a ?s = (0xa8c0, 0x0201)"
    by (simp add: arp_next_hop_def on_local_net_def arp_request_state_def arp_empty_def arp_defs)
  moreover have "arp_lookup ?a (0xa8c0, 0x0201) = Some [1, 2, 3, 4, 5, 6]"
    by (simp add: arp_empty_def arp_defs)
  ultimately show ?thesis using uip_arp_out_frames [of ?s ?a] by simp
qed

text \<open>when the table is full, a new address always replaces the last entry, also when the loop
  over the ages has found another entry to be the oldest.\<close>

lemma uip_arp_update_full:
  assumes "length (arp_table a) = UIP_ARPTAB_SIZE"
    and "\<forall>e\<in>set (arp_table a). ae_ipaddr e \<noteq> (0, 0) \<and> ae_ipaddr e \<noteq> ip"
  shows "arp_table (uip_arp_update ip eth a)
       = (arp_table a)[UIP_ARPTAB_SIZE - 1 :=
           \<lparr>ae_ipaddr = ip, ae_ethaddr = eth, ae_time = arptime a\<rparr>]"
  using assms by (elim length_arptab) (auto simp: uip_arp_update_def arp_slot_def arp_matches_def Let_def)

lemma uip_arp_update_full_witness:
  "let old = \<lparr>ae_ipaddr = (1, 1), ae_ethaddr = [1], ae_time = 10\<rparr>;
       young = \<lparr>ae_ipaddr = (1, 2), ae_ethaddr = [2], ae_time = 50\<rparr>;
       a = arp_empty\<lparr>arp_table := [old, young], arptime := 60\<rparr>
   in arp_oldest (arptime a) (arp_table a) [0..<UIP_ARPTAB_SIZE] 0 0 = 0
      \<and> arp_table (uip_arp_update (1, 3) [3] a) = [old, \<lparr>ae_ipaddr = (1, 3), ae_ethaddr = [3], ae_time = 60\<rparr>]"
  using uip_arp_update_full [of "arp_empty\<lparr>arp_table := [\<lparr>ae_ipaddr = (1, 1), ae_ethaddr = [1], ae_time = 10\<rparr>,
      \<lparr>ae_ipaddr = (1, 2), ae_ethaddr = [2], ae_time = 50\<rparr>], arptime := 60\<rparr>" "(1, 3)" "[3]"]
  by (simp add: arp_age_def)

end
