(* ===== verification/Net_Httpd.thy ===== *)
theory Net_Httpd
  imports Uip_Props Uip_Arp
begin

text \<open>
  net/httpd.c and the HTTPD section of net/net.c: how frames travel between the Ethernet driver,
  the ARP module and the stack.  The state is the state of the stack and the web server, the ARP
  cache, the counter of \<open>HttpdHandler\<close> and the list of the frames given to \<open>eth_send\<close>, the newest first.
  The receive side of the driver drivers/net/ipq40xx/ipq40xx_edma_eth.c is modelled from the
  buffers the hardware has filled; the registers of its descriptor ring are not.
\<close>

record 'a net =
  stack :: "'a httpd_scheme"
  net_arp :: arp_state
  arptimer :: s32
  eth_sent :: "u8 list list"
  webfailsafe_is_running :: bool

section \<open>Sending and receiving frames\<close>

text \<open>
  \<open>NetTxPacket\<close> is aligned up within \<open>PktBuf\<close>, which has \<open>(PKTBUFSRX + 1) * PKTSIZE_ALIGN + PKTALIGN\<close>
  bytes: at least \<open>17 * 1536\<close> bytes follow it.
\<close>

abbreviation (input) NET_TX_ROOM :: nat where "NET_TX_ROOM \<equiv> 17 * 1536"

text \<open>
  The first 54 bytes come from the packet buffer, the others from \<open>uip_appdata\<close>; a frame shorter than
  54 bytes is cut by the length given to \<open>eth_send\<close>.
\<close>

definition NetSendHttpd :: "'a net \<Rightarrow> 'a net result" where
  "NetSendHttpd n =
     (let s = stack n; len = unat (uip_len s)
      in if NET_TX_ROOM < len then Inl Out_Of_Bounds
         else bind_result (read_mem s (uip_appdata s) (len - 54)) (\<lambda>data.
              Inr (n\<lparr>eth_sent := take len (take 54 (uip_buf s) @ data) # eth_sent n\<rparr>)))"

text \<open>The two ways in which an incoming packet is handled, shared by \<open>NetReceiveHttpd\<close> and \<open>HttpdHandler\<close>.\<close>

definition handle_packet :: "'a site \<Rightarrow> 'a net \<Rightarrow> 'a net result" where
  "handle_packet P n =
     (let ty = ETH_type (uip_buf (stack n))
      in if ty = htons UIP_ETHTYPE_IP then
           let (a, s) = uip_arp_ipin (net_arp n) (stack n)
           in bind_result (uip_input (httpd_appcall P) s) (\<lambda>s.
              let n = n\<lparr>net_arp := a, stack := s\<rparr>
              in if 0 < uip_len s then NetSendHttpd (n\<lparr>stack := uip_arp_out a s\<rparr>) else Inr n)
         else if ty = htons UIP_ETHTYPE_ARP then
           let (a, s) = uip_arp_arpin (net_arp n) (stack n); n = n\<lparr>net_arp := a, stack := s\<rparr>
           in if 0 < uip_len s then NetSendHttpd n else Inr n
         else Inr n)"

definition NetReceiveHttpd :: "'a site \<Rightarrow> u8 list \<Rightarrow> 'a net \<Rightarrow> 'a net result" where
  "NetReceiveHttpd P inpkt n =
     (if UIP_BUF_BYTES < length inpkt then Inl Out_Of_Bounds
      else handle_packet P (n\<lparr>stack := (stack n)\<lparr>uip_buf := put_bytes 0 inpkt (uip_buf (stack n)),
             uip_len := of_nat (length inpkt)\<rparr>\<rparr>))"

fun periodic_all :: "'a site \<Rightarrow> nat list \<Rightarrow> 'a net \<Rightarrow> 'a net result" where
  "periodic_all P [] n = Inr n"
| "periodic_all P (i # is) n =
     bind_result (uip_periodic (httpd_appcall P) i (stack n)) (\<lambda>s.
     bind_result (if 0 < uip_len s then NetSendHttpd (n\<lparr>stack := uip_arp_out (net_arp n) s\<rparr>)
                  else Inr (n\<lparr>stack := s\<rparr>))
       (periodic_all P is))"

definition HttpdHandler :: "'a site \<Rightarrow> 'a net \<Rightarrow> 'a net result" where
  "HttpdHandler P n =
     (if uip_len (stack n) = 0 then
        bind_result (periodic_all P [0..<UIP_CONNS] n) (\<lambda>n.
          let n = n\<lparr>arptimer := arptimer n + 1\<rparr>
          in Inr (if arptimer n = 20 then n\<lparr>net_arp := uip_arp_timer (net_arp n), arptimer := 0\<rparr> else n))
      else handle_packet P n)"

definition HttpdStart :: "'a net \<Rightarrow> 'a net" where
  "HttpdStart n = n\<lparr>stack := httpd_init (uip_init (stack n))\<rparr>"

section \<open>The receive path of the driver\<close>

text \<open>
  A buffer begins with the 16 bytes of the receive return descriptor.  When its valid bit is not
  set, the length of the buffer before stays in use.
\<close>

definition rrd_length :: "u8 list \<Rightarrow> u16 \<Rightarrow> u16" where
  "rrd_length skb len = (if skb ! 15 AND 0x80 \<noteq> 0 then le16 (skb ! 12) (skb ! 13 AND 0x3f) else len)"

fun ipq40xx_edma_rx_complete :: "'a site \<Rightarrow> nat \<Rightarrow> u16 \<Rightarrow> u8 list list \<Rightarrow> 'a net \<Rightarrow> 'a net result" where
  "ipq40xx_edma_rx_complete P 0 len skbs n = Inr n"
| "ipq40xx_edma_rx_complete P (Suc rx) len [] n = Inr n"
| "ipq40xx_edma_rx_complete P (Suc rx) len (skb # skbs) n =
     (let len = rrd_length skb len
      in if length skb < 16 + unat len then Inl Out_Of_Bounds
         else bind_result (NetReceiveHttpd P (bytes_at skb 16 (unat len)) n)
                (ipq40xx_edma_rx_complete P rx len skbs))"

text \<open>\<open>ipq40xx_eth_recv\<close> ends with \<open>return 0\<close>, whatever it has received.\<close>

definition ipq40xx_eth_recv :: "'a site \<Rightarrow> u8 list list \<Rightarrow> 'a net \<Rightarrow> (int \<times> 'a net) result" where
  "ipq40xx_eth_recv P skbs n =
     bind_result (ipq40xx_edma_rx_complete P 16 0 skbs n) (\<lambda>n. Inr (0, n))"

section \<open>Frames on the wire\<close>

definition arp_wf :: "arp_state \<Rightarrow> bool" where
  "arp_wf a \<longleftrightarrow> length (uip_ethaddr a) = 6 \<and> length (arp_table a) = UIP_ARPTAB_SIZE
     \<and> (\<forall>e\<in>set (arp_table a). length (ae_ethaddr e) = 6)"

definition net_inv :: "'a net \<Rightarrow> bool" where
  "net_inv n \<longleftrightarrow> uip_inv (stack n) \<and> arp_wf (net_arp n)"

text \<open>
  A frame a receiver accepts, in the terms of the standards: the ones' complement sum of the IP
  header, and for TCP of the pseudo header and the segment, is a multiple of 65535.
\<close>

definition ip_frame :: "u8 list \<Rightarrow> bool" where
  "ip_frame f \<longleftrightarrow>
     ETH_type f = htons UIP_ETHTYPE_IP \<and> length f = 14 + unat (BUF_iplen f)
     \<and> 65535 dvd sum16 (bytes_at f 14 20)
     \<and> (BUF_proto f = UIP_PROTO_TCP \<longrightarrow> 54 \<le> length f \<and> 65535 dvd tcp_sum f (drop 54 f))"

definition arp_frame :: "u8 list \<Rightarrow> u8 list \<Rightarrow> bool" where
  "arp_frame mac f \<longleftrightarrow>
     ETH_type f = htons UIP_ETHTYPE_ARP \<and> length f = 42 \<and> ARP_shwaddr f = mac
     \<and> (ARP_opcode f = htons ARP_REQUEST \<or> ARP_opcode f = htons ARP_REPLY)"

definition wire_ok :: "u8 list \<Rightarrow> u8 list \<Rightarrow> bool" where
  "wire_ok mac f \<longleftrightarrow> ETH_src f = mac \<and> length f \<le> 1502 \<and> (ip_frame f \<or> arp_frame mac f)"

text \<open>Two byte strings with a common prefix agree on the fields in it.\<close>

lemma bytes_at_prefix: "take m f = take m b \<Longrightarrow> i + n \<le> m \<Longrightarrow> bytes_at f i n = bytes_at b i n"
  by (metis (no_types, lifting) add.commute bytes_at_def drop_take le_add_diff_inverse2 min.absorb1 take_take add_le_imp_le_diff)

lemma nth_prefix: "take m f = take m b \<Longrightarrow> i < m \<Longrightarrow> f ! i = b ! i"
  by (metis nth_take)

lemma ld16_prefix: "take m f = take m b \<Longrightarrow> Suc i < m \<Longrightarrow> ld16 f i = ld16 b i"
  unfolding ld16_def using nth_prefix [of m f b] by simp

lemmas prefix_fields = bytes_at_prefix nth_prefix ld16_prefix

lemma NetSendHttpdE:
  assumes "NetSendHttpd n = Inr n'"
  obtains d where "read_mem (stack n) (uip_appdata (stack n)) (unat (uip_len (stack n)) - 54) = Inr d"
    and "n' = n\<lparr>eth_sent := take (unat (uip_len (stack n))) (take 54 (uip_buf (stack n)) @ d) # eth_sent n\<rparr>"
  using assms by (auto simp: NetSendHttpd_def Let_def split: if_splits)

lemma length_read_mem: "read_mem s p n = Inr d \<Longrightarrow> length d = n"
  by (cases p; cases n) (auto split: if_splits)

lemma frame_prefix:
  assumes "length b = 1502"
  shows "take (min l 54) (take l (take 54 b @ d)) = take (min l 54) b"
  using assms by (simp add: min_def)

lemma arp_request_wire:
  assumes "length (uip_buf s) = UIP_BUF_BYTES" and "length (uip_ethaddr a) = 6"
    and "arp_find (arp_table a) (arp_next_hop a s) = None"
  shows "wire_ok (uip_ethaddr a) (take 42 (take 54 (uip_buf (uip_arp_out a s)) @ d))"
proof -
  define b where "b = uip_buf (uip_arp_out a s)"
  define f where "f = take 42 (take 54 b @ d)"
  have b: "length b = 1502" "ETH_src b = uip_ethaddr a" "ETH_type b = htons UIP_ETHTYPE_ARP"
    "ARP_opcode b = htons ARP_REQUEST" "ARP_shwaddr b = uip_ethaddr a"
    using assms by (simp_all add: b_def uip_arp_out_def Let_def)
  have pre: "take 42 f = take 42 b" and len: "length f = 42" using b(1) by (simp_all add: f_def)
  have "ETH_src f = ETH_src b" "ETH_type f = ETH_type b" "ARP_opcode f = ARP_opcode b" "ARP_shwaddr f = ARP_shwaddr b"
    by (rule prefix_fields [OF pre]; simp)+
  then have "arp_frame (uip_ethaddr a) f" "ETH_src f = uip_ethaddr a"
    unfolding arp_frame_def using b(2-5) len by metis+
  then have "wire_ok (uip_ethaddr a) f" using len by (simp add: wire_ok_def)
  then show ?thesis by (simp add: f_def b_def)
qed

lemma arp_out_Some:
  assumes "length (uip_buf s) = UIP_BUF_BYTES" and "length (uip_ethaddr a) = 6"
    and "arp_find (arp_table a) (arp_next_hop a s) = Some i"
    and "\<forall>e\<in>set (arp_table a). length (ae_ethaddr e) = 6" and "length (arp_table a) = UIP_ARPTAB_SIZE"
  defines "b \<equiv> uip_buf (uip_arp_out a s)"
  shows "uip_arp_out a s = s\<lparr>uip_buf := b, uip_len := uip_len s + 14\<rparr>" and "length b = UIP_BUF_BYTES"
    and "ETH_src b = uip_ethaddr a" and "ETH_type b = htons UIP_ETHTYPE_IP" and "drop 14 b = drop 14 (uip_buf s)"
proof -
  have "i < length (arp_table a)"
    using assms(3,5) by (auto simp: arp_find_def split: if_splits)
  then have "length (ae_ethaddr (arp_table a ! i)) = 6" using assms(4) by simp
  note facts = this assms(1-3)
  have "bytes_at b 14 1488 = bytes_at (uip_buf s) 14 1488" and len: "length b = UIP_BUF_BYTES"
    using facts by (simp_all add: b_def uip_arp_out_def Let_def)
  then show "drop 14 b = drop 14 (uip_buf s)" using assms(1) by (simp add: bytes_at_def)
  show "length b = UIP_BUF_BYTES" by (rule len)
  show "uip_arp_out a s = s\<lparr>uip_buf := b, uip_len := uip_len s + 14\<rparr>" "ETH_src b = uip_ethaddr a"
    "ETH_type b = htons UIP_ETHTYPE_IP"
    using facts by (simp_all add: b_def uip_arp_out_def Let_def)
qed

lemma drop_fields:
  assumes "drop 14 b = drop 14 b'" and "14 \<le> i" and "length b = length b'"
  shows "bytes_at b i n = bytes_at b' i n" and "i < length b \<Longrightarrow> b ! i = b' ! i"
    and "Suc i < length b \<Longrightarrow> ld16 b i = ld16 b' i"
proof -
  have d: "drop i xs = drop (i - 14) (drop 14 xs)" for xs :: "u8 list" using assms(2) by simp
  then show "bytes_at b i n = bytes_at b' i n" unfolding bytes_at_def using assms(1) by metis
  have n: "b ! j = b' ! j" if "14 \<le> j" "j < length b" for j
    using that assms(1,3) nth_drop [of 14 b "j - 14"] nth_drop [of 14 b' "j - 14"] by simp
  then show "i < length b \<Longrightarrow> b ! i = b' ! i" using assms(2) by blast
  show "Suc i < length b \<Longrightarrow> ld16 b i = ld16 b' i" unfolding ld16_def using n assms(2) by simp
qed

lemma uip_chksum_dvd: "uip_chksum xs = 0xffff \<Longrightarrow> 65535 dvd sum16 xs"
  by (simp only: uip_chksum_verifies)

lemma tcp_sum_dvd:
  assumes "uip_tcpchksum s = Inr 0xffff"
    and "read_mem s (uip_appdata s) (unat (BUF_iplen (uip_buf s) - 40)) = Inr d"
  shows "65535 dvd tcp_sum (uip_buf s) d"
proof -
  have "unat (0xffff :: u16) mod 65535 = tcp_sum (uip_buf s) d mod 65535"
    by (rule uip_tcpchksum_mod(1) [OF assms])
  then show ?thesis by (simp add: mod_eq_0_iff_dvd)
qed

lemma ip_wire:
  assumes inv: "uip_inv s" and sent: "well_sent s" and lo: "20 \<le> uip_len s" and hi: "uip_len s \<le> 1488"
    and tcp: "BUF_proto (uip_buf s) = UIP_PROTO_TCP \<Longrightarrow> 40 \<le> uip_len s"
    and arp: "arp_wf a" "arp_find (arp_table a) (arp_next_hop a s) = Some i"
  defines "u \<equiv> uip_arp_out a s"
  assumes d: "read_mem u (uip_appdata u) (unat (uip_len u) - 54) = Inr d"
  shows "wire_ok (uip_ethaddr a) (take (unat (uip_len u)) (take 54 (uip_buf u) @ d))"
proof -
  define b where "b = uip_buf u"
  define l where "l = unat (uip_len s)"
  define f where "f = take (14 + l) (take 54 b @ d)"
  have len: "length (uip_buf s) = UIP_BUF_BYTES" "data_ptr (uip_appdata s)"
    using inv by (simp_all add: uip_inv_def uip_wf_def)
  note out = arp_out_Some [OF len(1) _ arp(2), folded u_def, folded b_def]
  have u: "u = s\<lparr>uip_buf := b, uip_len := uip_len s + 14\<rparr>" "length b = 1502" "ETH_src b = uip_ethaddr a"
    "ETH_type b = htons UIP_ETHTYPE_IP" "drop 14 b = drop 14 (uip_buf s)"
    using out arp(1) unfolding arp_wf_def by blast+
  have l: "20 \<le> l" "l \<le> 1488" using lo hi by (simp_all add: l_def word_le_nat_alt)
  then have ul: "unat (uip_len u) = 14 + l" by (simp add: u(1) l_def unat_word_ariths)
  have dl: "length d = l - 40" using length_read_mem [OF d] ul by simp
  have fl: "length f = 14 + l" using u(2) dl l by (simp add: f_def)
  have pre: "take (min (14 + l) 54) f = take (min (14 + l) 54) b" unfolding f_def by (rule frame_prefix [OF u(2)])
  have fb: "ETH_src f = ETH_src b" "ETH_type f = ETH_type b" "bytes_at f 14 20 = bytes_at b 14 20"
    "ld16 f 26 = ld16 b 26" "ld16 f 28 = ld16 b 28" "ld16 f 30 = ld16 b 30" "ld16 f 32 = ld16 b 32"
    "f ! 16 = b ! 16" "f ! 17 = b ! 17" "f ! 23 = b ! 23"
    using l(1) by (intro prefix_fields [OF pre]; simp)+
  note bs = drop_fields [OF u(5), unfolded u(2) len(1)]
  have ipl: "BUF_iplen f = uip_len s"
    using sent fb bs by (simp add: BUF_iplen_def well_sent_def)
  have ip: "65535 dvd sum16 (bytes_at f 14 20)"
    using sent uip_chksum_dvd bs(1) [of 14 20] by (simp add: well_sent_def uip_ipchksum_def fb)
  have "54 \<le> length f \<and> 65535 dvd tcp_sum f (drop 54 f)" if "BUF_proto f = UIP_PROTO_TCP"
  proof -
    have proto: "BUF_proto (uip_buf s) = UIP_PROTO_TCP" using that fb bs(2) by simp
    then have l40: "40 \<le> l" using tcp by (simp add: l_def word_le_nat_alt)
    have sum: "uip_tcpchksum s = Inr 0xffff" "BUF_iplen (uip_buf s) = uip_len s"
      using sent proto by (simp_all add: well_sent_def)
    have n: "unat (BUF_iplen (uip_buf s) - 40) = l - 40"
      using l40 sum(2) by (simp add: l_def unat_sub word_le_nat_alt)
    have "read_mem u (uip_appdata s) (l - 40) = read_mem s (uip_appdata s) (l - 40)"
      by (rule read_mem_cong [OF len(2)]) (use u(2) len(1) bs(1) in \<open>simp_all add: u(1)\<close>)
    moreover have "read_mem u (uip_appdata s) (l - 40) = Inr d" using d ul by (simp add: u(1))
    ultimately have rd: "read_mem s (uip_appdata s) (unat (BUF_iplen (uip_buf s) - 40)) = Inr d"
      using n by simp
    have "bytes_at f 34 20 = bytes_at (uip_buf s) 34 20"
      using prefix_fields(1) [OF pre, of 34 20] l40 bs(1) by simp
    moreover have "drop 54 f = d" using u(2) dl l40 by (simp add: f_def)
    ultimately have "tcp_sum f (drop 54 f) = tcp_sum (uip_buf s) d"
      using fb bs(3) ipl sum(2) by (simp add: tcp_sum_def)
    then show ?thesis using tcp_sum_dvd [OF sum(1) rd] l40 fl by simp
  qed
  then have "ip_frame f" using fb(2) u(4) fl ipl ip by (simp add: ip_frame_def l_def)
  then have "wire_ok (uip_ethaddr a) f" using fb(1) u(3) fl l by (simp add: wire_ok_def)
  then show ?thesis by (simp add: f_def ul b_def)
qed

section \<open>Everything that is sent is valid\<close>

text \<open>An Ethernet frame whose IP length, if it has one, fits the frame and covers the IP header.\<close>

definition plausible :: "u8 list \<Rightarrow> bool" where
  "plausible f \<longleftrightarrow> 14 \<le> length f
     \<and> (ETH_type f = htons UIP_ETHTYPE_IP \<longrightarrow> 20 \<le> unat (BUF_iplen f) \<and> 14 + unat (BUF_iplen f) \<le> length f)"

lemma arp_wf_update:
  "arp_wf a \<Longrightarrow> length eth = 6 \<Longrightarrow> arp_wf (uip_arp_update ip eth a) \<and> uip_ethaddr (uip_arp_update ip eth a) = uip_ethaddr a"
  unfolding arp_wf_def uip_arp_update_def Let_def
  by (auto split: option.splits dest!: subsetD [OF set_update_subset_insert])

definition sends_valid :: "'a net \<Rightarrow> 'a net \<Rightarrow> bool" where
  "sends_valid n n' \<longleftrightarrow>
     net_inv n' \<and> uip_ethaddr (net_arp n') = uip_ethaddr (net_arp n)
     \<and> (eth_sent n' = eth_sent n
        \<or> (\<exists>g. eth_sent n' = g # eth_sent n \<and> wire_ok (uip_ethaddr (net_arp n)) g))"

lemma arp_out_inv: "uip_inv s \<Longrightarrow> arp_wf a \<Longrightarrow> uip_inv (uip_arp_out a s)"
proof -
  assume inv: "uip_inv s" and a: "arp_wf a"
  have len: "length (uip_buf s) = UIP_BUF_BYTES" using inv by (simp add: uip_inv_def uip_wf_def)
  have "length (uip_buf (uip_arp_out a s)) = UIP_BUF_BYTES"
  proof (cases "arp_find (arp_table a) (arp_next_hop a s)")
    case None
    then show ?thesis using len a by (simp add: uip_arp_out_def Let_def arp_wf_def)
  next
    case (Some i)
    then show ?thesis using arp_out_Some(2) [OF len _ Some] a unfolding arp_wf_def by blast
  qed
  then show ?thesis
    using inv by (auto simp: uip_inv_def uip_wf_def uip_arp_out_def Let_def split: option.splits)
qed

lemma send_ip_valid:
  assumes "NetSendHttpd (n\<lparr>stack := uip_arp_out (net_arp n) s\<rparr>) = Inr n'" and inv: "uip_inv s" "arp_wf (net_arp n)"
    and "well_sent s" "20 \<le> uip_len s" "uip_len s \<le> 1488" "BUF_proto (uip_buf s) = UIP_PROTO_TCP \<Longrightarrow> 40 \<le> uip_len s"
  shows "sends_valid n n'"
proof -
  let ?u = "uip_arp_out (net_arp n) s"
  let ?m = "n\<lparr>stack := ?u\<rparr>"
  from assms(1) obtain d where d: "read_mem ?u (uip_appdata ?u) (unat (uip_len ?u) - 54) = Inr d"
    and n': "n' = ?m\<lparr>eth_sent := take (unat (uip_len ?u)) (take 54 (uip_buf ?u) @ d) # eth_sent n\<rparr>"
    by (rule NetSendHttpdE) simp
  have len: "length (uip_buf s) = UIP_BUF_BYTES" using inv(1) by (simp add: uip_inv_def uip_wf_def)
  have "wire_ok (uip_ethaddr (net_arp n)) (take (unat (uip_len ?u)) (take 54 (uip_buf ?u) @ d))"
  proof (cases "arp_find (arp_table (net_arp n)) (arp_next_hop (net_arp n) s)")
    case None
    then have "unat (uip_len ?u) = 42" by (simp add: uip_arp_out_def Let_def)
    then show ?thesis using arp_request_wire [OF len _ None] inv(2) by (simp add: arp_wf_def)
  next
    case (Some i)
    show ?thesis by (rule ip_wire [OF inv(1) assms(4-7) inv(2) Some d])
  qed
  then show ?thesis using arp_out_inv [OF inv] inv(2) by (auto simp: sends_valid_def net_inv_def n')
qed

lemma ipin_good:
  assumes "uip_arp_ipin a s = (a', s')" and "uip_inv s" and "arp_wf a"
  shows "uip_inv s' \<and> arp_wf a' \<and> uip_ethaddr a' = uip_ethaddr a \<and> uip_buf s' = uip_buf s"
proof -
  have "length (ETH_src (uip_buf s)) = 6" using assms(2) by (simp add: uip_inv_def uip_wf_def)
  then show ?thesis
    using assms arp_wf_update [OF assms(3)]
    by (auto simp: uip_arp_ipin_def Let_def uip_inv_def uip_wf_def split: if_splits)
qed

lemma handle_ip_valid:
  assumes "uip_arp_ipin (net_arp n) (stack n) = (a, s)" and run: "uip_input (httpd_appcall P) s = Inr t"
    and snd: "(if 0 < uip_len t then NetSendHttpd (n\<lparr>net_arp := a, stack := uip_arp_out a t\<rparr>)
          else Inr (n\<lparr>net_arp := a, stack := t\<rparr>)) = Inr n'"
    and inv: "net_inv n"
    and len: "20 \<le> unat (BUF_iplen (uip_buf (stack n)))" "unat (BUF_iplen (uip_buf (stack n))) \<le> 1488"
  shows "sends_valid n n'"
proof -
  have s: "uip_inv s" "arp_wf a" "uip_ethaddr a = uip_ethaddr (net_arp n)" "uip_buf s = uip_buf (stack n)"
    using ipin_good [OF assms(1)] inv by (auto simp: net_inv_def)
  have p: "processed s t" using web.uip_process_processed [OF _ s(1)] run by (simp add: uip_input_def)
  have tinv: "uip_inv t" using p by (simp add: processed_def)
  let ?m = "n\<lparr>net_arp := a\<rparr>"
  have mn: "sends_valid ?m n' \<Longrightarrow> sends_valid n n'" by (auto simp: sends_valid_def s(3))
  show ?thesis
  proof (cases "uip_len t = 0")
    case True
    then show ?thesis using snd tinv s(2,3) by (auto simp: sends_valid_def net_inv_def)
  next
    case False
    have pos: "0 < uip_len t" using False by (simp add: word_neq_0_conv)
    have w: "well_sent t" "BUF_proto (uip_buf t) = UIP_PROTO_TCP \<Longrightarrow> tcp_size (uip_len t)"
      "BUF_proto (uip_buf t) \<noteq> UIP_PROTO_TCP \<Longrightarrow> uip_len t = BUF_iplen (uip_buf (stack n))"
      using p False s(4) by (auto simp: processed_def)
    have "20 \<le> uip_len t \<and> uip_len t \<le> 1488"
      using w(2,3) len by (cases "BUF_proto (uip_buf t) = UIP_PROTO_TCP") (auto simp: word_le_nat_alt)
    moreover have "NetSendHttpd (?m\<lparr>stack := uip_arp_out (net_arp ?m) t\<rparr>) = Inr n'"
      using snd pos by simp
    ultimately show ?thesis
      using w(1,2) send_ip_valid [of ?m t n', OF _ tinv] s(2) by (intro mn) auto
  qed
qed

lemma arpin_good:
  assumes "uip_arp_arpin a s = (a', s')" and "uip_inv s" and "arp_wf a"
  shows "uip_inv s' \<and> arp_wf a' \<and> uip_ethaddr a' = uip_ethaddr a
     \<and> (uip_len s' = 0 \<or> uip_len s' = 42 \<and> wire_ok (uip_ethaddr a) (take 42 (uip_buf s')))"
proof -
  let ?b = "uip_buf s'"
  have len: "length (uip_buf s) = UIP_BUF_BYTES" using assms(2) by (simp add: uip_inv_def uip_wf_def)
  have len': "length ?b = UIP_BUF_BYTES" "uip_inv s'"
    using assms len by (auto simp: uip_arp_arpin_def Let_def uip_inv_def uip_wf_def arp_wf_def split: if_splits)
  have a': "arp_wf a' \<and> uip_ethaddr a' = uip_ethaddr a"
    using assms arp_wf_update [OF assms(3)] len by (auto simp: uip_arp_arpin_def Let_def split: if_splits)
  have "uip_len s' = 0 \<or> uip_len s' = 42 \<and> ETH_src ?b = uip_ethaddr a \<and> ETH_type ?b = htons UIP_ETHTYPE_ARP
      \<and> ARP_shwaddr ?b = uip_ethaddr a \<and> ARP_opcode ?b = htons ARP_REPLY"
    using assms(1,3) len by (auto simp: uip_arp_arpin_def Let_def arp_wf_def split: if_splits)
  moreover have "ETH_src (take 42 ?b) = ETH_src ?b" "ETH_type (take 42 ?b) = ETH_type ?b"
    "ARP_opcode (take 42 ?b) = ARP_opcode ?b" "ARP_shwaddr (take 42 ?b) = ARP_shwaddr ?b"
    by (rule prefix_fields [of 42]; simp)+
  ultimately show ?thesis
    using len' a' unfolding wire_ok_def arp_frame_def by auto
qed

lemma handle_packet_valid:
  assumes run: "handle_packet P n = Inr n'" and inv: "net_inv n"
    and len: "ETH_type (uip_buf (stack n)) = htons UIP_ETHTYPE_IP \<Longrightarrow>
       20 \<le> unat (BUF_iplen (uip_buf (stack n))) \<and> unat (BUF_iplen (uip_buf (stack n))) \<le> 1488"
  shows "sends_valid n n'"
proof (cases "ETH_type (uip_buf (stack n)) = htons UIP_ETHTYPE_IP")
  case True
  obtain a s where as: "uip_arp_ipin (net_arp n) (stack n) = (a, s)" by fastforce
  then obtain t where "uip_input (httpd_appcall P) s = Inr t"
    "(if 0 < uip_len t then NetSendHttpd (n\<lparr>net_arp := a, stack := uip_arp_out a t\<rparr>)
          else Inr (n\<lparr>net_arp := a, stack := t\<rparr>)) = Inr n'"
    using run True by (auto simp: handle_packet_def Let_def cong: if_cong)
  from handle_ip_valid [OF as this inv] len True show ?thesis by blast
next
  case False
  note notip = this
  show ?thesis
  proof (cases "ETH_type (uip_buf (stack n)) = htons UIP_ETHTYPE_ARP")
    case True
    obtain a s where as: "uip_arp_arpin (net_arp n) (stack n) = (a, s)" by fastforce
    let ?m = "n\<lparr>net_arp := a, stack := s\<rparr>"
    have r: "(if 0 < uip_len s then NetSendHttpd ?m else Inr ?m) = Inr n'"
      using run True notip as by (auto simp: handle_packet_def Let_def)
    have good: "uip_inv s" "arp_wf a" "uip_ethaddr a = uip_ethaddr (net_arp n)"
      "uip_len s = 0 \<or> uip_len s = 42 \<and> wire_ok (uip_ethaddr (net_arp n)) (take 42 (uip_buf s))"
      using arpin_good [OF as] inv by (auto simp: net_inv_def)
    show ?thesis using r good
      by (auto simp: sends_valid_def net_inv_def NetSendHttpd_def Let_def split: if_splits)
  next
    case False
    then show ?thesis using run inv notip by (auto simp: handle_packet_def Let_def sends_valid_def)
  qed
qed

lemma receive_valid:
  assumes "net_inv n" and "NetReceiveHttpd P f n = Inr n'" and "plausible f"
  shows "sends_valid n n'"
proof -
  let ?b = "put_bytes 0 f (uip_buf (stack n))"
  let ?s = "(stack n)\<lparr>uip_buf := ?b, uip_len := of_nat (length f)\<rparr>"
  have l: "length f \<le> UIP_BUF_BYTES" and run: "handle_packet P (n\<lparr>stack := ?s\<rparr>) = Inr n'"
    using assms(2) by (auto simp: NetReceiveHttpd_def split: if_splits)
  have len: "length (uip_buf (stack n)) = UIP_BUF_BYTES" using assms(1) by (simp add: net_inv_def uip_inv_def uip_wf_def)
  have inv: "net_inv (n\<lparr>stack := ?s\<rparr>)"
    using assms(1) l len by (simp add: net_inv_def uip_inv_def uip_wf_def)
  have pre: "take (length f) ?b = take (length f) f" by (simp add: put_bytes_def)
  have ty: "ETH_type ?b = ETH_type f"
    using assms(3) by (intro prefix_fields(3) [OF pre]) (simp add: plausible_def)
  have "20 \<le> unat (BUF_iplen ?b) \<and> unat (BUF_iplen ?b) \<le> 1488" if "ETH_type ?b = htons UIP_ETHTYPE_IP"
  proof -
    have f: "20 \<le> unat (BUF_iplen f)" "14 + unat (BUF_iplen f) \<le> length f"
      using that ty assms(3) by (simp_all add: plausible_def)
    then have "?b ! 16 = f ! 16" "?b ! 17 = f ! 17" by (intro prefix_fields(2) [OF pre]; simp)+
    then show ?thesis using f l by (simp add: BUF_iplen_def)
  qed
  then show ?thesis
    using handle_packet_valid [OF run inv] by (simp add: sends_valid_def)
qed


text \<open>A server that has just started, and an ARP request for it.\<close>

definition net0 :: "unit net" where
  "net0 = \<lparr>stack = boot_state, net_arp = arp_empty, arptimer = 0, eth_sent = [], webfailsafe_is_running = True\<rparr>"

definition arp_request :: "u8 list" where
  "arp_request = [0xff, 0xff, 0xff, 0xff, 0xff, 0xff, 2, 2, 2, 2, 2, 2, 8, 6, 0, 1, 8, 0, 6, 4, 0, 1,
     2, 2, 2, 2, 2, 2, 192, 168, 1, 2, 0, 0, 0, 0, 0, 0, 192, 168, 1, 1]"

lemma net0_inv: "net_inv net0"
  using boot_state_inv by (simp add: net_inv_def net0_def arp_wf_def arp_empty_def)

lemma arp_request_plausible: "plausible arp_request"
  by (simp add: plausible_def arp_request_def ld16_def htons_def le16_def lo8_def hi8_def)

lemma arp_request_answered:
  "\<exists>n' g. NetReceiveHttpd no_site arp_request net0 = Inr n' \<and> eth_sent n' = [g]
      \<and> \<not> webfailsafe_ready_for_upgrade (stack n')"
proof -
  let ?b = "put_bytes 0 arp_request (uip_buf (stack net0))"
  let ?s = "(stack net0)\<lparr>uip_buf := ?b, uip_len := 42\<rparr>"
  have b: "ETH_type ?b = htons UIP_ETHTYPE_ARP" "ARP_opcode ?b = htons ARP_REQUEST" "ARP_dipaddr ?b = (0xa8c0, 0x0101)"
    by (simp_all add: arp_request_def net0_def boot_state_def put_bytes_def ld16_def nth_append htons_def le16_def
        lo8_def hi8_def)
  have ne: "htons UIP_ETHTYPE_ARP \<noteq> htons UIP_ETHTYPE_IP" by simp
  obtain s where s: "uip_arp_arpin (net_arp net0) ?s = (arp_empty, s)" "uip_len s = 42" "\<not> webfailsafe_ready_for_upgrade s"
    using b by (simp add: uip_arp_arpin_def Let_def net0_def boot_state_def)
  have "NetReceiveHttpd no_site arp_request net0 = handle_packet no_site (net0\<lparr>stack := ?s\<rparr>)"
    by (simp add: NetReceiveHttpd_def arp_request_def)
  also have "\<dots> = NetSendHttpd (net0\<lparr>stack := ?s, net_arp := arp_empty, stack := s\<rparr>)"
    using b(1) s ne by (simp add: handle_packet_def Let_def net0_def)
  finally show ?thesis using s(2,3) by (simp add: NetSendHttpd_def Let_def net0_def)
qed


end
