(* ===== verification/Web_Upgrade.thy ===== *)
theory Web_Upgrade
  imports Format_Props Net_Httpd
begin

text \<open>
  What happens with an uploaded image: \<open>do_http_upgrade\<close> of net/httpd.c and the board data and the
  command line variant \<open>upgrade\<close> of board/qcom/ipq40xx_cdp/ipq40xx_api.c.  The result of a function is
  the command line given to \<open>run_command\<close>, if any, and its return value; the flash commands
  themselves are executed by the command interpreter.  Console output and delays are not modelled.
\<close>

section \<open>The boards\<close>

text \<open>The machine ids the code distinguishes.\<close>

datatype machid = AP_DK04_1_C1 | AP_DK04_1_C3 | AP_DK01_1_C1 | AP_DK01_1_C2 | AP_DK01_AP4220 | Other_Machine

record board =
  openwrt_firmware_start :: s32
  openwrt_firmware_size :: s32
  power_led :: s32
  led_tftp_transfer_flashing :: s32
  led_upgrade_write_flashing_1 :: s32
  led_upgrade_write_flashing_2 :: s32
  led_upgrade_erase_flashing :: s32
  flashing_power_led :: s32
  power_led_active_low :: s32

definition set_leds :: "s32 \<Rightarrow> s32 \<Rightarrow> s32 \<Rightarrow> s32 \<Rightarrow> s32 \<Rightarrow> board \<Rightarrow> board" where
  "set_leds p t w1 w2 e b = b\<lparr>power_led := p, led_tftp_transfer_flashing := t, led_upgrade_write_flashing_1 := w1,
     led_upgrade_write_flashing_2 := w2, led_upgrade_erase_flashing := e\<rparr>"

definition board_names_init :: "machid \<Rightarrow> board \<Rightarrow> board" where
  "board_names_init m b =
     (case m of
        AP_DK04_1_C1 \<Rightarrow> set_leds 57 59 59 60 60
          (b\<lparr>openwrt_firmware_start := 0x180000, openwrt_firmware_size := 0xe80000\<rparr>)
      | AP_DK04_1_C3 \<Rightarrow> (set_leds 57 57 57 57 57
          (b\<lparr>openwrt_firmware_start := 0x180000, openwrt_firmware_size := 0xe80000\<rparr>))\<lparr>power_led_active_low := 0\<rparr>
      | AP_DK01_1_C2 \<Rightarrow> (set_leds 2 2 2 2 2
          (b\<lparr>openwrt_firmware_start := 0x0, openwrt_firmware_size := 0x8000000\<rparr>))\<lparr>flashing_power_led := 1\<rparr>
      | AP_DK01_AP4220 \<Rightarrow> (set_leds 5 5 3 2 5
          (b\<lparr>openwrt_firmware_start := 0x0, openwrt_firmware_size := 0x8000000\<rparr>))\<lparr>flashing_power_led := 1\<rparr>
      | AP_DK01_1_C1 \<Rightarrow> set_leds 4 3 3 2 2
          (b\<lparr>openwrt_firmware_start := 0x180000, openwrt_firmware_size := 0x1e80000\<rparr>)
      | Other_Machine \<Rightarrow> b)"

datatype fw_type = FW_TYPE_QSDK | FW_TYPE_OPENWRT | FW_TYPE_OPENWRT_EMMC

definition do_checkout_firmware :: "(u32 \<Rightarrow> u8) \<Rightarrow> fw_type" where
  "do_checkout_firmware r =
     (if r 0x8800005c = 0x46 \<and> r 0x8800005d = 0x6c \<and> r 0x8800005e = 0x61 \<and> r 0x8800005f = 0x73
         \<and> r 0x88000060 = 0x68 then FW_TYPE_QSDK
      else if r 0x880001fe = 0x55 \<and> r 0x880001ff = 0xaa then FW_TYPE_OPENWRT_EMMC
      else FW_TYPE_OPENWRT)"

section \<open>Writing the image\<close>

abbreviation (input) CONFIG_UBOOT_START :: u32 where "CONFIG_UBOOT_START \<equiv> 0xf0000"
abbreviation (input) CONFIG_UBOOT_SIZE :: u32 where "CONFIG_UBOOT_SIZE \<equiv> 0x80000"

text \<open>\<open>sprintf(cmd, ...)\<close> into \<open>char cmd[128] = \{0\}\<close>, and the command in it.\<close>

definition cmd_sprintf :: "string \<Rightarrow> va list \<Rightarrow> u8 list result" where
  "cmd_sprintf fmt args =
     bind_result (sprintf (replicate 128 0) (to_mem fmt @ [0]) args) (\<lambda>(buf, n). Inr (cstr buf))"

definition run_cmd :: "u8 list result \<Rightarrow> (u8 list option \<times> int) result" where
  [c_defs]: "run_cmd cmd = bind_result cmd (\<lambda>c. Inr (Some c, 0))"

definition sf_write_args :: "u32 \<Rightarrow> u32 \<Rightarrow> u32 \<Rightarrow> va list" where
  "sf_write_args start room n = [VA_Int start, VA_Int room, VA_Int start, VA_Int n]"

definition openwrt_upgrade :: "machid \<Rightarrow> board \<Rightarrow> u32 \<Rightarrow> (u8 list option \<times> int) result" where
  "openwrt_upgrade m b n =
     (let args = sf_write_args (openwrt_firmware_start b) (openwrt_firmware_size b) n
      in if m \<in> {AP_DK04_1_C1, AP_DK04_1_C3, AP_DK01_1_C1} then
           if openwrt_firmware_size b < n then Inr (None, 0)
           else run_cmd (cmd_sprintf ''sf probe && sf erase 0x%x 0x%x && sf write 0x88000000 0x%x 0x%lx'' args)
         else if m \<in> {AP_DK01_1_C2, AP_DK01_AP4220} then
           run_cmd (cmd_sprintf ''nand device 1 && nand erase 0x%x 0x%x && nand write 0x88000000 0x%x 0x%lx'' args)
         else run_cmd (Inr []))"

definition firmware_upgrade :: "machid \<Rightarrow> board \<Rightarrow> (u32 \<Rightarrow> u8) \<Rightarrow> u32 \<Rightarrow> (u8 list option \<times> int) result" where
  "firmware_upgrade m b r n =
     (case do_checkout_firmware r of
        FW_TYPE_OPENWRT \<Rightarrow> openwrt_upgrade m b n
      | FW_TYPE_OPENWRT_EMMC \<Rightarrow>
          if m \<in> {AP_DK04_1_C1, AP_DK04_1_C3}
          then run_cmd (cmd_sprintf ''mmc erase 0x0 0x109800 && mmc write 0x88000000 0x0 0x%lx'' [VA_Int (n div 512 + 1)])
          else run_cmd (Inr [])
      | FW_TYPE_QSDK \<Rightarrow> run_cmd (cmd_sprintf ''sf probe && imgaddr=0x88000000 && source $imgaddr:script'' []))"

definition do_http_upgrade ::
  "machid \<Rightarrow> board \<Rightarrow> (u32 \<Rightarrow> u8) \<Rightarrow> u32 \<Rightarrow> upgrade_type \<Rightarrow> (u8 list option \<times> int) result" where
  "do_http_upgrade m b r n ty =
     (case ty of
        Type_Uboot \<Rightarrow>
          bind_result (cmd_sprintf ''sf probe && sf erase 0x%x 0x%x && sf write 0x88000000 0x%x 0x%lx''
              (sf_write_args CONFIG_UBOOT_START CONFIG_UBOOT_SIZE n)) (\<lambda>cmd.
            if CONFIG_UBOOT_SIZE < n then Inr (None, 0) else Inr (Some cmd, 0))
      | Type_Firmware \<Rightarrow> firmware_upgrade m b r n
      | Type_Qsdk \<Rightarrow> firmware_upgrade m b r n
      | Type_Art \<Rightarrow> run_cmd (cmd_sprintf ''sf probe && sf erase 0x170000 0x10000 && sf write 0x88000000 0x170000 0x10000'' [])
      | Type_Mibib \<Rightarrow> run_cmd (cmd_sprintf ''sf probe && sf erase 0x40000 0x20000 && sf write 0x88000000 0x40000 0x20000'' []))"

section \<open>The command line variant\<close>

fun hex2int_loop :: "u32 \<Rightarrow> u8 list \<Rightarrow> u32" where
  "hex2int_loop val [] = val"
| "hex2int_loop val (c # s) =
     (let digit = (if c \<le> 57 then c - 48 else c - 65 + 10)
      in hex2int_loop (push_bit 4 val OR ucast digit) s)"

definition hex2int :: "mem \<Rightarrow> nat \<Rightarrow> u32 result" where
  "hex2int a len = (if length a < len then Inl Out_Of_Bounds else Inr (hex2int_loop 0 (take len a)))"

text \<open>
  \<open>upgrade\<close>; the value of the environment variable \<open>filesize\<close> is an argument.  The result is the command
  whose status is returned, \<open>None\<close> when the function returns 0 without running one.
\<close>

definition cmd_snprintf :: "string \<Rightarrow> va list \<Rightarrow> u8 list option result" where
  "cmd_snprintf fmt args =
     bind_result (snprintf (replicate 128 0) 128 (to_mem fmt @ [0]) args) (\<lambda>(buf, n). Inr (Some (cstr buf)))"

definition upgrade :: "machid \<Rightarrow> board \<Rightarrow> (u32 \<Rightarrow> u8) \<Rightarrow> mem option \<Rightarrow> u8 list option result" where
  "upgrade m b r filesize =
     bind_result (case filesize of None \<Rightarrow> Inr 0 | Some f \<Rightarrow> bind_result (strlen f) (hex2int f)) (\<lambda>n.
     let args = [VA_Int (openwrt_firmware_start b), VA_Int (openwrt_firmware_size b), VA_Int (openwrt_firmware_start b)]
     in case do_checkout_firmware r of
          FW_TYPE_OPENWRT \<Rightarrow>
            if m \<in> {AP_DK04_1_C1, AP_DK04_1_C3, AP_DK01_1_C1} then
              if openwrt_firmware_size b \<le> n then Inr None
              else cmd_snprintf ''sf probe && sf erase 0x%x 0x%x && sf write 0x88000000 0x%x $filesize'' args
            else if m \<in> {AP_DK01_1_C2, AP_DK01_AP4220} then
              cmd_snprintf ''nand device 1 && nand erase 0x%x 0x%x && nand write 0x88000000 0x%x $filesize'' args
            else Inr (Some [])
        | FW_TYPE_OPENWRT_EMMC \<Rightarrow>
            if 0 < n then cmd_snprintf ''mmc erase 0x0 0x109800 && mmc write 0x88000000 0x0 0x%lx'' [VA_Int (n div 512 + 1)]
            else Inr (Some [])
        | FW_TYPE_QSDK \<Rightarrow> cmd_snprintf ''sf probe && imgaddr=0x88000000 && source $imgaddr:script'' [])"

section \<open>The commands\<close>

definition hex :: "u32 \<Rightarrow> u8 list" where
  "hex n = rev (digits_rev 16 (unat n))"

lemma length_digits_rev: "n < 16 ^ Suc k \<Longrightarrow> length (digits_rev 16 n) \<le> Suc k"
proof (induction k arbitrary: n)
  case 0
  then show ?case by (subst digits_rev.simps) simp
next
  case (Suc k)
  then have "n div 16 < 16 ^ Suc k" by (simp add: less_mult_imp_div_less mult.commute)
  then show ?case using Suc.IH [of "n div 16"] by (subst digits_rev.simps) simp
qed

lemma length_hex: "length (hex n) \<le> 8"
  using length_digits_rev [of "unat n" 7] unsigned_less [of n, where 'a = nat] by (simp add: hex_def)

lemma hex_no_nul: "0 \<notin> set (hex n)"
proof -
  have "isxdigit c" if "c \<in> set (hex n)" for c
  proof -
    have "c \<in> digit_char ` {0..<16}" using that set_digits_rev [of 16 "unat n"] by (auto simp: hex_def)
    then show ?thesis using digit_cases(1) by auto
  qed
  moreover have "\<not> isxdigit 0" by (simp add: isxdigit_def isdigit_def)
  ultimately show ?thesis by blast
qed

text \<open>\<open>%lx\<close> differs from \<open>%x\<close> by the qualifier only, on a target where long has 32 bits.\<close>

lemma vformat_lx:
  "vformat k (37 # 108 # 120 # r) (VA_Int n # args) =
     bind_result (vformat (k + length (hex n)) r args) (\<lambda>(out, st). Inr (hex n @ out, st))"
proof -
  have "number (ucast n) 16 (-1) (-1) SMALL = hex n"
    by (simp add: number_plain number_digits_hex unat_ucast_u64 hex_def)
  then have "convert 120 f0 f1 108 (-1) (-1) 0 k (VA_Int n # args) = Inr (hex n, args, [])" for f0 f1
    by (simp add: convert_def int_conversion_def va_number_def)
  moreover have "parse_spec (108 # 120 # r) (VA_Int n # args) = Inr (0, -1, -1, 108, 120 # r, VA_Int n # args)"
    by (simp add: parse_spec_def parse_width_def parse_precision_def parse_qualifier_def isdigit_def)
  ultimately show ?thesis by (simp add: vformat.simps(2) [of k 37] after_conversion_def)
qed

lemma vformat_x:
  "vformat k (37 # 120 # r) (VA_Int n # args) =
     bind_result (vformat (k + length (hex n)) r args) (\<lambda>(out, st). Inr (hex n @ out, st))"
  using vformat_int_plain [of 120 16 SMALL] by (simp add: hex_def)

lemma cmd_sprintf_fits:
  assumes "vformat 0 (to_mem fmt @ [0]) args = Inr (out, st)" and "length out < 128" and "0 \<notin> set out"
  shows "cmd_sprintf fmt args = Inr out" and "cmd_snprintf fmt args = Inr (Some out)"
proof -
  have "put_bytes 0 (out @ [0]) (replicate 128 (0 :: u8)) = out @ 0 # replicate (127 - length out) 0"
    using assms(2) by (simp add: put_bytes_def)
  then show "cmd_sprintf fmt args = Inr out" "cmd_snprintf fmt args = Inr (Some out)"
    using assms
    by (simp_all add: cmd_sprintf_def cmd_snprintf_def sprintf_def vsprintf_def snprintf_def vsnprintf_def Let_def)
qed

text \<open>The command lines as texts.\<close>

definition sf_command :: "u32 \<Rightarrow> u32 \<Rightarrow> u32 \<Rightarrow> u8 list" where
  "sf_command a l n = to_mem ''sf probe && sf erase 0x'' @ hex a @ to_mem '' 0x'' @ hex l
     @ to_mem '' && sf write 0x88000000 0x'' @ hex a @ to_mem '' 0x'' @ hex n"

definition nand_command :: "u32 \<Rightarrow> u32 \<Rightarrow> u32 \<Rightarrow> u8 list" where
  "nand_command a l n = to_mem ''nand device 1 && nand erase 0x'' @ hex a @ to_mem '' 0x'' @ hex l
     @ to_mem '' && nand write 0x88000000 0x'' @ hex a @ to_mem '' 0x'' @ hex n"

definition mmc_command :: "u32 \<Rightarrow> u8 list" where
  "mmc_command n = to_mem ''mmc erase 0x0 0x109800 && mmc write 0x88000000 0x0 0x'' @ hex n"

lemma to_mem_literals [simp]:
  "to_mem [] = []" "to_mem (c # s) = of_char c # to_mem s" "to_mem (s @ t) = to_mem s @ to_mem t"
  by (simp_all add: to_mem_def)

lemma command_texts:
  "vformat 0 (to_mem ''sf probe && sf erase 0x%x 0x%x && sf write 0x88000000 0x%x 0x%lx'' @ [0]) (sf_write_args a l n)
     = Inr (sf_command a l n, [])"
  "vformat 0 (to_mem ''nand device 1 && nand erase 0x%x 0x%x && nand write 0x88000000 0x%x 0x%lx'' @ [0]) (sf_write_args a l n)
     = Inr (nand_command a l n, [])"
  "vformat 0 (to_mem ''mmc erase 0x0 0x109800 && mmc write 0x88000000 0x0 0x%lx'' @ [0]) [VA_Int n]
     = Inr (mmc_command n, [])"
  by (simp_all add: sf_write_args_def vformat_x vformat_lx sf_command_def nand_command_def mmc_command_def)

lemma command_sizes:
  "length (sf_command a l n) < 128" "0 \<notin> set (sf_command a l n)"
  "length (nand_command a l n) < 128" "0 \<notin> set (nand_command a l n)"
  "length (mmc_command n) < 128" "0 \<notin> set (mmc_command n)"
  using length_hex [of a] length_hex [of l] length_hex [of n] hex_no_nul [of a] hex_no_nul [of l] hex_no_nul [of n]
  by (simp_all add: sf_command_def nand_command_def mmc_command_def)

lemmas commands =
  cmd_sprintf_fits(1) [OF command_texts(1) command_sizes(1,2)]
  cmd_sprintf_fits(1) [OF command_texts(2) command_sizes(3,4)]
  cmd_sprintf_fits(1) [OF command_texts(3) command_sizes(5,6)]

text \<open>A format without conversions is its own text.\<close>

lemma fixed_command:
  assumes "0 \<notin> set (to_mem fmt)" and "37 \<notin> set (to_mem fmt)" and "length fmt < 128"
  shows "cmd_sprintf fmt [] = Inr (to_mem fmt)"
proof -
  have "vformat k (m @ [0]) [] = Inr (m, [])" if "0 \<notin> set m" "37 \<notin> set m" for m k
    using that by (induction m arbitrary: k) auto
  then show ?thesis using assms by (intro cmd_sprintf_fits(1)) (auto simp: to_mem_def)
qed

lemma fixed_commands:
  "cmd_sprintf ''sf probe && imgaddr=0x88000000 && source $imgaddr:script'' []
     = Inr (to_mem ''sf probe && imgaddr=0x88000000 && source $imgaddr:script'')"
  "cmd_sprintf ''sf probe && sf erase 0x170000 0x10000 && sf write 0x88000000 0x170000 0x10000'' []
     = Inr (to_mem ''sf probe && sf erase 0x170000 0x10000 && sf write 0x88000000 0x170000 0x10000'')"
  "cmd_sprintf ''sf probe && sf erase 0x40000 0x20000 && sf write 0x88000000 0x40000 0x20000'' []
     = Inr (to_mem ''sf probe && sf erase 0x40000 0x20000 && sf write 0x88000000 0x40000 0x20000'')"
  by (rule fixed_command; simp)+

definition short :: "(u8 list option \<times> int) result \<Rightarrow> bool" where
  "short x \<longleftrightarrow> (\<exists>c. x = Inr (c, 0) \<and> (case c of None \<Rightarrow> True | Some cmd \<Rightarrow> length cmd < 128))"

lemma run_cmd_short [simp]: "short (run_cmd (Inr c)) \<longleftrightarrow> length c < 128" "short (Inr (None, 0))"
  by (simp_all add: short_def run_cmd_def)

lemma firmware_upgrade_short: "short (firmware_upgrade m b r n)"
proof (cases "do_checkout_firmware r")
  case FW_TYPE_OPENWRT
  then show ?thesis
    by (simp add: firmware_upgrade_def openwrt_upgrade_def Let_def commands command_sizes)
qed (simp_all add: firmware_upgrade_def commands fixed_commands command_sizes)

lemma do_http_upgrade_short: "short (do_http_upgrade m b r n ty)"
  by (cases ty) (use firmware_upgrade_short in \<open>simp_all add: do_http_upgrade_def commands fixed_commands command_sizes\<close>,
    simp add: short_def command_sizes)


text \<open>C9: an image for SPI flash never reaches beyond its partition: the boot loader and, on the boards with
  SPI flash, an OpenWrt image are flashed with exactly one erase of the whole partition and one
  write of the image at its start, and only if the image is not larger than the partition.  The
  partition ends at 16 or 32 MB, the end of the flash.\<close>

theorem upgrade_stays_in_partition:
  assumes "m \<in> {AP_DK04_1_C1, AP_DK04_1_C3, AP_DK01_1_C1}" and "do_checkout_firmware r = FW_TYPE_OPENWRT"
    and "b = board_names_init m b0"
  shows "do_http_upgrade m b r n Type_Firmware =
      Inr (if n \<le> openwrt_firmware_size b
           then Some (sf_command (openwrt_firmware_start b) (openwrt_firmware_size b) n) else None, 0)
    \<and> do_http_upgrade m b r n Type_Uboot
      = Inr (if n \<le> 0x80000 then Some (sf_command 0xf0000 0x80000 n) else None, 0)
    \<and> unat (openwrt_firmware_start b) + unat (openwrt_firmware_size b)
       = (if m = AP_DK01_1_C1 then 32 else 16) * 2 ^ 20
    \<and> unat (0xf0000 :: u32) + unat (0x80000 :: u32) \<le> unat (openwrt_firmware_start b)"
proof -
  have "do_http_upgrade m b r n Type_Firmware = openwrt_upgrade m b n"
    using assms(2) by (simp add: do_http_upgrade_def firmware_upgrade_def)
  also have "\<dots> = Inr (if n \<le> openwrt_firmware_size b
           then Some (sf_command (openwrt_firmware_start b) (openwrt_firmware_size b) n) else None, 0)"
    using assms(1) by (simp add: openwrt_upgrade_def run_cmd_def commands linorder_not_less)
  finally have fw: "do_http_upgrade m b r n Type_Firmware = \<dots>" .
  have ub: "do_http_upgrade m b r n Type_Uboot
      = Inr (if n \<le> 0x80000 then Some (sf_command 0xf0000 0x80000 n) else None, 0)"
    by (simp add: do_http_upgrade_def commands linorder_not_less)
  have sz: "unat (openwrt_firmware_start b) + unat (openwrt_firmware_size b)
       = (if m = AP_DK01_1_C1 then 32 else 16) * 2 ^ 20" and start: "openwrt_firmware_start b = 0x180000"
    using assms(1) by (auto simp: assms(3) board_names_init_def set_leds_def)
  show ?thesis by (intro conjI fw ub sz) (simp add: start)
qed

theorem upgrade_stays_in_partition_witness:
  "\<exists>b. do_http_upgrade AP_DK01_1_C1 b (\<lambda>_. 0) 0x1000001 Type_Firmware
       = Inr (Some (sf_command 0x180000 0x1e80000 0x1000001), 0)
     \<and> do_http_upgrade AP_DK01_1_C1 b (\<lambda>_. 0) 0x1e80001 Type_Firmware = Inr (None, 0)"
proof -
  let ?b = "board_names_init AP_DK01_1_C1 \<lparr>openwrt_firmware_start = 0, openwrt_firmware_size = 0, power_led = 0,
    led_tftp_transfer_flashing = 0, led_upgrade_write_flashing_1 = 0, led_upgrade_write_flashing_2 = 0,
    led_upgrade_erase_flashing = 0, flashing_power_led = 0, power_led_active_low = 0\<rparr>"
  have fw: "do_checkout_firmware (\<lambda>_. 0) = FW_TYPE_OPENWRT" by (simp add: do_checkout_firmware_def)
  have b: "openwrt_firmware_start ?b = 0x180000" "openwrt_firmware_size ?b = 0x1e80000"
    by (simp_all add: board_names_init_def set_leds_def)
  have res: "do_http_upgrade AP_DK01_1_C1 ?b (\<lambda>_. 0) n Type_Firmware =
      Inr (if n \<le> openwrt_firmware_size ?b
           then Some (sf_command (openwrt_firmware_start ?b) (openwrt_firmware_size ?b) n) else None, 0)" for n
    using upgrade_stays_in_partition [OF _ fw refl, of AP_DK01_1_C1 _ n] by blast
  have "do_http_upgrade AP_DK01_1_C1 ?b (\<lambda>_. 0) 0x1000001 Type_Firmware = Inr (Some (sf_command 0x180000 0x1e80000 0x1000001), 0)"
    "do_http_upgrade AP_DK01_1_C1 ?b (\<lambda>_. 0) 0x1e80001 Type_Firmware = Inr (None, 0)"
    unfolding res b by simp_all
  then show ?thesis by blast
qed

section \<open>The size of a transferred file\<close>

text \<open>
  \<open>NetLoop\<close> and \<open>HttpdLoop\<close> write the size of a transferred file to the environment with \<open>%lX\<close>, in upper case.
\<close>

fun upper_rev :: "nat \<Rightarrow> u8 list" where
  "upper_rev n = number_digit (of_nat (n mod 16)) # (if n < 16 then [] else upper_rev (n div 16))"

declare upper_rev.simps [simp del]

lemma hex2int_loop_append: "hex2int_loop v (s @ t) = hex2int_loop (hex2int_loop v s) t"
  by (induction s arbitrary: v) (simp_all add: Let_def)

lemma upper_digit:
  assumes "d < 16"
  shows "(let c = number_digit (of_nat d) in if c \<le> 57 then c - 48 else c - 65 + 10) = of_nat d"
proof -
  have "\<forall>d\<in>set [0..<16]. (let c = number_digit (of_nat d) in if c \<le> 57 then c - 48 else c - 65 + 10) = of_nat d"
    by code_simp
  then show ?thesis using assms by (simp only: set_upt atLeastLessThan_iff zero_le ball_simps)
qed

lemma nibble_or: "d < 16 \<Longrightarrow> push_bit 4 (v :: u32) OR of_nat d = v * 16 + of_nat d"
proof -
  assume d: "d < 16"
  have low: "\<not> bit (of_nat d :: u32) k \<or> k < 4" for k
  proof -
    have "take_bit 4 (of_nat d :: u32) = of_nat d"
      using d by (simp add: take_bit_eq_mod word_unat_eq_iff unat_mod unat_of_nat)
    then show ?thesis by (metis bit_take_bit_iff)
  qed
  have "\<not> bit (push_bit 4 v) k \<or> \<not> bit (of_nat d :: u32) k" for k
    using low [of k] by (auto simp: bit_push_bit_iff)
  then have "push_bit 4 v OR (of_nat d) = push_bit 4 v + of_nat d" by (intro disjunctive_add [symmetric])
  then show ?thesis by (simp add: push_bit_eq_mult mult.commute)
qed

lemma hex2int_upper: "hex2int_loop 0 (rev (upper_rev n)) = of_nat n"
proof (induction n rule: upper_rev.induct)
  case (1 n)
  let ?c = "number_digit (of_nat (n mod 16))"
  have dig: "(if ?c \<le> 57 then ?c - 48 else ?c - 65 + 10) = of_nat (n mod 16)"
    using upper_digit [of "n mod 16"] by (simp add: Let_def)
  have uc: "(ucast (of_nat (n mod 16) :: u8) :: u32) = of_nat (n mod 16)"
    by (rule word_unat_eq_iff [THEN iffD2]) (simp add: unsigned_ucast_eq take_bit_eq_mod unat_of_nat mod_mod_cancel)
  have last: "hex2int_loop v [?c] = v * 16 + of_nat (n mod 16)" for v
    using dig uc nibble_or [of "n mod 16" v] by (simp add: Let_def)
  have nn: "(of_nat n :: u32) = of_nat (n div 16) * 16 + of_nat (n mod 16)"
    by (metis div_mult_mod_eq of_nat_add of_nat_mult of_nat_numeral)
  show ?case
  proof (cases "n < 16")
    case True
    then show ?thesis using last [of 0] by (subst upper_rev.simps) simp
  next
    case False
    then show ?thesis using last [of "of_nat (n div 16)"] 1 nn
      by (subst upper_rev.simps) (simp add: hex2int_loop_append del: hex2int_loop.simps)
  qed
qed

lemma put_pow2_upper: "put_pow2 3 15 0 num = upper_rev (unat num)"
proof (induction "unat num" arbitrary: num rule: less_induct)
  case less
  have d: "unat (drop_bit 4 num) = unat num div 16"
    unfolding unat_drop_bit_eq by (simp add: drop_bit_eq_div)
  have h: "ucast num AND (0xf :: u8) = of_nat (unat num mod 16)" by (rule low_nibble)
  have z: "drop_bit 4 num = 0 \<longleftrightarrow> unat num < 16" using d by (simp add: word_unat_eq_iff div_eq_0_iff)
  show ?case
  proof (cases "unat num < 16")
    case True
    then show ?thesis using h z by (subst put_pow2.simps, subst upper_rev.simps) simp
  next
    case False
    then have "unat (drop_bit 4 num) < unat num" using d by simp
    then show ?thesis using h z d False less by (subst put_pow2.simps, subst upper_rev.simps) simp
  qed
qed

lemma upper_rev_no_nul: "0 \<notin> set (upper_rev n)"
proof (induction n rule: upper_rev.induct)
  case (1 n)
  have "\<forall>d\<in>set [0..<16]. number_digit (of_nat d) \<noteq> 0" by code_simp
  then have "number_digit (of_nat (n mod 16)) \<noteq> 0" by (rule bspec) simp
  then show ?case using 1 by (subst upper_rev.simps) auto
qed

text \<open>C34: the size that \<open>%lX\<close> writes to the environment variable \<open>filesize\<close> is the size that \<open>upgrade\<close> reads
  from it.\<close>

theorem filesize_read_back:
  "\<exists>out. vformat 0 (to_mem ''%lX'' @ [0]) [VA_Int n] = Inr (out, [])
     \<and> bind_result (strlen (out @ 0 # s)) (hex2int (out @ 0 # s)) = Inr n"
proof -
  let ?out = "rev (upper_rev (unat n))"
  have up0: "upper_rev 0 = [48]" by (subst upper_rev.simps) (simp add: number_digit_def)
  have "(ucast n :: u64) = 0 \<longleftrightarrow> unat n = 0" by (simp add: word_unat_eq_iff unat_ucast_u64)
  then have "number_digits (ucast n) 16 0 = upper_rev (unat n)"
    using put_pow2_upper [of "ucast n"] up0 by (simp add: number_digits_def unat_ucast_u64)
  then have num: "number (ucast n) 16 (-1) (-1) 0 = ?out" by (simp add: number_plain)
  have spec: "parse_spec (108 # 88 # r) args = Inr (0, -1, -1, 108, 88 # r, args)" for r args
    by (simp add: parse_spec_def parse_width_def parse_precision_def parse_qualifier_def isdigit_def)
  have cv: "convert 88 f0 f1 108 (-1) (-1) 0 0 [VA_Int n] = Inr (?out, [], [])" for f0 f1
    using num by (simp add: convert_def int_conversion_def va_number_def)
  have "vformat 0 (to_mem ''%lX'' @ [0]) [VA_Int n] = Inr (?out, [])"
    by (simp add: vformat.simps(2) [of _ 37] after_conversion_def spec cv)
  moreover have "0 \<notin> set ?out" by (simp add: upper_rev_no_nul)
  ultimately show ?thesis using hex2int_upper [of "unat n"] by (simp add: hex2int_def)
qed

end
