(* ===== verification/Http_Loop.thy ===== *)
theory Http_Loop
  imports Web_Upgrade
begin

text \<open>
  \<open>HttpdLoop\<close> of net/net.c: the start of the server and the main loop.  The devices come up
  before the loop; \<open>eth_init\<close>, the console, the LEDs and the watchdog are not modelled.  One pass of the
  loop is given by the receive buffers the hardware has filled since the last one and by whether
  Ctrl-C was typed.  \<open>do_reset\<close> does not return: the loop ends with a reset of the board, after the
  commands that were run.
\<close>

datatype 'a outcome = Running "'a net" | Reset "u8 list list" | Returned int

definition uip_setup :: "u8 list \<Rightarrow> u32 \<Rightarrow> 'a net \<Rightarrow> 'a net" where
  "uip_setup ether ip n =
     (let n = HttpdStart n
      in n\<lparr>net_arp := (net_arp n)\<lparr>uip_ethaddr := ether, uip_arp_netmask := (htons 0xffff, htons 0xff00)\<rparr>,
           stack := (stack n)\<lparr>uip_hostaddr := (htons (ucast (drop_bit 16 ip)), htons (ucast ip))\<rparr>,
           webfailsafe_is_running := True\<rparr>)"

definition loop_pass :: "'a site \<Rightarrow> machid \<Rightarrow> board \<Rightarrow> u8 list list \<times> bool \<Rightarrow> 'a net \<Rightarrow> 'a outcome result" where
  "loop_pass P m b p n =
     bind_result (ipq40xx_eth_recv P (fst p) n) (\<lambda>(received, n).
     bind_result (if 0 < received then HttpdHandler P n else Inr n) (\<lambda>n.
     if snd p then Inr (Reset [])
     else if \<not> webfailsafe_ready_for_upgrade (stack n) then Inr (Running n)
     else bind_result (do_http_upgrade m b (ram (stack n)) (NetBootFileXferSize (stack n))
              (webfailsafe_upgrade_type (stack n))) (\<lambda>(cmd, ret).
          Inr (if ret = 0 then Reset (case cmd of None \<Rightarrow> [] | Some c \<Rightarrow> [c]) else Running n))))"

fun http_loop :: "'a site \<Rightarrow> machid \<Rightarrow> board \<Rightarrow> (u8 list list \<times> bool) list \<Rightarrow> 'a net \<Rightarrow> 'a outcome result" where
  "http_loop P m b [] n = Inr (Running n)"
| "http_loop P m b (p # ps) n =
     bind_result (loop_pass P m b p n) (\<lambda>r.
       case r of Running n \<Rightarrow> http_loop P m b ps n | _ \<Rightarrow> Inr r)"

text \<open>\<open>num\<close> is the result of \<open>eth_get_dev_index\<close>, looked at when no Ethernet address is set.\<close>

definition HttpdLoop ::
  "'a site \<Rightarrow> machid \<Rightarrow> board \<Rightarrow> u8 list \<Rightarrow> u32 \<Rightarrow> int \<Rightarrow> (u8 list list \<times> bool) list \<Rightarrow> 'a net \<Rightarrow> 'a outcome result" where
  "HttpdLoop P m b ether ip num ps n =
     (let n = n\<lparr>stack := (stack n)\<lparr>NetBootFileXferSize := 0\<rparr>\<rparr>
      in if ether = replicate 6 0 then Inr (Returned (if num = -1 then 1 else 2))
         else http_loop P m b ps (uip_setup ether ip n))"

section \<open>What a pass does\<close>

text \<open>The driver reports nothing received, so \<open>HttpdHandler\<close>, and with it every timer, never runs.\<close>

lemma loop_pass_eq:
  "loop_pass P m b p n =
     bind_result (ipq40xx_edma_rx_complete P 16 0 (fst p) n) (\<lambda>n.
     if snd p then Inr (Reset [])
     else if \<not> webfailsafe_ready_for_upgrade (stack n) then Inr (Running n)
     else bind_result (do_http_upgrade m b (ram (stack n)) (NetBootFileXferSize (stack n))
              (webfailsafe_upgrade_type (stack n))) (\<lambda>(cmd, ret).
          Inr (if ret = 0 then Reset (case cmd of None \<Rightarrow> [] | Some c \<Rightarrow> [c]) else Running n)))"
  by (cases "ipq40xx_edma_rx_complete P 16 0 (fst p) n") (simp_all add: loop_pass_def ipq40xx_eth_recv_def)

lemma loop_pass_running:
  assumes "loop_pass P m b p n = Inr (Running n')"
  shows "ipq40xx_edma_rx_complete P 16 0 (fst p) n = Inr n'"
proof (cases "ipq40xx_edma_rx_complete P 16 0 (fst p) n")
  case (Inr k)
  obtain c where "do_http_upgrade m b (ram (stack k)) (NetBootFileXferSize (stack k)) (webfailsafe_upgrade_type (stack k)) = Inr (c, 0)"
    using do_http_upgrade_short unfolding short_def by blast
  then show ?thesis using assms Inr by (simp add: loop_pass_eq split: if_splits)
qed (use assms in \<open>simp add: loop_pass_eq\<close>)

section \<open>Runs of the loop\<close>

text \<open>
  A relation between states that is reflexive and transitive and holds across every received frame
  holds across the whole loop.
\<close>

locale receive_relation =
  fixes P :: "'a site" and ok :: "u8 list \<Rightarrow> bool" and R :: "'a net \<Rightarrow> 'a net \<Rightarrow> bool"
  assumes refl: "R n n"
    and trans: "R n n1 \<Longrightarrow> R n1 n2 \<Longrightarrow> R n n2"
    and receive: "ok f \<Longrightarrow> NetReceiveHttpd P f n = Inr n' \<Longrightarrow> R n n'"
begin

lemma rx_complete:
  assumes "ipq40xx_edma_rx_complete P rx len skbs n = Inr n'"
    and "\<forall>skb\<in>set skbs. \<forall>l. ok (bytes_at skb 16 (unat (rrd_length skb l)))"
  shows "R n n'"
  using assms
proof (induction rx arbitrary: len skbs n)
  case (Suc rx)
  show ?case
  proof (cases skbs)
    case (Cons skb rest)
    let ?f = "bytes_at skb 16 (unat (rrd_length skb len))"
    obtain n1 where n1: "NetReceiveHttpd P ?f n = Inr n1"
      "ipq40xx_edma_rx_complete P rx (rrd_length skb len) rest n1 = Inr n'"
      using Suc.prems(1) Cons by (auto simp: Let_def split: if_splits)
    have "R n n1" using receive n1(1) Suc.prems(2) Cons by auto
    moreover have "R n1 n'" using Suc.IH [OF n1(2)] Suc.prems(2) Cons by auto
    ultimately show ?thesis by (rule trans)
  qed (use Suc.prems refl in simp)
qed (use refl in simp)

lemma loop:
  assumes "http_loop P m b ps n = Inr (Running n')"
    and "\<forall>p\<in>set ps. \<forall>skb\<in>set (fst p). \<forall>l. ok (bytes_at skb 16 (unat (rrd_length skb l)))"
  shows "R n n'"
  using assms
proof (induction ps arbitrary: n)
  case (Cons p ps)
  obtain r where r: "loop_pass P m b p n = Inr r" "(case r of Running n \<Rightarrow> http_loop P m b ps n | _ \<Rightarrow> Inr r) = Inr (Running n')"
    using Cons.prems(1) by auto
  obtain n1 where n1: "r = Running n1" "http_loop P m b ps n1 = Inr (Running n')"
    using r(2) by (cases r) auto
  have "R n n1"
    using rx_complete [OF loop_pass_running [OF r(1) [unfolded n1(1)]]] Cons.prems(2) by simp
  moreover have "R n1 n'" using Cons.IH [OF n1(2)] Cons.prems(2) by simp
  ultimately show ?case by (rule trans)
qed (use refl in simp)

end

text \<open>The frames sent so far, the newest first, are extended by valid ones only.\<close>

definition session_valid :: "'a net \<Rightarrow> 'a net \<Rightarrow> bool" where
  "session_valid n n' \<longleftrightarrow>
     (net_inv n \<longrightarrow> net_inv n' \<and> uip_ethaddr (net_arp n') = uip_ethaddr (net_arp n)
        \<and> (\<exists>gs. eth_sent n' = gs @ eth_sent n \<and> (\<forall>g\<in>set gs. wire_ok (uip_ethaddr (net_arp n)) g)))"

interpretation session: receive_relation P plausible session_valid for P :: "'a site"
proof
  show "session_valid n n" for n :: "'a net" by (simp add: session_valid_def)
  show "session_valid n n2" if "session_valid n n1" "session_valid n1 n2" for n n1 n2 :: "'a net"
  proof -
    have "\<exists>gs. eth_sent n2 = gs @ eth_sent n \<and> (\<forall>g\<in>set gs. wire_ok mac g)"
      if "eth_sent n1 = g1 @ eth_sent n" "\<forall>g\<in>set g1. wire_ok mac g" "eth_sent n2 = g2 @ eth_sent n1"
        "\<forall>g\<in>set g2. wire_ok mac g" for g1 g2 mac
      using that by (intro exI [of _ "g2 @ g1"]) auto
    then show ?thesis using that unfolding session_valid_def by metis
  qed
  show "session_valid n n'" if "plausible f" "NetReceiveHttpd P f n = Inr n'" for f and n n' :: "'a net"
  proof -
    have "\<exists>gs. xs = gs @ ys \<and> (\<forall>g\<in>set gs. ok g)" if "xs = ys \<or> (\<exists>g. xs = g # ys \<and> ok g)"
      for xs ys :: "u8 list list" and ok
      using that by (metis append_Cons append_Nil empty_iff list.set(1) set_ConsD)
    then show ?thesis using receive_valid [OF _ that(2,1)] unfolding session_valid_def sends_valid_def by blast
  qed
qed


text \<open>A receive buffer with an ARP request in it.\<close>

definition arp_skb :: "u8 list" where
  "arp_skb = replicate 12 0 @ [42, 0, 0, 0x80] @ arp_request"

definition no_board :: board where
  "no_board = \<lparr>openwrt_firmware_start = 0, openwrt_firmware_size = 0, power_led = 0,
    led_tftp_transfer_flashing = 0, led_upgrade_write_flashing_1 = 0, led_upgrade_write_flashing_2 = 0,
    led_upgrade_erase_flashing = 0, flashing_power_led = 0, power_led_active_low = 0\<rparr>"

lemma arp_skb_frame: "bytes_at arp_skb 16 (unat (rrd_length arp_skb l)) = arp_request" "length arp_skb = 58"
  "unat (rrd_length arp_skb l) = 42"
proof -
  have "rrd_length arp_skb l = 42" by (simp add: arp_skb_def rrd_length_def nth_append le16_def)
  then show "unat (rrd_length arp_skb l) = 42" "bytes_at arp_skb 16 (unat (rrd_length arp_skb l)) = arp_request"
    by (simp_all add: arp_skb_def bytes_at_def arp_request_def)
qed (simp add: arp_skb_def arp_request_def)


section \<open>The timers\<close>

definition clocks :: "'a net \<Rightarrow> s32 \<times> u8" where
  "clocks n = (arptimer n, arptime (net_arp n))"

lemma uip_arp_update_time [simp]: "arptime (uip_arp_update ip eth a) = arptime a"
  by (simp add: uip_arp_update_def Let_def split: option.split)

lemma NetSendHttpd_clocks: "NetSendHttpd n = Inr n' \<Longrightarrow> clocks n' = clocks n"
  by (auto simp: NetSendHttpd_def clocks_def Let_def split: if_splits)

lemma NetReceiveHttpd_clocks:
  assumes "NetReceiveHttpd P f n = Inr n'"
  shows "clocks n' = clocks n"
proof -
  let ?s = "(stack n)\<lparr>uip_buf := put_bytes 0 f (uip_buf (stack n)), uip_len := of_nat (length f)\<rparr>"
  have run: "handle_packet P (n\<lparr>stack := ?s\<rparr>) = Inr n'"
    using assms by (auto simp: NetReceiveHttpd_def split: if_splits)
  have ipin: "arptime (fst (uip_arp_ipin a s)) = arptime a" and arpin: "arptime (fst (uip_arp_arpin a s)) = arptime a"
    for a and s :: "'a httpd_scheme"
    by (simp_all add: uip_arp_ipin_def uip_arp_arpin_def Let_def)
  show ?thesis
    using run ipin [of "net_arp n" ?s] arpin [of "net_arp n" ?s]
    by (auto simp: handle_packet_def Let_def clocks_def dest!: NetSendHttpd_clocks split: prod.splits if_splits)
qed

interpretation clock: receive_relation P "\<lambda>_. True" "\<lambda>n n'. clocks n' = clocks n" for P :: "'a site"
  by standard (auto simp: NetReceiveHttpd_clocks)

text \<open>C36: on this board no timer of the server ever runs.  The Ethernet driver reports that nothing was
  received even when it has received frames, so the loop never calls \<open>HttpdHandler\<close>: after any run
  the tick counter and the clock of the ARP cache stand where they stood.\<close>

theorem timers_never_run:
  assumes "http_loop P m b ps n = Inr (Running n')"
  shows "arptimer n' = arptimer n \<and> arptime (net_arp n') = arptime (net_arp n)"
  using clock.loop [OF assms] by (simp add: clocks_def)

theorem timers_never_run_witness:
  "\<exists>n'. http_loop no_site AP_DK01_1_C1 no_board (replicate 100 ([], False)) net0 = Inr (Running n')
     \<and> arptimer n' = 0 \<and> arptime (net_arp n') = 0"
proof -
  have "http_loop no_site AP_DK01_1_C1 no_board (replicate k ([], False)) net0 = Inr (Running net0)" for k
    by (induction k) (simp_all add: loop_pass_eq numeral_eq_Suc net0_def boot_state_def)
  from timers_never_run [OF this] this show ?thesis by (auto simp: net0_def arp_empty_def)
qed

end
