(* ===== verification/Macrw.thy ===== *)
theory Macrw
  imports Format_Props
begin

text \<open>
  board/qcom/ipq40xx_cdp/macrw.c: the MAC addresses in the ART partition.  The partition is read to RAM at
  \<open>ART_LOAD_ADDR\<close>, changed there and written back; RAM is a function from addresses to bytes.  The
  commands go to \<open>run_command\<close>, which is a parameter together with the type of the flash it works on.
  Strings are C strings, the names of the interfaces and the request arguments included; console
  output is not modelled.
\<close>

section \<open>State and tables\<close>

abbreviation (input) ART_LOAD_ADDR :: u32 where "ART_LOAD_ADDR \<equiv> 0x88000000"
abbreviation (input) WIFI0_BASE :: u32 where "WIFI0_BASE \<equiv> 0x88001000"
abbreviation (input) WIFI1_BASE :: u32 where "WIFI1_BASE \<equiv> 0x88005000"
abbreviation (input) WIFI2_BASE :: u32 where "WIFI2_BASE \<equiv> 0x88009000"
abbreviation (input) CMD_RET_SUCCESS :: int where "CMD_RET_SUCCESS \<equiv> 0"
abbreviation (input) CMD_RET_FAILURE :: int where "CMD_RET_FAILURE \<equiv> 1"
abbreviation (input) CMD_RET_USAGE :: int where "CMD_RET_USAGE \<equiv> - 1"

text \<open>The three functions that probe the flash each have a static \<open>flash_initialized\<close>.\<close>

record 'f mac_state =
  art_ram :: "u32 \<Rightarrow> u8"
  flash :: 'f
  last_read_mac :: mem
  cmd_initialized :: bool
  buf_initialized :: bool
  web_initialized :: bool

type_synonym 'f runner = "u8 list \<Rightarrow> (u32 \<Rightarrow> u8) \<times> 'f \<Rightarrow> int \<times> (u32 \<Rightarrow> u8) \<times> 'f"

definition run_command :: "'f runner \<Rightarrow> u8 list \<Rightarrow> 'f mac_state \<Rightarrow> int \<times> 'f mac_state" where
  "run_command run cmd s =
     (let (ret, r, f) = run cmd (art_ram s, flash s) in (ret, s\<lparr>art_ram := r, flash := f\<rparr>))"

definition mac_interfaces :: "(mem \<times> u32 \<times> bool) list" where
  "mac_interfaces =
     [(to_mem ''eth0'' @ [0], ART_LOAD_ADDR + 0x0000, False),
      (to_mem ''eth1'' @ [0], ART_LOAD_ADDR + 0x0006, False),
      (to_mem ''wifi0'' @ [0], WIFI0_BASE + 0x0006, True),
      (to_mem ''wifi1'' @ [0], WIFI1_BASE + 0x0006, True),
      (to_mem ''wifi2'' @ [0], WIFI2_BASE + 0x0006, True)]"

section \<open>Strings\<close>

definition a2x :: "u8 \<Rightarrow> u8" where
  "a2x c =
     (if 48 \<le> c \<and> c \<le> 57 then c - 48
      else if 97 \<le> c \<and> c \<le> 102 then 10 + (c - 97)
      else if 65 \<le> c \<and> c \<le> 70 then 10 + (c - 65)
      else 0xff)"

text \<open>
  The loop of \<open>normalize_mac_string\<close> with the characters put out so far; \<open>None\<close> for the result -1.
\<close>

fun normalize_loop :: "mem \<Rightarrow> u8 list \<Rightarrow> u8 list option result" where
  "normalize_loop [] out = Inl Out_Of_Bounds"
| "normalize_loop (c # input) out =
     (if c = 0 \<or> 12 \<le> length out then Inr (if length out = 12 then Some out else None)
      else if c = 58 \<or> c = 45 then normalize_loop input out
      else if \<not> (48 \<le> c \<and> c \<le> 57 \<or> 97 \<le> c \<and> c \<le> 102 \<or> 65 \<le> c \<and> c \<le> 70) then Inr None
      else normalize_loop input (out @ [if 65 \<le> c \<and> c \<le> 70 then c + 32 else c]))"

definition normalize_mac_string :: "mem \<Rightarrow> mem option result" where
  "normalize_mac_string input =
     bind_result (normalize_loop input []) (\<lambda>r. Inr (map_option (\<lambda>out. out @ [0]) r))"

fun copy_mac_loop :: "nat \<Rightarrow> nat \<Rightarrow> u32 \<Rightarrow> mem \<Rightarrow> (u32 \<Rightarrow> u8) \<Rightarrow> (u32 \<Rightarrow> u8) result" where
  "copy_mac_loop 0 i mac str r = Inr r"
| "copy_mac_loop (Suc n) i mac str r =
     (if length str \<le> i * 2 + 1 then Inl Out_Of_Bounds
      else copy_mac_loop n (i + 1) mac str
             (r(mac + of_nat i := push_bit 4 (a2x (str ! (i * 2))) + a2x (str ! (i * 2 + 1)))))"

definition copy_str_to_mac :: "u32 \<Rightarrow> mem \<Rightarrow> (u32 \<Rightarrow> u8) \<Rightarrow> (u32 \<Rightarrow> u8) result" where
  "copy_str_to_mac mac str r = copy_mac_loop 6 0 mac str r"

section \<open>The partition\<close>

definition art_cmd :: "string \<Rightarrow> va list \<Rightarrow> u8 list result" where
  "art_cmd fmt args =
     bind_result (snprintf (replicate 128 0) 128 (to_mem fmt @ [0]) args) (\<lambda>(buf, n). Inr (cstr buf))"

definition read_flash_art :: "'f runner \<Rightarrow> 'f mac_state \<Rightarrow> (int \<times> 'f mac_state) result" where
  "read_flash_art run s =
     bind_result (art_cmd ''sf read 0x%08x 0x%llx 0x%zx'' [VA_Int ART_LOAD_ADDR, VA_Quad 0x170000, VA_Int 0x10000])
       (\<lambda>cmd. let (ret, s) = run_command run cmd s
              in Inr (if ret \<noteq> 0 then CMD_RET_FAILURE else CMD_RET_SUCCESS, s))"

definition write_flash_art :: "'f runner \<Rightarrow> 'f mac_state \<Rightarrow> (int \<times> 'f mac_state) result" where
  "write_flash_art run s =
     bind_result
       (art_cmd ''sf erase 0x%llx 0x%zx && sf write 0x%08x 0x%llx 0x%zx''
         [VA_Quad 0x170000, VA_Int 0x10000, VA_Int ART_LOAD_ADDR, VA_Quad 0x170000, VA_Int 0x10000])
       (\<lambda>cmd. let (ret, s) = run_command run cmd s
              in Inr (if ret \<noteq> 0 then CMD_RET_FAILURE else CMD_RET_SUCCESS, s))"

text \<open>The check sum of one radio: 12064 / 2 = 6032 half words, with the field itself as 0xffff.\<close>

definition halfword :: "(u32 \<Rightarrow> u8) \<Rightarrow> u32 \<Rightarrow> u16" where
  "halfword r a = le16 (r a) (r (a + 1))"

definition store_halfword :: "u32 \<Rightarrow> u16 \<Rightarrow> (u32 \<Rightarrow> u8) \<Rightarrow> u32 \<Rightarrow> u8" where
  "store_halfword a w r = r(a := lo8 w, a + 1 := hi8 w)"

definition wifi_sum :: "(u32 \<Rightarrow> u8) \<Rightarrow> u32 \<Rightarrow> u16" where
  "wifi_sum r art = foldl (\<lambda>checksum j. checksum XOR halfword r (art + 2 * of_nat j)) 0 [0..<6032]"

definition update_region :: "(u32 \<Rightarrow> u8) \<Rightarrow> u32 \<Rightarrow> u32 \<Rightarrow> u8" where
  "update_region r art =
     (let r = store_halfword (art + 2) 0xffff r in store_halfword (art + 2) (wifi_sum r art) r)"

definition update_wifi_checksum :: "(u32 \<Rightarrow> u8) \<Rightarrow> u32 \<Rightarrow> u8" where
  "update_wifi_checksum r = foldl update_region r [WIFI0_BASE, WIFI1_BASE, WIFI2_BASE]"

section \<open>Reading and writing an address\<close>

fun find_interface :: "(mem \<times> u32 \<times> bool) list \<Rightarrow> mem \<Rightarrow> (u32 \<times> bool) option result" where
  "find_interface [] interface = Inr None"
| "find_interface ((name, addr, is_wifi) # p) interface =
     bind_result (strcmp name interface) (\<lambda>r.
       if r = 0 then Inr (Some (addr, is_wifi)) else find_interface p interface)"

definition get_mac_address_ptr :: "mem \<Rightarrow> (u32 \<times> bool) option result" where
  "get_mac_address_ptr interface = find_interface mac_interfaces interface"

definition flash_read_mac :: "mem \<Rightarrow> 'f mac_state \<Rightarrow> (int \<times> 'f mac_state) result" where
  "flash_read_mac interface s =
     bind_result (get_mac_address_ptr interface) (\<lambda>mac.
     case mac of
       None \<Rightarrow> Inr (CMD_RET_FAILURE, s\<lparr>last_read_mac := (last_read_mac s)[0 := 0]\<rparr>)
     | Some (mac, is_wifi) \<Rightarrow>
         bind_result (snprintf (last_read_mac s) 32 (to_mem ''%02x:%02x:%02x:%02x:%02x:%02x'' @ [0])
             (map (\<lambda>i. VA_Int (ucast (art_ram s (mac + i)))) [0, 1, 2, 3, 4, 5]))
           (\<lambda>(buf, n). Inr (CMD_RET_SUCCESS, s\<lparr>last_read_mac := buf\<rparr>)))"

definition flash_write_mac :: "'f runner \<Rightarrow> mem \<Rightarrow> mem \<Rightarrow> 'f mac_state \<Rightarrow> (int \<times> 'f mac_state) result" where
  "flash_write_mac run interface mac_str s =
     bind_result (get_mac_address_ptr interface) (\<lambda>mac.
     bind_result (normalize_mac_string mac_str) (\<lambda>clean_mac.
     case clean_mac of
       None \<Rightarrow> Inr (CMD_RET_FAILURE, s)
     | Some clean_mac \<Rightarrow>
         (case mac of
            None \<Rightarrow> Inr (CMD_RET_FAILURE, s)
          | Some (mac, is_wifi) \<Rightarrow>
              bind_result (read_flash_art run s) (\<lambda>(ret, s).
              if ret \<noteq> CMD_RET_SUCCESS then Inr (CMD_RET_FAILURE, s)
              else
                bind_result (copy_str_to_mac mac clean_mac (art_ram s)) (\<lambda>r.
                let r = (if is_wifi then update_wifi_checksum r else r)
                in bind_result (write_flash_art run (s\<lparr>art_ram := r\<rparr>)) (\<lambda>(ret, s).
                     if ret \<noteq> CMD_RET_SUCCESS then Inr (CMD_RET_FAILURE, s)
                     else Inr (CMD_RET_SUCCESS, s)))))))"

text \<open>\<open>flash_read_all_macs\<close> reads every interface; only the last read stays in \<open>last_read_mac\<close>.\<close>

fun read_all_loop :: "mem list \<Rightarrow> 'f mac_state \<Rightarrow> 'f mac_state result" where
  "read_all_loop [] s = Inr s"
| "read_all_loop (name # p) s = bind_result (flash_read_mac name s) (\<lambda>(ret, s). read_all_loop p s)"

definition flash_read_all_macs :: "'f mac_state \<Rightarrow> (int \<times> 'f mac_state) result" where
  "flash_read_all_macs s =
     bind_result (read_all_loop (map fst mac_interfaces) s) (\<lambda>s. Inr (CMD_RET_SUCCESS, s))"

section \<open>The command\<close>

definition extract_handle :: "mem list \<Rightarrow> mem list result" where
  "extract_handle argv =
     (if 1 < length argv then
        bind_result (strncmp (last argv) (to_mem ''handle='' @ [0]) 7) (\<lambda>r.
          Inr (if r = 0 then butlast argv else argv))
      else Inr argv)"

text \<open>\<open>sf probe\<close>, once per static flag; the flag is set only when it succeeds.\<close>

definition sf_probe :: "'f runner \<Rightarrow> bool \<Rightarrow> 'f mac_state \<Rightarrow> bool \<times> 'f mac_state" where
  "sf_probe run initialized s =
     (if initialized then (True, s)
      else let (ret, s) = run_command run (to_mem ''sf probe'') s in (ret = 0, s))"

definition str_is :: "mem \<Rightarrow> string \<Rightarrow> bool result" where
  "str_is m str = bind_result (strcmp m (to_mem str @ [0])) (\<lambda>r. Inr (r = 0))"

definition do_macrw :: "'f runner \<Rightarrow> mem list \<Rightarrow> 'f mac_state \<Rightarrow> (int \<times> 'f mac_state) result" where
  "do_macrw run argv s =
     bind_result (extract_handle argv) (\<lambda>argv.
     let (ok, s) = sf_probe run (cmd_initialized s) s
     in if \<not> ok then Inr (CMD_RET_FAILURE, s)
        else
          let s = s\<lparr>cmd_initialized := True\<rparr>
          in if length argv = 1 then
               bind_result (read_flash_art run s) (\<lambda>(ret, s).
               if ret \<noteq> CMD_RET_SUCCESS then Inr (CMD_RET_FAILURE, s)
               else bind_result (flash_read_all_macs s) (\<lambda>(_, s). Inr (CMD_RET_SUCCESS, s)))
             else if length argv = 0 then Inl Null_Deref
             else
               bind_result (str_is (argv ! 1) ''help'') (\<lambda>help.
               if help then Inr (CMD_RET_USAGE, s)
               else bind_result (str_is (argv ! 1) ''r'') (\<lambda>rd.
               if rd then
                 bind_result (read_flash_art run s) (\<lambda>(ret, s).
                 if ret \<noteq> CMD_RET_SUCCESS then Inr (CMD_RET_FAILURE, s)
                 else if length argv = 2 then flash_read_all_macs s
                 else if length argv = 3 then flash_read_mac (argv ! 2) s
                 else Inr (CMD_RET_USAGE, s))
               else bind_result (str_is (argv ! 1) ''w'') (\<lambda>wr.
               if wr \<and> length argv = 4 then flash_write_mac run (argv ! 2) (argv ! 3) s
               else Inr (CMD_RET_USAGE, s)))))"

section \<open>The web requests\<close>

definition flash_read_mac_to_buf ::
  "'f runner \<Rightarrow> mem \<Rightarrow> mem \<Rightarrow> nat \<Rightarrow> 'f mac_state \<Rightarrow> (int \<times> mem \<times> 'f mac_state) result" where
  "flash_read_mac_to_buf run iface buf buflen s =
     (let (ok, s) = sf_probe run (buf_initialized s) s
      in if \<not> ok then Inr (-1, buf[0 := 0], s)
         else
           bind_result (read_flash_art run (s\<lparr>buf_initialized := True\<rparr>)) (\<lambda>(ret, s).
           if ret \<noteq> CMD_RET_SUCCESS then Inr (-1, buf[0 := 0], s)
           else
             bind_result (flash_read_mac iface s) (\<lambda>(ret, s).
             if ret = 0 \<and> last_read_mac s ! 0 \<noteq> 0 then
               bind_result (strncpy buf (last_read_mac s) (buflen - 1)) (\<lambda>buf.
                 Inr (0, buf[buflen - 1 := 0], s))
             else Inr (-1, buf[0 := 0], s))))"

text \<open>The arguments of the request; a later one of the same name wins.\<close>

fun find_args :: "mem list \<Rightarrow> mem option \<times> mem option \<times> mem option
    \<Rightarrow> (mem option \<times> mem option \<times> mem option) result" where
  "find_args [] st = Inr st"
| "find_args (a # argv) (action, iface, mac) =
     bind_result (strncmp a (to_mem ''action='' @ [0]) 7) (\<lambda>r.
     if r = 0 then find_args argv (Some (drop 7 a), iface, mac)
     else bind_result (strncmp a (to_mem ''iface='' @ [0]) 6) (\<lambda>r.
     if r = 0 then find_args argv (action, Some (drop 6 a), mac)
     else bind_result (strncmp a (to_mem ''mac='' @ [0]) 4) (\<lambda>r.
     if r = 0 then find_args argv (action, iface, Some (drop 4 a))
     else find_args argv (action, iface, mac))))"

text \<open>
  \<open>len += snprintf(resp_buf + len, bufsize - len, ...)\<close>, with the buffer and \<open>len\<close>: the difference is an
  \<open>int\<close> that becomes a \<open>size_t\<close>, so there is no bound any more once \<open>len\<close> is beyond the buffer.
\<close>

definition room :: "nat \<Rightarrow> nat \<Rightarrow> nat" where
  "room bufsize len = (if len \<le> bufsize then bufsize - len else 2 ^ 32 - (len - bufsize))"

definition respond :: "mem \<times> nat \<Rightarrow> string \<Rightarrow> va list \<Rightarrow> (mem \<times> nat) result" where
  "respond resp fmt args =
     bind_result (snprintf (drop (snd resp) (fst resp)) (room (length (fst resp)) (snd resp)) (to_mem fmt @ [0]) args)
       (\<lambda>(b, n). Inr (take (snd resp) (fst resp) @ b, snd resp + unat n))"

definition http_ok :: string where
  "http_ok = ''HTTP/1.1 200 OK'' @ [CHR 0x0d, CHR 0x0a] @ ''Content-Type: text/plain'' @ [CHR 0x0d, CHR 0x0a]
     @ ''Connection: close'' @ [CHR 0x0d, CHR 0x0a, CHR 0x0d, CHR 0x0a]"

definition web_macrw_handle ::
  "'f runner \<Rightarrow> mem list \<Rightarrow> mem \<Rightarrow> 'f mac_state \<Rightarrow> ((mem \<times> nat) \<times> 'f mac_state) result" where
  "web_macrw_handle run argv resp_buf s =
     bind_result (find_args argv (None, None, None)) (\<lambda>(action, iface, mac).
     bind_result (respond (resp_buf, 0) http_ok []) (\<lambda>resp.
     case (action, iface) of
       (Some action, Some iface) \<Rightarrow>
         bind_result (str_is action ''write'') (\<lambda>write.
         if write then
           (case mac of
              None \<Rightarrow> bind_result (respond resp (''Error: mac is required'' @ [CHR 0x0a]) []) (\<lambda>resp. Inr (resp, s))
            | Some mac \<Rightarrow>
                let (ok, s) = sf_probe run (web_initialized s) s
                in if \<not> ok then
                     bind_result (respond resp (''Error: SPI flash not initialized. Please initialize first.'' @ [CHR 0x0a]) [])
                       (\<lambda>resp. Inr (resp, s))
                   else
                     bind_result (flash_write_mac run iface mac (s\<lparr>web_initialized := True\<rparr>)) (\<lambda>(ret, s).
                     bind_result
                       (if ret = 0 then respond resp (''Write success: %s = %s'' @ [CHR 0x0a]) [VA_Str (Some iface), VA_Str (Some mac)]
                        else respond resp (''Write failed: %s'' @ [CHR 0x0a]) [VA_Str (Some iface)])
                       (\<lambda>resp. Inr (resp, s))))
         else
           bind_result (str_is action ''read'') (\<lambda>read.
           if read then
             bind_result (flash_read_mac_to_buf run iface (replicate 32 0) 32 s) (\<lambda>(ret, mac_addr, s).
             bind_result
               (if ret = 0 then respond resp (''Read success: %s = %s'' @ [CHR 0x0a]) [VA_Str (Some iface), VA_Str (Some mac_addr)]
                else respond resp (''Read failed: %s'' @ [CHR 0x0a]) [VA_Str (Some iface)])
               (\<lambda>resp. Inr (resp, s)))
           else bind_result (respond resp (''Unknown action: %s'' @ [CHR 0x0a]) [VA_Str (Some action)]) (\<lambda>resp. Inr (resp, s))))
     | _ \<Rightarrow> bind_result (respond resp (''Error: action and iface are required'' @ [CHR 0x0a]) []) (\<lambda>resp. Inr (resp, s))))"

section \<open>The check sums of the radios\<close>

lemma xor_fold_acc: "foldl (\<lambda>c j. c XOR f j) (a :: u16) xs = a XOR foldl (\<lambda>c j. c XOR f j) 0 xs"
proof (induction xs arbitrary: a)
  case (Cons x xs)
  show ?case using Cons [of "a XOR f x"] Cons [of "f x"] by (simp add: xor.assoc)
qed simp

lemma xor_fold_change:
  assumes "k < n" "\<And>j. j < n \<Longrightarrow> j \<noteq> k \<Longrightarrow> g j = f j"
  shows "foldl (\<lambda>c j. c XOR g j) 0 [0..<n] = (foldl (\<lambda>c j. c XOR f j) 0 [0..<n] XOR f k XOR g k :: u16)"
proof -
  have split: "foldl (\<lambda>c j. c XOR h j) 0 [0..<n] =
      (foldl (\<lambda>c j. c XOR h j) 0 [0..<k] XOR foldl (\<lambda>c j. c XOR h j) 0 [Suc k..<n]) XOR h k" for h :: "nat \<Rightarrow> u16"
  proof -
    have "[0..<n] = [0..<k] @ k # [Suc k..<n]"
      using assms(1) by (metis less_imp_add_positive upt_add_eq_append upt_conv_Cons zero_le less_imp_le_nat le_add_diff_inverse)
    then show ?thesis
      using xor_fold_acc [of h "foldl (\<lambda>c j. c XOR h j) 0 [0..<k] XOR h k" "[Suc k..<n]"]
      by (simp add: ac_simps)
  qed
  have "foldl (\<lambda>c j. c XOR g j) 0 [0..<k] = foldl (\<lambda>c j. c XOR f j) 0 [0..<k]"
    "foldl (\<lambda>c j. c XOR g j) 0 [Suc k..<n] = foldl (\<lambda>c j. c XOR f j) 0 [Suc k..<n]"
    using assms by (auto intro!: foldl_cong)
  then show ?thesis unfolding split by (simp add: ac_simps)
qed

text \<open>The bytes of one radio, and a store beside them.\<close>

definition in_region :: "u32 \<Rightarrow> u32 \<Rightarrow> bool" where
  "in_region art a \<longleftrightarrow> unat (a - art) < 12064"

lemma unat_twice: "j < 6032 \<Longrightarrow> unat (2 * of_nat j :: u32) = 2 * j"
  by (simp add: unat_word_ariths unat_of_nat)

lemma unat_twice_1: "j < 6032 \<Longrightarrow> unat (2 * of_nat j + 1 :: u32) = 2 * j + 1"
  by (simp add: unat_word_ariths unat_of_nat)

lemma halfword_store_other:
  "\<lbrakk>a \<noteq> b; a + 1 \<noteq> b; a \<noteq> b + 1\<rbrakk> \<Longrightarrow> halfword (store_halfword a w r) b = halfword r b"
  by (auto simp: halfword_def store_halfword_def)

lemma halfword_store_same: "halfword (store_halfword a w r) a = w"
  by (simp add: halfword_def store_halfword_def)

lemma wifi_sum_outside:
  assumes "\<not> in_region art a" "\<not> in_region art (a + 1)"
  shows "wifi_sum (store_halfword a w r) art = wifi_sum r art"
  unfolding wifi_sum_def
proof (rule foldl_cong)
  fix c :: u16 and j assume "j \<in> set [0..<6032]"
  then have j: "j < 6032" by simp
  have "a \<noteq> art + 2 * of_nat j" "a \<noteq> art + 2 * of_nat j + 1" "a + 1 \<noteq> art + 2 * of_nat j"
    using assms unat_twice [OF j] unat_twice_1 [OF j] j by (auto simp: in_region_def add.assoc)
  then show "c XOR halfword (store_halfword a w r) (art + 2 * of_nat j) = c XOR halfword r (art + 2 * of_nat j)"
    by (simp add: halfword_store_other)
qed simp_all

lemma wifi_sum_update_region: "wifi_sum (update_region r art) art = 0xffff"
proof -
  let ?r = "store_halfword (art + 2) 0xffff r"
  let ?w = "wifi_sum ?r art"
  have other: "halfword (store_halfword (art + 2) ?w ?r) (art + 2 * of_nat j) = halfword ?r (art + 2 * of_nat j)"
    if "j < 6032" "j \<noteq> 1" for j
  proof (rule halfword_store_other)
    have "2 * of_nat j \<noteq> (2 :: u32)" "2 * of_nat j \<noteq> (3 :: u32)" "2 * of_nat j + 1 \<noteq> (2 :: u32)"
      using unat_twice [OF that(1)] unat_twice_1 [OF that(1)] that(2)
      by (auto dest!: arg_cong [where f = unat]; presburger)+
    then show "art + 2 \<noteq> art + 2 * of_nat j" "art + 2 + 1 \<noteq> art + 2 * of_nat j"
        "art + 2 \<noteq> art + 2 * of_nat j + 1"
      by (auto simp: add.assoc)
  qed
  have "wifi_sum (update_region r art) art
      = ?w XOR halfword ?r (art + 2 * of_nat 1) XOR halfword (store_halfword (art + 2) ?w ?r) (art + 2 * of_nat 1)"
    unfolding update_region_def Let_def
    by (subst wifi_sum_def, subst (2) wifi_sum_def, rule xor_fold_change) (simp_all add: other)
  also have "\<dots> = 0xffff"
    by (simp add: halfword_store_same ac_simps)
  finally show ?thesis .
qed

lemma update_region_eq: "\<exists>w. update_region r art = store_halfword (art + 2) w r"
  by (auto simp: update_region_def store_halfword_def Let_def)

lemma wifi_sum_update_other:
  assumes "\<not> in_region art (art' + 2)" "\<not> in_region art (art' + 3)"
  shows "wifi_sum (update_region r art') art = wifi_sum r art"
  using update_region_eq [of r art'] wifi_sum_outside [of art "art' + 2"] assms by (auto simp: add.assoc)

lemma update_wifi_checksum_sums:
  "wifi_sum (update_wifi_checksum r) WIFI0_BASE = 0xffff"
  "wifi_sum (update_wifi_checksum r) WIFI1_BASE = 0xffff"
  "wifi_sum (update_wifi_checksum r) WIFI2_BASE = 0xffff"
  unfolding update_wifi_checksum_def
  by (simp_all add: wifi_sum_update_region wifi_sum_update_other in_region_def)

lemma update_wifi_checksum_eq:
  "\<exists>s0 s1 s2. update_wifi_checksum r =
     store_halfword (WIFI2_BASE + 2) s2 (store_halfword (WIFI1_BASE + 2) s1 (store_halfword (WIFI0_BASE + 2) s0 r))"
proof -
  obtain s0 where 0: "update_region r WIFI0_BASE = store_halfword (WIFI0_BASE + 2) s0 r"
    using update_region_eq by blast
  obtain s1 where 1: "update_region (update_region r WIFI0_BASE) WIFI1_BASE =
      store_halfword (WIFI1_BASE + 2) s1 (update_region r WIFI0_BASE)"
    using update_region_eq by blast
  obtain s2 where 2: "update_region (update_region (update_region r WIFI0_BASE) WIFI1_BASE) WIFI2_BASE =
      store_halfword (WIFI2_BASE + 2) s2 (update_region (update_region r WIFI0_BASE) WIFI1_BASE)"
    using update_region_eq by blast
  have "update_wifi_checksum r = update_region (update_region (update_region r WIFI0_BASE) WIFI1_BASE) WIFI2_BASE"
    by (simp add: update_wifi_checksum_def)
  also note 2
  also note 1
  also note 0
  finally show ?thesis by blast
qed

section \<open>The texts\<close>

lemma to_mem_simps [simp]:
  "to_mem [] = []" "to_mem (c # s) = of_char c # to_mem s" "to_mem (s @ t) = to_mem s @ to_mem t"
  by (simp_all add: to_mem_def)

definition hex_digits :: "nat \<Rightarrow> u8 list" where
  "hex_digits n = rev (digits_rev 16 n)"

definition hex_field :: "nat \<Rightarrow> nat \<Rightarrow> u8 list" where
  "hex_field w n = replicate (w - length (hex_digits n)) 48 @ hex_digits n"

lemma number_digits_small: "number_digits num 16 33 = number_digits num 16 SMALL"
  by (simp add: number_digits_def)

lemma number_zero_padded: "number num 16 (int w) (-1) 33 = hex_field w (unat num)"
  by (simp add: number_def number_sign_def number_digits_small number_digits_hex hex_field_def hex_digits_def
      pad_def Let_def nat_minus_as_int [symmetric])

lemma vformat_hex_fields:
  "vformat k (37 # 48 # 56 # 120 # r) (VA_Int n # args) =
     bind_result (vformat (k + length (hex_field 8 (unat n))) r args) (\<lambda>(out, st). Inr (hex_field 8 (unat n) @ out, st))"
  "vformat k (37 # 48 # 50 # 120 # r) (VA_Int n # args) =
     bind_result (vformat (k + length (hex_field 2 (unat n))) r args) (\<lambda>(out, st). Inr (hex_field 2 (unat n) @ out, st))"
  "vformat k (37 # 122 # 120 # r) (VA_Int n # args) =
     bind_result (vformat (k + length (hex_digits (unat n))) r args) (\<lambda>(out, st). Inr (hex_digits (unat n) @ out, st))"
  "vformat k (37 # 108 # 108 # 120 # r) (VA_Quad q # args) =
     bind_result (vformat (k + length (hex_digits (unat q))) r args) (\<lambda>(out, st). Inr (hex_digits (unat q) @ out, st))"
proof -
  have "parse_spec (48 # 56 # 120 # r) (VA_Int n # args) = Inr (1, 8, -1, 0, 120 # r, VA_Int n # args)"
    by (simp add: parse_spec_def parse_width_def parse_precision_def parse_qualifier_def isdigit_def)
  moreover have "convert 120 f0 f1 0 8 (-1) 1 k (VA_Int n # args) = Inr (hex_field 8 (unat n), args, [])" for f0 f1
    using number_zero_padded [of "ucast n" 8] by (simp add: convert_def int_conversion_def va_number_def unat_ucast_u64)
  ultimately show "vformat k (37 # 48 # 56 # 120 # r) (VA_Int n # args) =
     bind_result (vformat (k + length (hex_field 8 (unat n))) r args) (\<lambda>(out, st). Inr (hex_field 8 (unat n) @ out, st))"
    by (simp add: vformat.simps(2) [of k 37] after_conversion_def)
next
  have "parse_spec (48 # 50 # 120 # r) (VA_Int n # args) = Inr (1, 2, -1, 0, 120 # r, VA_Int n # args)"
    by (simp add: parse_spec_def parse_width_def parse_precision_def parse_qualifier_def isdigit_def)
  moreover have "convert 120 f0 f1 0 2 (-1) 1 k (VA_Int n # args) = Inr (hex_field 2 (unat n), args, [])" for f0 f1
    using number_zero_padded [of "ucast n" 2] by (simp add: convert_def int_conversion_def va_number_def unat_ucast_u64)
  ultimately show "vformat k (37 # 48 # 50 # 120 # r) (VA_Int n # args) =
     bind_result (vformat (k + length (hex_field 2 (unat n))) r args) (\<lambda>(out, st). Inr (hex_field 2 (unat n) @ out, st))"
    by (simp add: vformat.simps(2) [of k 37] after_conversion_def)
next
  have "parse_spec (122 # 120 # r) (VA_Int n # args) = Inr (0, -1, -1, 122, 120 # r, VA_Int n # args)"
    by (simp add: parse_spec_def parse_width_def parse_precision_def parse_qualifier_def isdigit_def)
  moreover have "convert 120 f0 f1 122 (-1) (-1) 0 k (VA_Int n # args) = Inr (hex_digits (unat n), args, [])" for f0 f1
    by (simp add: convert_def int_conversion_def va_number_def number_plain number_digits_hex unat_ucast_u64 hex_digits_def)
  ultimately show "vformat k (37 # 122 # 120 # r) (VA_Int n # args) =
     bind_result (vformat (k + length (hex_digits (unat n))) r args) (\<lambda>(out, st). Inr (hex_digits (unat n) @ out, st))"
    by (simp add: vformat.simps(2) [of k 37] after_conversion_def)
next
  have "parse_spec (108 # 108 # 120 # r) (VA_Quad q # args) = Inr (0, -1, -1, 76, 120 # r, VA_Quad q # args)"
    by (simp add: parse_spec_def parse_width_def parse_precision_def parse_qualifier_def isdigit_def)
  moreover have "convert 120 f0 f1 76 (-1) (-1) 0 k (VA_Quad q # args) = Inr (hex_digits (unat q), args, [])" for f0 f1
    by (simp add: convert_def int_conversion_def va_number_def number_plain number_digits_hex hex_digits_def)
  ultimately show "vformat k (37 # 108 # 108 # 120 # r) (VA_Quad q # args) =
     bind_result (vformat (k + length (hex_digits (unat q))) r args) (\<lambda>(out, st). Inr (hex_digits (unat q) @ out, st))"
    by (simp add: vformat.simps(2) [of k 37] after_conversion_def)
qed

lemma snprintf_fits:
  assumes "vformat 0 fmt args = Inr (out, st)" and "length out < n" and "length buf = n"
  shows "snprintf buf n fmt args = Inr (put_bytes 0 (out @ [0]) buf, of_nat (length out))"
  using assms by (simp add: snprintf_def vsnprintf_def Let_def)

lemma art_cmd_fits:
  assumes "vformat 0 (to_mem fmt @ [0]) args = Inr (out, st)" and "length out < 128" and "0 \<notin> set out"
  shows "art_cmd fmt args = Inr out"
proof -
  have "put_bytes 0 (out @ [0]) (replicate 128 (0 :: u8)) = out @ 0 # replicate (127 - length out) 0"
    using assms(2) by (simp add: put_bytes_def)
  then show ?thesis using assms snprintf_fits [OF assms(1,2)] by (simp add: art_cmd_def)
qed

definition sf_read_art :: "u8 list" where
  "sf_read_art = to_mem ''sf read 0x88000000 0x170000 0x10000''"

definition sf_write_art :: "u8 list" where
  "sf_write_art = to_mem ''sf erase 0x170000 0x10000 && sf write 0x88000000 0x170000 0x10000''"

lemma art_cmds:
  "art_cmd ''sf read 0x%08x 0x%llx 0x%zx'' [VA_Int 0x88000000, VA_Quad 0x170000, VA_Int 0x10000]
     = Inr sf_read_art"
  "art_cmd ''sf erase 0x%llx 0x%zx && sf write 0x%08x 0x%llx 0x%zx''
         [VA_Quad 0x170000, VA_Int 0x10000, VA_Int 0x88000000, VA_Quad 0x170000, VA_Int 0x10000]
     = Inr sf_write_art"
proof -
  have d: "hex_digits 0x88000000 = to_mem ''88000000''" "hex_digits 0x170000 = to_mem ''170000''"
      "hex_digits 0x10000 = to_mem ''10000''"
    by (simp_all add: hex_digits_def digits_rev.simps digit_char_def)
  show "art_cmd ''sf read 0x%08x 0x%llx 0x%zx'' [VA_Int 0x88000000, VA_Quad 0x170000, VA_Int 0x10000]
     = Inr sf_read_art"
    by (rule art_cmd_fits) (simp_all add: vformat_hex_fields hex_field_def d sf_read_art_def sf_write_art_def)
  show "art_cmd ''sf erase 0x%llx 0x%zx && sf write 0x%08x 0x%llx 0x%zx''
         [VA_Quad 0x170000, VA_Int 0x10000, VA_Int 0x88000000, VA_Quad 0x170000, VA_Int 0x10000]
     = Inr sf_write_art"
    by (rule art_cmd_fits) (simp_all add: vformat_hex_fields hex_field_def d sf_read_art_def sf_write_art_def)
qed

section \<open>Writing and reading back\<close>

lemma a2x_digit: "h < 16 \<Longrightarrow> a2x (digit_char h) = of_nat h"
proof -
  have "\<forall>h\<in>set [0..<16]. a2x (digit_char h) = of_nat h" by code_simp
  then show "h < 16 \<Longrightarrow> a2x (digit_char h) = of_nat h" by simp
qed

lemma digit_char_nz: "h < 16 \<Longrightarrow> digit_char h \<noteq> 0"
proof -
  have "\<forall>h\<in>set [0..<16]. digit_char h \<noteq> 0" by code_simp
  then show "h < 16 \<Longrightarrow> digit_char h \<noteq> 0" by simp
qed

lemma hex_pair:
  assumes "a < 16" "b < 16"
  shows "hex_field 2 (16 * a + b) = [digit_char a, digit_char b]"
proof -
  have d: "(16 * a + b) div 16 = a" "(16 * a + b) mod 16 = b" using assms by simp_all
  have a: "digits_rev 16 a = [digit_char a]" using assms by (subst digits_rev.simps) simp
  have "digits_rev 16 (16 * a + b) = digit_char b # (if a = 0 then [] else [digit_char a])"
    using assms by (subst digits_rev.simps) (auto simp: d a)
  then show ?thesis using assms by (auto simp: hex_field_def hex_digits_def digit_char_def)
qed

definition mac_byte :: "u8 list \<Rightarrow> nat \<Rightarrow> u8" where
  "mac_byte d i = push_bit 4 (a2x (d ! (i * 2))) + a2x (d ! (i * 2 + 1))"

lemma mac_byte_text:
  assumes "set d \<subseteq> digit_char ` {0..<16}" "length d = 12" "i < 6"
  shows "hex_field 2 (unat (mac_byte d i)) = [d ! (i * 2), d ! (i * 2 + 1)]"
proof -
  have "d ! (i * 2) \<in> set d" "d ! (i * 2 + 1) \<in> set d" using assms by auto
  with assms(1) have "d ! (i * 2) \<in> digit_char ` {0..<16}" "d ! (i * 2 + 1) \<in> digit_char ` {0..<16}" by auto
  then obtain a b where ab: "a < 16" "b < 16" "d ! (i * 2) = digit_char a" "d ! (i * 2 + 1) = digit_char b"
    by auto
  have "mac_byte d i = of_nat (16 * a + b)"
    using ab by (simp add: mac_byte_def a2x_digit push_bit_eq_mult mult.commute)
  moreover have "unat (of_nat (16 * a + b) :: u8) = 16 * a + b"
    unfolding unat_of_nat using ab by (intro mod_less) simp
  ultimately show ?thesis using ab hex_pair [of a b] by (simp only:)
qed

lemma digit_char_range:
  assumes "48 \<le> c \<and> c \<le> 57 \<or> 97 \<le> c \<and> c \<le> (102 :: u8)"
  shows "c \<in> digit_char ` {0..<16}"
proof -
  define n where "n = unat c"
  have c: "c = of_nat n" by (simp add: n_def)
  have n: "48 \<le> n \<and> n \<le> 57 \<or> 97 \<le> n \<and> n \<le> 102"
    using assms by (simp add: word_le_nat_alt n_def)
  let ?h = "if n \<le> 57 then n - 48 else n - 87"
  have "digit_char ?h = c"
    using n by (auto simp: digit_char_def c of_nat_diff)
  moreover have "?h < 16" using n by auto
  ultimately show ?thesis by (metis atLeastLessThan_iff image_eqI zero_le)
qed

lemma normalize_loop_digits:
  "\<lbrakk>normalize_loop m out = Inr (Some d); set out \<subseteq> digit_char ` {0..<16}\<rbrakk>
     \<Longrightarrow> set d \<subseteq> digit_char ` {0..<16} \<and> length d = 12"
proof (induction m out rule: normalize_loop.induct)
  case (2 c input out)
  have "65 \<le> c \<and> c \<le> 70 \<Longrightarrow> 97 \<le> c + 32 \<and> c + 32 \<le> 102"
    by (simp add: word_le_nat_alt unat_word_ariths)
  then have "(if 65 \<le> c \<and> c \<le> 70 then c + 32 else c) \<in> digit_char ` {0..<16}"
    if "48 \<le> c \<and> c \<le> 57 \<or> 97 \<le> c \<and> c \<le> 102 \<or> 65 \<le> c \<and> c \<le> 70"
    using that digit_char_range [of c] digit_char_range [of "c + 32"] by auto
  with 2 show ?case by (auto split: if_splits)
qed simp

lemma copy_str_to_mac_eq:
  assumes "length d = 12"
  shows "copy_str_to_mac mac (d @ [0]) r =
    Inr (r(mac := mac_byte d 0, mac + 1 := mac_byte d 1, mac + 2 := mac_byte d 2,
           mac + 3 := mac_byte d 3, mac + 4 := mac_byte d 4, mac + 5 := mac_byte d 5))"
  using assms by (simp add: copy_str_to_mac_def mac_byte_def eval_nat_numeral nth_append)

lemma find_interface_in:
  "find_interface tab m = Inr (Some p) \<Longrightarrow> p \<in> snd ` set tab"
  by (induction tab m rule: find_interface.induct) (auto split: if_splits)

lemma interface_cases:
  assumes "get_mac_address_ptr m = Inr (Some (mac, w))"
  shows "mac \<in> {0x88000000, 0x88000006, 0x88001006, 0x88005006, 0x88009006}"
  using find_interface_in [OF assms [unfolded get_mac_address_ptr_def]]
  by (auto simp: mac_interfaces_def)

lemma strncpy_fits:
  "\<lbrakk>0 \<notin> set s; length s < n; length s < length dest\<rbrakk>
     \<Longrightarrow> strncpy dest (s @ 0 # rest) n = Inr (s @ 0 # drop (Suc (length s)) dest)"
proof (induction s arbitrary: dest n)
  case Nil
  then show ?case by (cases dest; cases n) auto
next
  case (Cons c s)
  then show ?case by (cases dest; cases n) auto
qed

definition mac_text :: "u8 list \<Rightarrow> u8 list" where
  "mac_text d = [d ! 0, d ! 1, 58, d ! 2, d ! 3, 58, d ! 4, d ! 5, 58, d ! 6, d ! 7, 58, d ! 8, d ! 9, 58, d ! 10, d ! 11]"

lemma flash_read_mac_text:
  assumes p: "get_mac_address_ptr m = Inr (Some (mac, w))" and len: "length (last_read_mac s) = 32"
    and d: "set d \<subseteq> digit_char ` {0..<16}" "length d = 12"
    and r: "art_ram s mac = mac_byte d 0" "art_ram s (mac + 1) = mac_byte d 1" "art_ram s (mac + 2) = mac_byte d 2"
      "art_ram s (mac + 3) = mac_byte d 3" "art_ram s (mac + 4) = mac_byte d 4" "art_ram s (mac + 5) = mac_byte d 5"
  shows "flash_read_mac m s = Inr (0, s\<lparr>last_read_mac := mac_text d @ 0 # drop 18 (last_read_mac s)\<rparr>)"
proof -
  have u: "unat (ucast b :: u32) = unat (b :: u8)" for b
    using unsigned_less [of b, where 'a = nat] by (simp add: unsigned_ucast_eq take_bit_eq_mod)
  note t = mac_byte_text [OF d, of 0, simplified] mac_byte_text [OF d, of 1, simplified]
    mac_byte_text [OF d, of 2, simplified] mac_byte_text [OF d, of 3, simplified]
    mac_byte_text [OF d, of 4, simplified] mac_byte_text [OF d, of 5, simplified]
  have "vformat 0 (to_mem ''%02x:%02x:%02x:%02x:%02x:%02x'' @ [0])
        (map (\<lambda>i. VA_Int (ucast (art_ram s (mac + i)))) [0, 1, 2, 3, 4, 5]) = Inr (mac_text d, [])"
    by (simp add: vformat_hex_fields r u t mac_text_def)
  moreover have "put_bytes 0 (mac_text d @ [0]) l = mac_text d @ 0 # drop 18 l" for l
    by (simp add: put_bytes_def mac_text_def numeral_eq_Suc)
  moreover have "length (mac_text d) < 32" by (simp add: mac_text_def)
  ultimately show ?thesis
    using snprintf_fits [of "to_mem ''%02x:%02x:%02x:%02x:%02x:%02x'' @ [0]" _ "mac_text d" "[]" 32 "last_read_mac s"] len
    unfolding flash_read_mac_def p by (simp del: to_mem_simps list.map)
qed


lemma update_wifi_checksum_mac:
  assumes "mac \<in> {0x88000000, 0x88000006, 0x88001006, 0x88005006, 0x88009006}" "i \<in> {0, 1, 2, 3, 4, 5}"
  shows "update_wifi_checksum r (mac + i) = r (mac + i)"
proof -
  obtain s0 s1 s2 where "update_wifi_checksum r =
     store_halfword (WIFI2_BASE + 2) s2 (store_halfword (WIFI1_BASE + 2) s1 (store_halfword (WIFI0_BASE + 2) s0 r))"
    using update_wifi_checksum_eq by blast
  then show ?thesis using assms by (auto simp: store_halfword_def)
qed

text \<open>
  What the command line relies on: \<open>sf read\<close> copies the partition to RAM, \<open>sf erase ... && sf write\<close> copies
  RAM to the partition, and both succeed.  \<open>art\<close> gives the bytes of the partition.
\<close>

definition art_at :: "('f \<Rightarrow> u32 \<Rightarrow> u8) \<Rightarrow> 'f \<Rightarrow> u32 \<Rightarrow> u8" where
  "art_at art f a = art f (a - ART_LOAD_ADDR)"

text \<open>The RAM that \<open>flash_write_mac\<close> writes back.\<close>

definition mac_ram :: "u32 \<Rightarrow> bool \<Rightarrow> u8 list \<Rightarrow> (u32 \<Rightarrow> u8) \<Rightarrow> u32 \<Rightarrow> u8" where
  "mac_ram mac w d r =
     (let r = r(mac := mac_byte d 0, mac + 1 := mac_byte d 1, mac + 2 := mac_byte d 2,
                mac + 3 := mac_byte d 3, mac + 4 := mac_byte d 4, mac + 5 := mac_byte d 5)
      in if w then update_wifi_checksum r else r)"

lemma mac_ram_bytes:
  assumes "mac \<in> {0x88000000, 0x88000006, 0x88001006, 0x88005006, 0x88009006}"
  shows "mac_ram mac w d r mac = mac_byte d 0" "mac_ram mac w d r (mac + 1) = mac_byte d 1"
    "mac_ram mac w d r (mac + 2) = mac_byte d 2" "mac_ram mac w d r (mac + 3) = mac_byte d 3"
    "mac_ram mac w d r (mac + 4) = mac_byte d 4" "mac_ram mac w d r (mac + 5) = mac_byte d 5"
  using update_wifi_checksum_mac [OF assms, of 0] update_wifi_checksum_mac [OF assms, of 1]
    update_wifi_checksum_mac [OF assms, of 2] update_wifi_checksum_mac [OF assms, of 3]
    update_wifi_checksum_mac [OF assms, of 4] update_wifi_checksum_mac [OF assms, of 5]
  by (simp_all add: mac_ram_def Let_def)

lemma flash_write_mac_ok:
  assumes rd: "\<And>r f. run sf_read_art (r, f)
        = (0, (\<lambda>a. if a - 0x88000000 < 0x10000 then art f (a - 0x88000000) else r a), f)"
    and p: "get_mac_address_ptr m = Inr (Some (mac, w))"
    and n: "normalize_mac_string str = Inr (Some (d @ [0]))" "length d = 12"
    and wr: "run sf_write_art
        (mac_ram mac w d (\<lambda>a. if a - 0x88000000 < 0x10000 then art (flash s) (a - 0x88000000) else art_ram s a), flash s)
        = (0, r', f')"
  shows "flash_write_mac run m str s = Inr (0, s\<lparr>art_ram := r', flash := f'\<rparr>)"
proof -
  let ?r = "\<lambda>a. if a - 0x88000000 < 0x10000 then art (flash s) (a - 0x88000000) else art_ram s a"
  have 1: "read_flash_art run s = Inr (0, s\<lparr>art_ram := ?r\<rparr>)"
    by (simp add: read_flash_art_def art_cmds run_command_def rd)
  have 2: "write_flash_art run (s\<lparr>art_ram := mac_ram mac w d ?r\<rparr>) = Inr (0, s\<lparr>art_ram := r', flash := f'\<rparr>)"
    using wr by (simp add: write_flash_art_def art_cmds run_command_def)
  show ?thesis
    unfolding flash_write_mac_def p n 1 bind_result_simps option.case prod.case
    using 2 by (simp add: copy_str_to_mac_eq n(2) mac_ram_def Let_def)
qed

lemma wifi_sum_cong:
  assumes "\<And>a. in_region art a \<Longrightarrow> r a = r' a"
  shows "wifi_sum r art = wifi_sum r' art"
  unfolding wifi_sum_def
proof (rule foldl_cong)
  fix c :: u16 and j assume "j \<in> set [0..<6032]"
  then have j: "j < 6032" by simp
  have "in_region art (art + 2 * of_nat j)" "in_region art (art + 2 * of_nat j + 1)"
    using unat_twice [OF j] unat_twice_1 [OF j] j by (simp_all add: in_region_def add.assoc)
  then show "c XOR halfword r (art + 2 * of_nat j) = c XOR halfword r' (art + 2 * of_nat j)"
    using assms by (simp add: halfword_def)
qed simp_all

lemma in_region_art:
  assumes "in_region b a" "b \<in> {WIFI0_BASE, WIFI1_BASE, WIFI2_BASE}"
  shows "a - ART_LOAD_ADDR < 0x10000"
proof -
  define x where "x = a - b"
  have x: "unat x < 12064" using assms(1) by (simp add: in_region_def x_def)
  have "a - ART_LOAD_ADDR = x + (b - ART_LOAD_ADDR)" by (simp add: x_def)
  moreover have "b - ART_LOAD_ADDR \<in> {0x1000, 0x5000, 0x9000}" using assms(2) by auto
  ultimately show ?thesis
    using x by (auto simp: word_less_nat_alt unat_word_ariths)
qed

lemma read_back_buffer:
  assumes "set d \<subseteq> digit_char ` {0..<16}" "length d = 12"
  shows "strncpy (replicate 32 0) (mac_text d @ 0 # rest) 31 = Inr (mac_text d @ 0 # replicate 14 0)"
    and "0 \<notin> set (mac_text d)" and "mac_text d \<noteq> []" and "hd (mac_text d) \<noteq> 0"
proof -
  have nz: "d ! i \<noteq> 0" if "i < 12" for i
  proof -
    have "d ! i \<in> digit_char ` {0..<16}" using assms that nth_mem [of i d] by auto
    then show ?thesis using digit_char_nz by auto
  qed
  show "0 \<notin> set (mac_text d)" "mac_text d \<noteq> []" "hd (mac_text d) \<noteq> 0"
    using nz by (auto simp: mac_text_def)
  then show "strncpy (replicate 32 0) (mac_text d @ 0 # rest) 31 = Inr (mac_text d @ 0 # replicate 14 0)"
    by (subst strncpy_fits) (simp_all add: mac_text_def)
qed

section \<open>Properties\<close>

text \<open>C26: After \<open>update_wifi_checksum\<close> the exclusive or of the 6032 half words of each of the three radios is
  0xffff, which is what makes their calibration data valid, and only the three check sum fields have
  been changed.
\<close>

theorem wifi_checksums_valid:
  "wifi_sum (update_wifi_checksum r) WIFI0_BASE = 0xffff \<and> wifi_sum (update_wifi_checksum r) WIFI1_BASE = 0xffff
   \<and> wifi_sum (update_wifi_checksum r) WIFI2_BASE = 0xffff
   \<and> (\<exists>s0 s1 s2. update_wifi_checksum r =
       store_halfword (WIFI2_BASE + 2) s2 (store_halfword (WIFI1_BASE + 2) s1 (store_halfword (WIFI0_BASE + 2) s0 r)))"
  using update_wifi_checksum_sums update_wifi_checksum_eq by blast

text \<open>C25: An address written to a known interface is read back: on a flash whose \<open>sf read\<close>, \<open>sf erase\<close> and
  \<open>sf write\<close> do what they are documented to do, \<open>flash_write_mac\<close> succeeds for every text that
  \<open>normalize_mac_string\<close> accepts, \<open>flash_read_mac_to_buf\<close> then returns the twelve digits in lower case
  with colons, and for a radio the check sums in the partition are valid.
\<close>

theorem mac_written_is_read_back:
  assumes probe: "\<And>r f. run (to_mem ''sf probe'') (r, f) = (0, r, f)"
    and rd: "\<And>r f. run sf_read_art (r, f)
        = (0, (\<lambda>a. if a - ART_LOAD_ADDR < 0x10000 then art f (a - ART_LOAD_ADDR) else r a), f)"
    and wr: "\<And>r f. \<exists>f'. run sf_write_art (r, f) = (0, r, f')
        \<and> (\<forall>a. a - ART_LOAD_ADDR < 0x10000 \<longrightarrow> art f' (a - ART_LOAD_ADDR) = r a)"
    and p: "get_mac_address_ptr iface = Inr (Some (mac, is_wifi))"
    and n: "normalize_mac_string mac_str = Inr (Some clean_mac)"
    and len: "length (last_read_mac s) = 32"
  shows "\<exists>s' s'' buf. flash_write_mac run iface mac_str s = Inr (CMD_RET_SUCCESS, s')
    \<and> flash_read_mac_to_buf run iface (replicate 32 0) 32 s' = Inr (0, buf, s'')
    \<and> cstr buf = mac_text clean_mac
    \<and> (is_wifi \<longrightarrow> (\<forall>b\<in>{WIFI0_BASE, WIFI1_BASE, WIFI2_BASE}.
          wifi_sum (\<lambda>a. art (flash s') (a - ART_LOAD_ADDR)) b = 0xffff))"
proof -
  obtain d where nd: "normalize_loop mac_str [] = Inr (Some d)" and c: "clean_mac = d @ [0]"
    using n by (auto simp: normalize_mac_string_def)
  have d: "set d \<subseteq> digit_char ` {0..<16}" "length d = 12" using normalize_loop_digits [OF nd] by simp_all
  note mac = interface_cases [OF p]
  define r where "r = mac_ram mac is_wifi d
    (\<lambda>a. if a - 0x88000000 < 0x10000 then art (flash s) (a - 0x88000000) else art_ram s a)"
  obtain f' where f': "run sf_write_art (r, flash s) = (0, r, f')"
    "\<And>a. a - ART_LOAD_ADDR < 0x10000 \<Longrightarrow> art f' (a - ART_LOAD_ADDR) = r a"
    using wr by blast
  define s' where "s' = s\<lparr>art_ram := r, flash := f'\<rparr>"
  have written: "flash_write_mac run iface mac_str s = Inr (0, s')"
    unfolding s'_def by (rule flash_write_mac_ok [of run art, OF rd p n [unfolded c] d(2)]) (use f'(1) in \<open>simp add: r_def\<close>)
  let ?r = "\<lambda>a. if a - ART_LOAD_ADDR < 0x10000 then art f' (a - ART_LOAD_ADDR) else r a"
  have same: "?r = r" using f'(2) by auto
  define t where "t = s'\<lparr>buf_initialized := True\<rparr>"
  have t: "art_ram t = r" "length (last_read_mac t) = 32" by (simp_all add: t_def s'_def len)
  have probed: "sf_probe run (buf_initialized s') s' = (True, s')"
    by (simp add: sf_probe_def run_command_def probe [simplified])
  have art: "read_flash_art run t = Inr (0, t)"
    by (simp add: read_flash_art_def art_cmds run_command_def rd t_def s'_def same [simplified])
  have read: "flash_read_mac iface t = Inr (0, t\<lparr>last_read_mac := mac_text d @ 0 # drop 18 (last_read_mac t)\<rparr>)"
    by (rule flash_read_mac_text [OF p t(2) d]; simp only: t(1); simp only: r_def mac_ram_bytes [OF mac])
  have buf: "flash_read_mac_to_buf run iface (replicate 32 0) 32 s'
      = Inr (0, mac_text d @ 0 # replicate 14 0, t\<lparr>last_read_mac := mac_text d @ 0 # drop 18 (last_read_mac t)\<rparr>)"
  proof -
    have "(mac_text d @ 0 # x) ! 0 \<noteq> 0" for x
      using read_back_buffer(3,4) [OF d] by (cases "mac_text d") simp_all
    moreover have "(mac_text d @ 0 # replicate 14 (0 :: u8))[31 := 0] = mac_text d @ 0 # replicate 14 0"
      by (simp add: mac_text_def) (simp add: eval_nat_numeral)
    ultimately show ?thesis
      unfolding flash_read_mac_to_buf_def probed
      using art read read_back_buffer(1) [OF d] by (simp add: t_def)
  qed
  have sums: "wifi_sum (\<lambda>a. art f' (a - ART_LOAD_ADDR)) b = 0xffff"
    if "is_wifi" "b \<in> {WIFI0_BASE, WIFI1_BASE, WIFI2_BASE}" for b
  proof -
    have "wifi_sum (\<lambda>a. art f' (a - ART_LOAD_ADDR)) b = wifi_sum r b"
      using f'(2) in_region_art [OF _ that(2)] by (intro wifi_sum_cong) blast
    then show ?thesis using that update_wifi_checksum_sums by (auto simp: r_def mac_ram_def Let_def)
  qed
  have "cstr (mac_text d @ 0 # replicate 14 0) = mac_text clean_mac"
    using read_back_buffer(2) [OF d] d(2) by (simp add: c mac_text_def nth_append)
  then show ?thesis using written buf sums by (auto simp: s'_def)
qed

text \<open>A flash that is just the bytes of the partition.\<close>

definition plain_flash :: "(u32 \<Rightarrow> u8) runner" where
  "plain_flash cmd st =
     (if cmd = sf_read_art then
        (0, (\<lambda>a. if a - ART_LOAD_ADDR < 0x10000 then snd st (a - ART_LOAD_ADDR) else fst st a), snd st)
      else if cmd = sf_write_art then
        (0, fst st, \<lambda>i. if i < 0x10000 then fst st (ART_LOAD_ADDR + i) else snd st i)
      else (0, st))"

definition blank_state :: "(u32 \<Rightarrow> u8) mac_state" where
  "blank_state = \<lparr>art_ram = (\<lambda>a. 0), flash = (\<lambda>a. 0xff), last_read_mac = replicate 32 0,
     cmd_initialized = False, buf_initialized = False, web_initialized = False\<rparr>"

theorem mac_written_is_read_back_witness:
  "\<exists>s' s'' buf. flash_write_mac plain_flash (to_mem ''wifi1'' @ [0]) (to_mem ''00-0A:f7-12-34-56'' @ [0]) blank_state
      = Inr (CMD_RET_SUCCESS, s')
    \<and> flash_read_mac_to_buf plain_flash (to_mem ''wifi1'' @ [0]) (replicate 32 0) 32 s' = Inr (0, buf, s'')
    \<and> cstr buf = to_mem ''00:0a:f7:12:34:56''
    \<and> (\<forall>b\<in>{WIFI0_BASE, WIFI1_BASE, WIFI2_BASE}. wifi_sum (\<lambda>a. flash s' (a - ART_LOAD_ADDR)) b = 0xffff)"
proof -
  have p: "get_mac_address_ptr (to_mem ''wifi1'' @ [0]) = Inr (Some (0x88005006, True))"
    by (simp add: get_mac_address_ptr_def mac_interfaces_def)
  have n: "normalize_mac_string (to_mem ''00-0A:f7-12-34-56'' @ [0]) = Inr (Some (to_mem ''000af7123456'' @ [0]))"
    by (simp add: normalize_mac_string_def)
  have distinct: "sf_write_art \<noteq> sf_read_art" "to_mem ''sf probe'' \<noteq> sf_read_art" "to_mem ''sf probe'' \<noteq> sf_write_art"
    by (simp_all add: sf_read_art_def sf_write_art_def)
  have t: "mac_text (to_mem ''000af7123456'' @ [0]) = to_mem ''00:0a:f7:12:34:56''"
    by (simp add: mac_text_def)
  have "\<exists>s' s'' buf. flash_write_mac plain_flash (to_mem ''wifi1'' @ [0]) (to_mem ''00-0A:f7-12-34-56'' @ [0]) blank_state
      = Inr (CMD_RET_SUCCESS, s')
    \<and> flash_read_mac_to_buf plain_flash (to_mem ''wifi1'' @ [0]) (replicate 32 0) 32 s' = Inr (0, buf, s'')
    \<and> cstr buf = mac_text (to_mem ''000af7123456'' @ [0])
    \<and> (True \<longrightarrow> (\<forall>b\<in>{WIFI0_BASE, WIFI1_BASE, WIFI2_BASE}. wifi_sum (\<lambda>a. flash s' (a - ART_LOAD_ADDR)) b = 0xffff))"
    by (rule mac_written_is_read_back [where art = "\<lambda>f. f", OF _ _ _ p n])
      (use distinct in \<open>auto simp: plain_flash_def blank_state_def simp del: to_mem_simps\<close>)
  then show ?thesis unfolding t by simp
qed

text \<open>
  \<open>normalize_mac_string\<close> stops at the twelfth digit: whatever follows is accepted.
\<close>

lemma normalize_ignores_rest:
  "normalize_mac_string (to_mem ''00:0a:f7:12:34:56 and more'' @ [0]) = Inr (Some (to_mem ''000af7123456'' @ [0]))"
  by (simp add: normalize_mac_string_def)

end
