(* ===== verification/Setenv_Web.thy ===== *)
theory Setenv_Web
  imports Macrw
begin

text \<open>
  board/qcom/ipq40xx_cdp/setenv_web.c: the environment over HTTP.  \<open>urldecode\<close> reads a C string and returns
  the bytes it writes before the terminator.  The environment is behind the operations of
  \<open>env_ops\<close> (common/env_common.c, common/cmd_nvedit.c): \<open>env_data\<close> is the memory at \<open>env_get_addr(0)\<close>.
  Console output is not modelled.
\<close>

section \<open>Decoding\<close>

definition hex_nibble :: "u8 \<Rightarrow> u8" where
  "hex_nibble a =
     (let a = (if 97 \<le> a then a - 32 else a) in if 65 \<le> a then a - 55 else a - 48)"

fun urldecode :: "mem \<Rightarrow> u8 list result" where
  "urldecode [] = Inl Out_Of_Bounds"
| "urldecode (c # src) =
     (if c = 0 then Inr []
      else if c = 37 then
        (case src of
           [] \<Rightarrow> Inl Out_Of_Bounds
         | a # src1 \<Rightarrow>
             if a = 0 then bind_result (urldecode src) (\<lambda>d. Inr (c # d))
             else case src1 of
               [] \<Rightarrow> Inl Out_Of_Bounds
             | b # src2 \<Rightarrow>
                 if b \<noteq> 0 \<and> isxdigit a \<and> isxdigit b
                 then bind_result (urldecode src2) (\<lambda>d. Inr ((16 * hex_nibble a + hex_nibble b) # d))
                 else bind_result (urldecode src) (\<lambda>d. Inr (c # d)))
      else if c = 43 then bind_result (urldecode src) (\<lambda>d. Inr (32 # d))
      else bind_result (urldecode src) (\<lambda>d. Inr (c # d)))"

text \<open>Decoding into \<open>char dst[4096] = \{0\}\<close>.\<close>

definition urldecode_buf :: "mem option \<Rightarrow> mem result" where
  "urldecode_buf src =
     (case src of
        None \<Rightarrow> Inr (replicate 4096 0)
      | Some src \<Rightarrow>
          bind_result (urldecode src) (\<lambda>d.
            if length d < 4096 then Inr (put_bytes 0 (d @ [0]) (replicate 4096 0)) else Inl Out_Of_Bounds))"

section \<open>The environment\<close>

record 'e env_ops =
  getenv :: "mem \<Rightarrow> 'e \<Rightarrow> mem option"
  setenv :: "mem \<Rightarrow> mem option \<Rightarrow> 'e \<Rightarrow> int \<times> 'e"
  saveenv :: "'e \<Rightarrow> int \<times> 'e"
  set_default_env :: "'e \<Rightarrow> 'e"
  env_data :: "'e \<Rightarrow> mem"
  env_malloc :: "nat \<Rightarrow> bool"

text \<open>
  \<open>for (env = env_get_addr(0); *env; env = nxt + 1)\<close>: the strings up to the first empty one that contain
  \<open>=\<close>.  \<open>strchr\<close> is given the whole string; the name is the part before the sign.
\<close>

function env_entries :: "mem \<Rightarrow> mem list result" where
  "env_entries env =
     (case env of
        [] \<Rightarrow> Inl Out_Of_Bounds
      | c # _ \<Rightarrow>
          if c = 0 then Inr []
          else bind_result (strlen env) (\<lambda>n.
               bind_result (strchr env 61) (\<lambda>eq.
               bind_result (env_entries (drop (n + 1) env)) (\<lambda>names.
                 Inr (case eq of None \<Rightarrow> names | Some e \<Rightarrow> (take e env @ [0]) # names)))))"
  by pat_completeness auto
termination
  by (relation "measure length") auto

declare env_entries.simps [simp del]

definition env_get_items :: "'e env_ops \<Rightarrow> 'e \<Rightarrow> (mem \<times> mem option) list option result" where
  "env_get_items ops e =
     bind_result (env_entries (env_data ops e)) (\<lambda>names.
       if \<not> env_malloc ops (8 * length names) then Inr None
       else Inr (Some (map (\<lambda>name. (name, getenv ops name e)) names)))"

section \<open>The request\<close>

fun find_var_val :: "mem list \<Rightarrow> mem option \<times> mem option \<Rightarrow> (mem option \<times> mem option) result" where
  "find_var_val [] st = Inr st"
| "find_var_val (a # argv) (var, val) =
     bind_result (strncmp a (to_mem ''var='' @ [0]) 4) (\<lambda>r.
     if r = 0 then find_var_val argv (Some (drop 4 a), val)
     else bind_result (strncmp a (to_mem ''val='' @ [0]) 4) (\<lambda>r.
     if r = 0 then find_var_val argv (var, Some (drop 4 a))
     else find_var_val argv (var, val)))"

text \<open>The loop over the entries; the result says whether it was left early.\<close>

fun list_entries :: "(mem \<times> mem option) list \<Rightarrow> mem \<times> nat \<Rightarrow> ((mem \<times> nat) \<times> bool) result" where
  "list_entries [] resp = Inr (resp, False)"
| "list_entries ((name, value) # es) resp =
     (case value of
        None \<Rightarrow> list_entries es resp
      | Some value \<Rightarrow>
          bind_result (strlen name) (\<lambda>n1.
          bind_result (strlen value) (\<lambda>n2.
          if length (fst resp) \<le> snd resp + (n1 + n2 + 3) then Inr (resp, True)
          else bind_result (respond resp ''%s=%s<br>'' [VA_Str (Some name), VA_Str (Some value)])
                 (list_entries es))))"

text \<open>\<open>resp_buf[len] = '\\0'; return len;\<close>\<close>

definition finish :: "mem \<times> nat \<Rightarrow> 'e \<Rightarrow> ((mem \<times> nat) \<times> 'e) result" where
  "finish resp e =
     (if snd resp < length (fst resp) then Inr (((fst resp)[snd resp := 0], snd resp), e) else Inl Out_Of_Bounds)"

text \<open>\<open>setenv(...) == 0 && saveenv() == 0\<close>\<close>

definition set_and_save :: "'e env_ops \<Rightarrow> mem \<Rightarrow> mem option \<Rightarrow> 'e \<Rightarrow> bool \<times> 'e" where
  "set_and_save ops var val e =
     (let (r, e) = setenv ops var val e
      in if r = 0 then let (r, e) = saveenv ops e in (r = 0, e) else (False, e))"

definition web_setenv_handle ::
  "'e env_ops \<Rightarrow> mem list \<Rightarrow> mem \<Rightarrow> 'e \<Rightarrow> ((mem \<times> nat) \<times> 'e) result" where
  "web_setenv_handle ops argv resp_buf e =
     bind_result (find_var_val argv (None, None)) (\<lambda>(var, val).
     bind_result (urldecode_buf var) (\<lambda>var_dec.
     bind_result (urldecode_buf val) (\<lambda>val_dec.
     bind_result (respond (resp_buf, 0) http_ok []) (\<lambda>resp.
     bind_result (if var_dec ! 0 = 0 then Inr True else str_is var_dec ''all'') (\<lambda>list_all.
     if list_all then
       bind_result (env_get_items ops e) (\<lambda>items.
       bind_result (case items of None \<Rightarrow> Inr (resp, False) | Some es \<Rightarrow> list_entries es resp) (\<lambda>(resp, truncated).
       bind_result (if truncated then respond resp ''[...output truncated...]<br>'' [] else Inr resp) (\<lambda>resp.
         finish resp e)))
     else
       bind_result (str_is var_dec ''default'') (\<lambda>dflt.
       if dflt then
         let (r, e) = saveenv ops (set_default_env ops e)
         in bind_result
              (if r = 0 then respond resp (''Success: Environment restored to default'' @ [CHR 0x0a]) []
               else respond resp (''Error: Failed to restore default environment'' @ [CHR 0x0a]) [])
              (\<lambda>resp. finish resp e)
       else if val = None then
         bind_result
           (case getenv ops var_dec e of
              Some env_val \<Rightarrow> respond resp (''Value: %s=%s'' @ [CHR 0x0a]) [VA_Str (Some var_dec), VA_Str (Some env_val)]
            | None \<Rightarrow> respond resp (''Error: variable not found'' @ [CHR 0x0a]) [])
           (\<lambda>resp. finish resp e)
       else if val_dec ! 0 = 0 then
         let (ok, e) = set_and_save ops var_dec None e
         in bind_result
              (if ok then respond resp (''Success: %s unset'' @ [CHR 0x0a]) [VA_Str (Some var_dec)]
               else respond resp (''Error: unsetenv failed'' @ [CHR 0x0a]) [])
              (\<lambda>resp. finish resp e)
       else
         let (ok, e) = set_and_save ops var_dec (Some val_dec) e
         in bind_result
              (if ok then respond resp (''Success: %s=%s'' @ [CHR 0x0a]) [VA_Str (Some var_dec), VA_Str (Some val_dec)]
               else respond resp (''Error: setenv failed'' @ [CHR 0x0a]) [])
              (\<lambda>resp. finish resp e)))))))"

section \<open>Decoding undoes encoding\<close>

text \<open>
  What a browser sends: some characters as they are, a space as \<open>+\<close> or like the others as \<open>%\<close> and two
  hexadecimal digits of either case.
\<close>

definition nibble_char :: "bool \<Rightarrow> nat \<Rightarrow> u8" where
  "nibble_char up h = (if h < 10 then 48 + of_nat h else if up then 55 + of_nat h else 87 + of_nat h)"

definition url_char :: "(u8 \<Rightarrow> bool) \<Rightarrow> bool \<Rightarrow> bool \<Rightarrow> u8 \<Rightarrow> u8 list" where
  "url_char safe spp up c =
     (if safe c then [c] else if spp \<and> c = 32 then [43]
      else [37, nibble_char up (unat c div 16), nibble_char up (unat c mod 16)])"

lemma nibble_facts:
  assumes "h < 16"
  shows "hex_nibble (nibble_char up h) = of_nat h" "isxdigit (nibble_char up h)" "nibble_char up h \<noteq> 0"
proof -
  have "\<forall>h\<in>set [0..<16]. hex_nibble (nibble_char True h) = of_nat h \<and> isxdigit (nibble_char True h)
      \<and> nibble_char True h \<noteq> 0"
    "\<forall>h\<in>set [0..<16]. hex_nibble (nibble_char False h) = of_nat h \<and> isxdigit (nibble_char False h)
      \<and> nibble_char False h \<noteq> 0"
    by code_simp+
  then show "hex_nibble (nibble_char up h) = of_nat h" "isxdigit (nibble_char up h)" "nibble_char up h \<noteq> 0"
    using assms by (cases up; simp)+
qed

lemma byte_of_nibbles: "16 * of_nat (unat c div 16) + of_nat (unat c mod 16) = (c :: u8)"
proof -
  have "16 * of_nat (unat c div 16) + of_nat (unat c mod 16) = (of_nat (16 * (unat c div 16) + unat c mod 16) :: u8)"
    by (simp only: of_nat_add of_nat_mult of_nat_numeral)
  also have "\<dots> = c" by (simp only: mult_div_mod_eq) simp
  finally show ?thesis .
qed

lemma urldecode_encoded:
  assumes "\<And>c. safe c \<Longrightarrow> c \<noteq> 0 \<and> c \<noteq> 37 \<and> c \<noteq> 43"
  shows "urldecode (concat (map (url_char safe spp up) s) @ 0 # rest) = Inr s"
proof (induction s)
  case (Cons c s)
  have "unat c div 16 < 16" "unat c mod 16 < 16"
    using unsigned_less [of c, where 'a = nat] by (simp_all add: less_mult_imp_div_less)
  then show ?case
    using Cons assms [of c] byte_of_nibbles [of c] by (simp add: url_char_def nibble_facts)
qed simp

text \<open>The decoded text is never longer than the text: a buffer of 4096 bytes takes every shorter argument.\<close>

lemma urldecode_length:
  "urldecode src = Inr d \<Longrightarrow> is_cstr src \<Longrightarrow> length d \<le> length (cstr src)"
proof (induction "length src" arbitrary: src d rule: less_induct)
  case less
  note [simp del] = urldecode.simps
  from less.prems obtain c t where src: "src = c # t" by (cases src) (simp_all add: urldecode.simps)
  note dec = less.prems(1) [unfolded src urldecode.simps(2)]
  have keep: "length d \<le> length (cstr src)"
    if "c \<noteq> 0" "bind_result (urldecode t) (\<lambda>d. Inr (x # d)) = Inr d" for x
    using that less.prems(2) less.hyps [of t] src by auto
  show ?case
  proof (cases "\<exists>a b u. c = 37 \<and> t = a # b # u \<and> a \<noteq> 0 \<and> b \<noteq> 0 \<and> isxdigit a \<and> isxdigit b")
    case True
    then obtain a b u where t: "c = 37" "t = a # b # u" "a \<noteq> 0" "b \<noteq> 0" "isxdigit a" "isxdigit b" by blast
    then obtain d' where "urldecode u = Inr d'" "length d = Suc (length d')" using dec by auto
    then show ?thesis using t less.prems(2) less.hyps [of u d'] src by auto
  next
    case False
    then consider "c = 0" | x where "c \<noteq> 0" "bind_result (urldecode t) (\<lambda>d. Inr (x # d)) = Inr d"
      using dec by (auto split: if_splits list.splits)
    then show ?thesis using keep dec src by cases auto
  qed
qed

text \<open>
  The room kept for an entry is the length of the name and the value plus 3, but \<open>=\<close> and \<open><br>\<close> take 5: an
  entry that fits by at most two bytes takes \<open>len\<close> beyond the buffer, and the terminator is stored there.
\<close>

lemma strnlen_short: "\<lbrakk>is_cstr m; length (cstr m) < n\<rbrakk> \<Longrightarrow> strnlen m n = Inr (length (cstr m))"
proof (induction m arbitrary: n)
  case (Cons c m)
  then show ?case by (cases n) auto
qed simp

lemma vformat_string:
  assumes "is_cstr m" "length (cstr m) < 2 ^ 31"
  shows "vformat k (37 # 115 # r) (VA_Str (Some m) # args) =
     bind_result (vformat (k + length (cstr m)) r args) (\<lambda>(out, st). Inr (cstr m @ out, st))"
proof -
  have "strnlen m (unat (-1 :: s32)) = Inr (length (cstr m))"
    using assms by (intro strnlen_short) (simp_all add: unsigned_minus_1_eq_mask mask_eq_exp_minus_1)
  then have "convert 115 f0 f1 0 (-1) (-1) 0 k (VA_Str (Some m) # args) = Inr (cstr m, args, [])" for f0 f1
    using assms by (simp add: convert_def format_string_def cstr_take Let_def)
  moreover have "parse_spec (115 # r) (VA_Str (Some m) # args) = Inr (0, -1, -1, 0, 115 # r, VA_Str (Some m) # args)"
    by (simp add: parse_spec_def parse_width_def parse_precision_def parse_qualifier_def isdigit_def)
  ultimately show ?thesis by (simp add: vformat.simps(2) [of k 37] after_conversion_def)
qed

lemma listing_overrun:
  "bind_result (list_entries [([97, 0], Some [98, 99, 100, 0])] (replicate 16 0, 8)) (\<lambda>(resp, truncated). finish resp e)
     = Inl Out_Of_Bounds"
  by (simp add: respond_def room_def snprintf_def vsnprintf_def vformat_string finish_def Let_def)

section \<open>Properties\<close>

text \<open>C27: Decoding a form argument is the inverse of encoding it: for any choice of the characters sent as
  they are (not \<open>%\<close>, \<open>+\<close> and the terminator), with spaces sent as \<open>+\<close> or not and hexadecimal digits of
  either case, \<open>urldecode\<close> gives back every text, all 256 byte values included.
\<close>

theorem urldecode_inverts_encoding:
  assumes "\<forall>c. safe c \<longrightarrow> c \<noteq> 0 \<and> c \<noteq> 37 \<and> c \<noteq> 43"
  shows "urldecode (concat (map (url_char safe spp up) s) @ 0 # rest) = Inr s"
  using assms by (intro urldecode_encoded) blast

theorem urldecode_inverts_encoding_witness:
  "urldecode (to_mem ''a+b%3d%25'' @ [0]) = Inr (to_mem ''a b=%'')"
proof -
  have "concat (map (url_char (\<lambda>c. 97 \<le> c \<and> c \<le> 122) True False) (to_mem ''a b=%'')) = to_mem ''a+b%3d%25''"
    by (simp add: url_char_def nibble_char_def)
  moreover have "\<forall>c :: u8. 97 \<le> c \<and> c \<le> 122 \<longrightarrow> c \<noteq> 0 \<and> c \<noteq> 37 \<and> c \<noteq> 43"
    by (auto simp: word_le_nat_alt)
  ultimately show ?thesis
    using urldecode_inverts_encoding [of "\<lambda>c. 97 \<le> c \<and> c \<le> 122" True False "to_mem ''a b=%''" "[]"] by (simp only:)
qed

end
