(* ===== verification/Qsort.thy ===== *)
theory Qsort
  imports C_String "HOL-Library.Multiset"
begin

text \<open>
  The shell sort of lib/qsort.c, on the bytes of the array.  Offsets are in bytes, as in the code;
  the comparison function is a parameter that gets the bytes of the two elements and may itself fail.
  An element that ends behind the array is an access out of bounds.  Two loops could only run forever
  with a gap or a width of 0, which the function excludes; that case is an error of the model.
  \<open>a_sink\<close>, \<open>a_pass\<close> and \<open>a_gaps\<close> are the same sort on a list of elements; the bytes refine it.
\<close>

section \<open>The code\<close>

fun swap_bytes :: "nat \<Rightarrow> nat \<Rightarrow> nat \<Rightarrow> mem \<Rightarrow> mem" where
  "swap_bytes 0 a b m = m"
| "swap_bytes (Suc k) a b m = swap_bytes k (a + 1) (b + 1) (m[a := m ! b, b := m ! a])"

definition elem :: "nat \<Rightarrow> mem \<Rightarrow> nat \<Rightarrow> mem" where
  "elem width m p = take width (drop p m)"

function sink_loop :: "(mem \<Rightarrow> mem \<Rightarrow> int result) \<Rightarrow> nat \<Rightarrow> nat \<Rightarrow> nat \<Rightarrow> mem \<Rightarrow> mem result" where
  "sink_loop cmp width wgap j m =
     (if wgap = 0 then Inl Non_Termination
      else
        let j = j - wgap; a = j; b = a + wgap
        in if length m < b + width then Inl Out_Of_Bounds
           else bind_result (cmp (elem width m a) (elem width m b)) (\<lambda>r.
             if r \<le> 0 then Inr m
             else
               let m = swap_bytes width a b m
               in if wgap \<le> j then sink_loop cmp width wgap j m else Inr m))"
  by pat_completeness auto
termination
  by (relation "measure (\<lambda>(cmp, width, wgap, j, m). j)") auto

function pass_loop :: "(mem \<Rightarrow> mem \<Rightarrow> int result) \<Rightarrow> nat \<Rightarrow> nat \<Rightarrow> nat \<Rightarrow> nat \<Rightarrow> mem \<Rightarrow> mem result" where
  "pass_loop cmp width wgap nel i m =
     (if width = 0 then Inl Non_Termination
      else bind_result (sink_loop cmp width wgap i m) (\<lambda>m.
        let i = i + width
        in if i < nel then pass_loop cmp width wgap nel i m else Inr m))"
  by pat_completeness auto
termination
  by (relation "measure (\<lambda>(cmp, width, wgap, nel, i, m). nel - i)") auto

function gap_loop :: "(mem \<Rightarrow> mem \<Rightarrow> int result) \<Rightarrow> nat \<Rightarrow> nat \<Rightarrow> nat \<Rightarrow> mem \<Rightarrow> mem result" where
  "gap_loop cmp width nel wgap m =
     bind_result (pass_loop cmp width wgap nel wgap m) (\<lambda>m.
       let wgap = (wgap - width) div 3
       in if wgap \<noteq> 0 then gap_loop cmp width nel wgap m else Inr m)"
  by pat_completeness auto
termination
  by (relation "measure (\<lambda>(cmp, width, nel, wgap, m). wgap)") auto

function first_gap :: "nat \<Rightarrow> nat \<Rightarrow> nat" where
  "first_gap nel wgap =
     (let wgap = 3 * wgap + 1
      in if wgap < (nel - 1) div 3 then first_gap nel wgap else wgap)"
  by pat_completeness auto
termination
  by (relation "measure (\<lambda>(nel, wgap). nel - wgap)") auto

declare sink_loop.simps [simp del] pass_loop.simps [simp del] gap_loop.simps [simp del]
  first_gap.simps [simp del]

definition qsort :: "(mem \<Rightarrow> mem \<Rightarrow> int result) \<Rightarrow> mem \<Rightarrow> nat \<Rightarrow> nat \<Rightarrow> mem result" where
  "qsort cmp base nel width =
     (if 1 < nel \<and> 0 < width
      then gap_loop cmp width (nel * width) (first_gap nel 0 * width) base
      else Inr base)"

text \<open>
  \<open>strcmp_compar\<close> sorts an array of pointers to strings: an element is the four bytes of an address,
  and \<open>store\<close> gives the memory at an address.
\<close>

definition le_addr :: "mem \<Rightarrow> nat" where
  "le_addr p = foldr (\<lambda>b n. unat b + 256 * n) p 0"

definition strcmp_compar :: "(nat \<Rightarrow> mem) \<Rightarrow> mem \<Rightarrow> mem \<Rightarrow> int result" where
  "strcmp_compar store p1 p2 = strcmp (store (le_addr p1)) (store (le_addr p2))"

section \<open>The same sort on a list of elements\<close>

function a_sink :: "('e \<Rightarrow> 'e \<Rightarrow> bool) \<Rightarrow> nat \<Rightarrow> nat \<Rightarrow> 'e list \<Rightarrow> 'e list" where
  "a_sink le g j xs =
     (if 0 < g \<and> g \<le> j then
        let a = j - g
        in if le (xs ! a) (xs ! j) then xs
           else a_sink le g a (xs[a := xs ! j, j := xs ! a])
      else xs)"
  by pat_completeness auto
termination
  by (relation "measure (\<lambda>(le, g, j, xs). j)") auto

declare a_sink.simps [simp del]

definition a_pass :: "('e \<Rightarrow> 'e \<Rightarrow> bool) \<Rightarrow> nat \<Rightarrow> nat \<Rightarrow> nat \<Rightarrow> 'e list \<Rightarrow> 'e list" where
  "a_pass le g i n xs = foldl (\<lambda>xs i. a_sink le g i xs) xs [i..<n]"

lemma a_pass_step: "i < n \<Longrightarrow> a_pass le g i n xs = a_pass le g (i + 1) n (a_sink le g i xs)"
  by (simp add: a_pass_def upt_conv_Cons)

lemma a_pass_end: "n \<le> i \<Longrightarrow> a_pass le g i n xs = xs"
  by (simp add: a_pass_def)

lemma mset_a_sink: "j < length xs \<Longrightarrow> mset (a_sink le g j xs) = mset xs"
proof (induction le g j xs rule: a_sink.induct)
  case (1 le g j xs)
  show ?case
  proof (cases "0 < g \<and> g \<le> j \<and> \<not> le (xs ! (j - g)) (xs ! j)")
    case True
    then have "a_sink le g j xs = a_sink le g (j - g) (xs[j - g := xs ! j, j := xs ! (j - g)])"
      by (subst a_sink.simps) (simp add: Let_def)
    then show ?thesis using 1 True mset_swap [of j xs "j - g"] by (simp add: Let_def)
  next
    case False
    then show ?thesis by (subst a_sink.simps) (auto simp: Let_def)
  qed
qed

lemma length_a_sink [simp]: "j < length xs \<Longrightarrow> length (a_sink le g j xs) = length xs"
  by (metis mset_a_sink size_mset)

lemma set_a_sink: "j < length xs \<Longrightarrow> set (a_sink le g j xs) = set xs"
  by (metis mset_a_sink set_mset_mset)

lemma mset_a_pass: "n \<le> length xs \<Longrightarrow> mset (a_pass le g i n xs) = mset xs"
proof (induction "n - i" arbitrary: i xs)
  case (Suc k)
  then show ?case by (simp add: a_pass_step mset_a_sink)
qed (simp add: a_pass_end)

text \<open>With gap 1, sinking inserts an element into the sorted ones before it.\<close>

fun insert_back :: "('e \<Rightarrow> 'e \<Rightarrow> bool) \<Rightarrow> 'e list \<Rightarrow> 'e \<Rightarrow> 'e list" where
  "insert_back le rs x = (case rs of [] \<Rightarrow> [x] | r # rs' \<Rightarrow> if le r x then x # r # rs' else r # insert_back le rs' x)"

declare insert_back.simps [simp del]

lemma insert_back_simps [simp]:
  "insert_back le [] x = [x]"
  "insert_back le (r # rs) x = (if le r x then x # r # rs else r # insert_back le rs x)"
  by (simp_all add: insert_back.simps)

lemma a_sink_insert:
  "a_sink le 1 (length rs) (rev rs @ x # ys) = rev (insert_back le rs x) @ ys"
proof (induction rs arbitrary: ys)
  case Nil
  then show ?case by (subst a_sink.simps) simp
next
  case (Cons r rs)
  have swap: "(rev rs @ [r] @ x # ys)[length rs := x, Suc (length rs) := r] = rev rs @ x # r # ys"
    by (simp add: list_update_append)
  have "a_sink le 1 (length (r # rs)) (rev (r # rs) @ x # ys) =
      (if le r x then rev rs @ [r] @ x # ys else a_sink le 1 (length rs) (rev rs @ x # r # ys))"
    using swap by (subst a_sink.simps) (simp add: nth_append Let_def)
  then show ?case using Cons [of "r # ys"] by simp
qed

lemma sorted_insert_back:
  assumes total: "\<And>x y. x \<in> S \<Longrightarrow> y \<in> S \<Longrightarrow> le x y \<or> le y x"
    and trans: "\<And>x y z. x \<in> S \<Longrightarrow> y \<in> S \<Longrightarrow> z \<in> S \<Longrightarrow> le x y \<Longrightarrow> le y z \<Longrightarrow> le x z"
    and S: "set rs \<subseteq> S" "x \<in> S"
    and sorted: "sorted_wrt (\<lambda>a b. le b a) rs"
  shows "sorted_wrt (\<lambda>a b. le b a) (insert_back le rs x) \<and> set (insert_back le rs x) = insert x (set rs)"
  using S sorted
proof (induction rs)
  case (Cons r rs)
  then have IH: "sorted_wrt (\<lambda>a b. le b a) (insert_back le rs x)"
    "set (insert_back le rs x) = insert x (set rs)" by auto
  show ?case
  proof (cases "le r x")
    case True
    have "le a x" if "a \<in> set rs" for a
      using that True Cons.prems by (intro trans [of a r x]) auto
    with True Cons.prems show ?thesis by auto
  next
    case False
    then have "le x r" using total Cons.prems by auto
    with False IH Cons.prems show ?thesis by auto
  qed
qed simp

lemma a_pass_sorts:
  assumes total: "\<And>x y. x \<in> S \<Longrightarrow> y \<in> S \<Longrightarrow> le x y \<or> le y x"
    and trans: "\<And>x y z. x \<in> S \<Longrightarrow> y \<in> S \<Longrightarrow> z \<in> S \<Longrightarrow> le x y \<Longrightarrow> le y z \<Longrightarrow> le x z"
  shows "\<lbrakk>set xs \<subseteq> S; sorted_wrt le (take i xs); i \<le> length xs\<rbrakk>
     \<Longrightarrow> sorted_wrt le (a_pass le 1 i (length xs) xs)"
proof (induction "length xs - i" arbitrary: i xs)
  case 0
  then show ?case by (simp add: a_pass_end)
next
  case (Suc k)
  then have i: "i < length xs" by simp
  let ?rs = "rev (take i xs)"
  have split: "xs = rev ?rs @ xs ! i # drop (Suc i) xs" "length ?rs = i"
    using i by (simp_all add: id_take_nth_drop)
  have sinked: "a_sink le 1 i xs = rev (insert_back le ?rs (xs ! i)) @ drop (Suc i) xs"
    using a_sink_insert [of le ?rs "xs ! i" "drop (Suc i) xs"] split by simp
  have "sorted_wrt (\<lambda>a b. le b a) (insert_back le ?rs (xs ! i))"
    using sorted_insert_back [of S le ?rs "xs ! i", OF total trans] Suc.prems i
    by (force simp: sorted_wrt_rev dest: in_set_takeD)
  moreover have "length (insert_back le ?rs (xs ! i)) = Suc i"
  proof -
    have "length (a_sink le 1 i xs) = length xs" using i by simp
    then show ?thesis using i unfolding sinked by simp
  qed
  ultimately have "sorted_wrt le (take (Suc i) (a_sink le 1 i xs))"
    unfolding sinked by (simp add: sorted_wrt_rev)
  then have "sorted_wrt le (a_pass le 1 (Suc i) (length xs) (a_sink le 1 i xs))"
    using Suc.hyps(1) [of "a_sink le 1 i xs" "Suc i"] Suc.hyps(2) Suc.prems i by (simp add: set_a_sink)
  then show ?case using i by (simp add: a_pass_step)
qed

section \<open>The bytes refine the elements\<close>

definition elems :: "nat \<Rightarrow> nat \<Rightarrow> mem \<Rightarrow> mem list" where
  "elems w n m = map (\<lambda>i. elem w m (i * w)) [0..<n]"

lemma length_elems [simp]: "length (elems w n m) = n"
  by (simp add: elems_def)

lemma nth_elems [simp]: "i < n \<Longrightarrow> elems w n m ! i = elem w m (i * w)"
  by (simp add: elems_def)

lemma length_swap_bytes [simp]: "length (swap_bytes k a b m) = length m"
  by (induction k a b m rule: swap_bytes.induct) simp_all

lemma nth_swap_bytes:
  "\<lbrakk>a + k \<le> b; b + k \<le> length m; p < length m\<rbrakk> \<Longrightarrow>
     swap_bytes k a b m ! p =
       (if a \<le> p \<and> p < a + k then m ! (b + (p - a))
        else if b \<le> p \<and> p < b + k then m ! (a + (p - b)) else m ! p)"
proof (induction k a b m rule: swap_bytes.induct)
  case (2 k a b m)
  have IH: "swap_bytes k (Suc a) (Suc b) (m[a := m ! b, b := m ! a]) ! p =
       (if Suc a \<le> p \<and> p < Suc a + k then m[a := m ! b, b := m ! a] ! (Suc b + (p - Suc a))
        else if Suc b \<le> p \<and> p < Suc b + k then m[a := m ! b, b := m ! a] ! (Suc a + (p - Suc b))
        else m[a := m ! b, b := m ! a] ! p)"
    using 2 by auto
  consider "p = a" | "p = b" | "a < p \<and> p < a + Suc k" | "b < p \<and> p < b + Suc k"
    | "p \<noteq> a \<and> p \<noteq> b \<and> \<not> (a \<le> p \<and> p < a + Suc k) \<and> \<not> (b \<le> p \<and> p < b + Suc k)"
    by linarith
  then show ?case
    using 2(2-) IH by cases (auto simp: nth_list_update Suc_diff_Suc)
qed auto

lemma elem_eqI:
  "\<lbrakk>length m' = length m; p + w \<le> length m; q + w \<le> length m;
    \<And>k. k < w \<Longrightarrow> m' ! (p + k) = m ! (q + k)\<rbrakk> \<Longrightarrow> elem w m' p = elem w m q"
  unfolding elem_def by (rule nth_equalityI) auto

lemma index_bounds:
  "i < j \<Longrightarrow> i * w + w \<le> j * (w :: nat)"
  by (metis Suc_leI add.commute mult_Suc mult_le_mono1)

lemma elems_swap:
  assumes "a < b" "b < n" "n * w \<le> length m"
  shows "elems w n (swap_bytes w (a * w) (b * w) m)
    = (elems w n m)[a := elems w n m ! b, b := elems w n m ! a]" (is "elems w n ?m = _")
proof (rule nth_equalityI)
  fix i assume "i < length (elems w n ?m)"
  then have i: "i < n" by simp
  have ab: "a * w + w \<le> b * w" "b * w + w \<le> length m"
    using assms index_bounds [of a b w] index_bounds [of b n w] by auto
  have iw: "i * w + w \<le> length m" using i assms index_bounds [of i n w] by auto
  note sw = nth_swap_bytes [OF ab]
  consider "i = a" | "i = b" | "i \<noteq> a" "i \<noteq> b" by blast
  then have "elem w ?m (i * w) = elem w m ((if i = a then b else if i = b then a else i) * w)"
  proof cases
    case 1
    then show ?thesis using ab iw by (intro elem_eqI) (auto simp: sw)
  next
    case 2
    then show ?thesis using ab iw assms by (intro elem_eqI) (auto simp: sw)
  next
    case 3
    have d: "\<not> (a * w \<le> i * w + k \<and> i * w + k < a * w + w)"
        "\<not> (b * w \<le> i * w + k \<and> i * w + k < b * w + w)" if "k < w" for k
      using 3 index_bounds [of i a w] index_bounds [of a i w] index_bounds [of i b w]
        index_bounds [of b i w] that by (auto simp: neq_iff)
    have "?m ! (i * w + k) = m ! (i * w + k)" if "k < w" for k
      using sw [of "i * w + k"] d [OF that] that iw by (simp only: if_False)
    then show ?thesis using 3 iw by (intro elem_eqI) auto
  qed
  then show "elems w n ?m ! i = (elems w n m)[a := elems w n m ! b, b := elems w n m ! a] ! i"
    using i assms by (auto simp: nth_list_update)
qed simp

lemma drop_swap_bytes:
  assumes "a + w \<le> b" "b + w \<le> q" "q \<le> length m"
  shows "drop q (swap_bytes w a b m) = drop q m"
  by (rule nth_equalityI) (use assms in \<open>auto simp: nth_swap_bytes\<close>)


section \<open>Comparison functions\<close>

text \<open>
  What \<open>qsort\<close> relies on: the comparison returns for all valid elements and its sign is a total
  preorder.  \<open>ok\<close> says which elements are valid, for instance pointers to strings.
\<close>

definition below :: "(mem \<Rightarrow> mem \<Rightarrow> int result) \<Rightarrow> mem \<Rightarrow> mem \<Rightarrow> bool" where
  "below cmp x y = (case cmp x y of Inr r \<Rightarrow> r \<le> 0 | Inl _ \<Rightarrow> False)"

definition kept_behind :: "nat \<Rightarrow> mem \<Rightarrow> mem \<Rightarrow> bool" where
  "kept_behind q m m' \<longleftrightarrow> length m' = length m \<and> drop q m' = drop q m"

lemma kept_behind_refl [simp]: "kept_behind q m m"
  by (simp add: kept_behind_def)

lemma kept_behind_trans: "kept_behind q m m' \<Longrightarrow> kept_behind q m' m'' \<Longrightarrow> kept_behind q m m''"
  by (simp add: kept_behind_def)

lemma kept_behind_length: "kept_behind q m m' \<Longrightarrow> length m' = length m"
  by (simp add: kept_behind_def)

inductive is_gap :: "nat \<Rightarrow> bool" where
  one: "is_gap 1"
| more: "is_gap g \<Longrightarrow> is_gap (3 * g + 1)"

lemma is_gap_pos: "is_gap g \<Longrightarrow> 0 < g"
  by (induction rule: is_gap.induct) simp_all

lemma first_gap_is_gap: "g = 0 \<or> is_gap g \<Longrightarrow> is_gap (first_gap n g)"
proof (induction n g rule: first_gap.induct)
  case (1 n g)
  then have "is_gap (3 * g + 1)" using is_gap.intros by auto
  with 1 show ?case by (subst first_gap.simps) (simp add: Let_def)
qed

lemma first_gap_less: "\<lbrakk>1 < n; g = 0 \<or> g < (n - 1) div 3\<rbrakk> \<Longrightarrow> first_gap n g < n"
proof (induction n g rule: first_gap.induct)
  case (1 n g)
  then have "3 * g + 1 < n" by auto
  with 1 show ?case by (subst first_gap.simps) (simp add: Let_def)
qed

locale comparator =
  fixes cmp :: "mem \<Rightarrow> mem \<Rightarrow> int result" and ok :: "mem \<Rightarrow> bool"
  assumes returns: "ok x \<Longrightarrow> ok y \<Longrightarrow> \<exists>r. cmp x y = Inr r"
    and total: "ok x \<Longrightarrow> ok y \<Longrightarrow> below cmp x y \<or> below cmp y x"
    and trans: "ok x \<Longrightarrow> ok y \<Longrightarrow> ok z \<Longrightarrow> below cmp x y \<Longrightarrow> below cmp y z \<Longrightarrow> below cmp x z"
begin

lemma sink_refines:
  assumes "0 < w" "0 < g"
  shows "\<lbrakk>g \<le> j; j < n; n * w \<le> length m; \<forall>x\<in>set (elems w n m). ok x\<rbrakk> \<Longrightarrow>
    \<exists>m'. sink_loop cmp w (g * w) (j * w) m = Inr m' \<and> kept_behind (n * w) m m'
       \<and> elems w n m' = a_sink (below cmp) g j (elems w n m)"
proof (induction j arbitrary: m rule: less_induct)
  case (less j)
  let ?a = "j - g"
  have idx: "j * w - g * w = ?a * w" "?a * w + g * w = j * w" "?a < j" "?a < n"
    using less.prems assms by (simp_all add: diff_mult_distrib mult_le_mono1)
  have bnd: "j * w + w \<le> length m" "?a * w + w \<le> j * w"
    using index_bounds [of j n w] index_bounds [of ?a j w] idx less.prems by auto
  have oks: "ok (elem w m (?a * w))" "ok (elem w m (j * w))"
    using less.prems idx by (auto simp: elems_def)
  then obtain r where r: "cmp (elem w m (?a * w)) (elem w m (j * w)) = Inr r"
    using returns by blast
  have unfold: "sink_loop cmp w (g * w) (j * w) m =
      (if r \<le> 0 then Inr m
       else let m = swap_bytes w (?a * w) (j * w) m
            in if g * w \<le> ?a * w then sink_loop cmp w (g * w) (?a * w) m else Inr m)"
    using assms bnd by (subst sink_loop.simps) (simp add: Let_def idx r)
  have b: "below cmp (elems w n m ! ?a) (elems w n m ! j) \<longleftrightarrow> r \<le> 0"
    using idx less.prems by (simp add: below_def r)
  show ?case
  proof (cases "r \<le> 0")
    case True
    then show ?thesis using unfold b by (subst a_sink.simps) auto
  next
    case False
    let ?m = "swap_bytes w (?a * w) (j * w) m"
    have el: "elems w n ?m = (elems w n m)[?a := elems w n m ! j, j := elems w n m ! ?a]"
      using idx less.prems by (intro elems_swap) auto
    have kept: "kept_behind (n * w) m ?m"
      using bnd less.prems index_bounds [of j n w] by (auto simp: kept_behind_def intro: drop_swap_bytes)
    have set: "set (elems w n ?m) = set (elems w n m)"
      unfolding el using idx(4) less.prems(2) by (intro set_swap) simp_all
    have sink: "a_sink (below cmp) g j (elems w n m) = a_sink (below cmp) g ?a (elems w n ?m)"
      using False b assms less.prems by (subst a_sink.simps) (simp add: Let_def el)
    show ?thesis
    proof (cases "g \<le> ?a")
      case True
      then obtain m' where "sink_loop cmp w (g * w) (?a * w) ?m = Inr m'" "kept_behind (n * w) ?m m'"
          "elems w n m' = a_sink (below cmp) g ?a (elems w n ?m)"
        using less.IH [of ?a ?m] less.prems idx set by auto
      then show ?thesis using True False unfold sink kept kept_behind_trans by (auto simp: Let_def)
    next
      case g: False
      then have "a_sink (below cmp) g ?a (elems w n ?m) = elems w n ?m"
        by (subst a_sink.simps) simp
      then show ?thesis using g False unfold sink kept assms by (auto simp: Let_def)
    qed
  qed
qed

lemma pass_refines:
  assumes "0 < w" "0 < g"
  shows "\<lbrakk>g \<le> i; i < n; n * w \<le> length m; \<forall>x\<in>set (elems w n m). ok x\<rbrakk> \<Longrightarrow>
    \<exists>m'. pass_loop cmp w (g * w) (n * w) (i * w) m = Inr m' \<and> kept_behind (n * w) m m'
       \<and> elems w n m' = a_pass (below cmp) g i n (elems w n m)"
proof (induction "n - i" arbitrary: i m)
  case (Suc k)
  then obtain m' where m': "sink_loop cmp w (g * w) (i * w) m = Inr m'" "kept_behind (n * w) m m'"
      "elems w n m' = a_sink (below cmp) g i (elems w n m)"
    using sink_refines [OF assms, of i n m] by auto
  have step: "pass_loop cmp w (g * w) (n * w) (i * w) m =
      (if Suc i < n then pass_loop cmp w (g * w) (n * w) (Suc i * w) m' else Inr m')"
    using assms by (subst pass_loop.simps) (simp add: m' Let_def add.commute flip: mult_Suc)
  have set: "set (elems w n m') = set (elems w n m)"
    using m' Suc.prems by (simp add: set_a_sink)
  show ?case
  proof (cases "Suc i < n")
    case True
    then have "k = n - Suc i" using Suc.hyps(2) by simp
    then obtain m'' where "pass_loop cmp w (g * w) (n * w) (Suc i * w) m' = Inr m''"
        "kept_behind (n * w) m' m''" "elems w n m'' = a_pass (below cmp) g (Suc i) n (elems w n m')"
      using Suc.hyps(1) [of "Suc i" m'] True Suc.prems set kept_behind_length [OF m'(2)] by auto
    then show ?thesis using True step m' Suc.prems kept_behind_trans by (auto simp: a_pass_step)
  next
    case False
    then show ?thesis using step m' Suc.prems by (auto simp: a_pass_step a_pass_end)
  qed
qed simp


text \<open>The gaps are 1, 4, 13, ...: the division in \<open>gap_loop\<close> is exact and the last gap is 1.\<close>

lemma gap_loop_sorts:
  assumes "0 < w"
  shows "\<lbrakk>is_gap g; g < n; n * w \<le> length m; \<forall>x\<in>set (elems w n m). ok x\<rbrakk> \<Longrightarrow>
    \<exists>m'. gap_loop cmp w (n * w) (g * w) m = Inr m' \<and> kept_behind (n * w) m m'
       \<and> mset (elems w n m') = mset (elems w n m) \<and> sorted_wrt (below cmp) (elems w n m')"
proof (induction arbitrary: m rule: is_gap.induct)
  case one
  then obtain m' where m': "pass_loop cmp w (1 * w) (n * w) (1 * w) m = Inr m'" "kept_behind (n * w) m m'"
      "elems w n m' = a_pass (below cmp) 1 1 n (elems w n m)"
    using pass_refines [OF assms, of 1 1 n m] by auto
  have "sorted_wrt (below cmp) (a_pass (below cmp) 1 1 (length (elems w n m)) (elems w n m))"
  proof (rule a_pass_sorts [where S = "{x. ok x}"])
    show "sorted_wrt (below cmp) (take 1 (elems w n m))"
      by (cases "elems w n m") simp_all
    show "below cmp x z" if "x \<in> {x. ok x}" "y \<in> {x. ok x}" "z \<in> {x. ok x}" "below cmp x y" "below cmp y z"
      for x y z using that trans [of x y z] by blast
  qed (use total one in auto)
  moreover have "gap_loop cmp w (n * w) (1 * w) m = Inr m'"
    using m' by (subst gap_loop.simps) simp
  ultimately show ?case using m' by (auto simp: mset_a_pass)
next
  case (more g)
  then obtain m' where m': "pass_loop cmp w ((3 * g + 1) * w) (n * w) ((3 * g + 1) * w) m = Inr m'"
      "kept_behind (n * w) m m'" "elems w n m' = a_pass (below cmp) (3 * g + 1) (3 * g + 1) n (elems w n m)"
    using pass_refines [OF assms, of "3 * g + 1" "3 * g + 1" n m] by auto
  have perm: "mset (elems w n m') = mset (elems w n m)" using m' by (simp add: mset_a_pass)
  have next_gap: "((3 * g + 1) * w - w) div 3 = g * w" "g * w \<noteq> 0"
    using is_gap_pos [OF more(1)] assms by simp_all
  have "\<exists>m''. gap_loop cmp w (n * w) (g * w) m' = Inr m'' \<and> kept_behind (n * w) m' m''
       \<and> mset (elems w n m'') = mset (elems w n m') \<and> sorted_wrt (below cmp) (elems w n m'')"
    using more.prems kept_behind_length [OF m'(2)] perm
    by (intro more.IH) (auto dest: mset_eq_setD)
  moreover have "gap_loop cmp w (n * w) ((3 * g + 1) * w) m = gap_loop cmp w (n * w) (g * w) m'"
    by (subst gap_loop.simps) (simp only: m' next_gap bind_result_simps Let_def not_False_eq_True if_True)
  ultimately show ?case using m'(2) perm kept_behind_trans by auto
qed

lemma qsort_sorts_ok:
  assumes "n * w \<le> length m" "\<forall>x\<in>set (elems w n m). ok x"
  shows "\<exists>m'. qsort cmp m n w = Inr m' \<and> kept_behind (n * w) m m'
       \<and> mset (elems w n m') = mset (elems w n m)
       \<and> sorted_wrt (below cmp) (elems w n m')"
proof (cases "1 < n \<and> 0 < w")
  case True
  then show ?thesis
    using gap_loop_sorts [of w "first_gap n 0" n m] first_gap_is_gap [of 0 n] first_gap_less [of n 0] assms
    by (auto simp: qsort_def)
next
  case False
  then consider "n \<le> 1" | "w = 0" by linarith
  then show ?thesis
  proof cases
    case 1
    then have "elems w n m = [] \<or> (\<exists>x. elems w n m = [x])"
      by (cases n) (simp_all add: elems_def)
    then show ?thesis using False by (auto simp: qsort_def)
  next
    case 2
    have "below cmp [] []" if "0 < n"
      using total [of "[]" "[]"] assms(2) that 2 by (auto simp: elems_def elem_def)
    then have "sorted_wrt (below cmp) (elems w n m)"
      using 2 by (simp add: elems_def elem_def sorted_wrt_map sorted_wrt_iff_nth_less)
    then show ?thesis using False 2 by (auto simp: qsort_def)
  qed
qed

end

section \<open>Strings\<close>

text \<open>
  \<open>strcmp_compar\<close> is such a comparison on pointers to strings of 7-bit characters (on arbitrary
  bytes it is not transitive, see \<open>strcmp_circle\<close>).
\<close>

definition ascii_ptr :: "(nat \<Rightarrow> mem) \<Rightarrow> mem \<Rightarrow> bool" where
  "ascii_ptr store p \<longleftrightarrow> is_cstr (store (le_addr p)) \<and> (\<forall>c\<in>set (cstr (store (le_addr p))). c < 128)"

lemma cstr_less_Nil [simp]: "\<not> cstr_less a []"
  by (cases a) simp_all

lemma cstr_less_asym: "cstr_less a b \<Longrightarrow> \<not> cstr_less b a"
  by (induction a b rule: cstr_less.induct) auto

lemma cstr_less_comparative: "cstr_less a c \<Longrightarrow> cstr_less a b \<or> cstr_less b c"
proof (induction a c arbitrary: b rule: cstr_less.induct)
  case (3 x xs y ys)
  then show ?case by (cases b) (auto simp: not_less_iff_gr_or_eq)
qed (case_tac b; auto)+

lemma strcmp_compar_below:
  assumes "ascii_ptr store p" "ascii_ptr store q"
  shows "below (strcmp_compar store) p q
    \<longleftrightarrow> \<not> cstr_less (cstr (store (le_addr q))) (cstr (store (le_addr p)))"
  using strcmp_sign_ascii [of "store (le_addr p)" "store (le_addr q)"] assms
  by (auto simp: below_def strcmp_compar_def ascii_ptr_def)

interpretation strings: comparator "strcmp_compar store" "ascii_ptr store" for store
proof
  fix x y z assume x: "ascii_ptr store x" and y: "ascii_ptr store y"
  then show "\<exists>r. strcmp_compar store x y = Inr r"
    by (simp add: strcmp_compar_def ascii_ptr_def strcmp_total)
  from x y show "below (strcmp_compar store) x y \<or> below (strcmp_compar store) y x"
    by (auto simp: strcmp_compar_below dest: cstr_less_asym)
  assume "ascii_ptr store z" "below (strcmp_compar store) x y" "below (strcmp_compar store) y z"
  with x y show "below (strcmp_compar store) x z"
    by (auto simp: strcmp_compar_below dest: cstr_less_comparative)
qed

section \<open>Properties\<close>

text \<open>Sorting an array of pointers to strings of 7-bit characters always returns; the pointers are
  permuted so that the strings they point to are in ascending order, and the memory behind the array
  is left alone.
\<close>

lemma qsort_sorts_strings:
  assumes "nel * 4 \<le> length base" "\<forall>p\<in>set (elems 4 nel base). ascii_ptr store p"
  shows "\<exists>base'. qsort (strcmp_compar store) base nel 4 = Inr base'
    \<and> length base' = length base \<and> drop (nel * 4) base' = drop (nel * 4) base
    \<and> mset (elems 4 nel base') = mset (elems 4 nel base)
    \<and> sorted_wrt (\<lambda>p q. \<not> cstr_less (cstr (store (le_addr q))) (cstr (store (le_addr p))))
        (elems 4 nel base')"
proof -
  obtain b where b: "qsort (strcmp_compar store) base nel 4 = Inr b" "kept_behind (nel * 4) base b"
      "mset (elems 4 nel b) = mset (elems 4 nel base)" "sorted_wrt (below (strcmp_compar store)) (elems 4 nel b)"
    using strings.qsort_sorts_ok [OF assms] by blast
  have "set (elems 4 nel b) = set (elems 4 nel base)" using b(3) by (rule mset_eq_setD)
  then have "\<forall>p\<in>set (elems 4 nel b). ascii_ptr store p" using assms(2) by simp
  then have "sorted_wrt (\<lambda>p q. \<not> cstr_less (cstr (store (le_addr q))) (cstr (store (le_addr p)))) (elems 4 nel b)"
    using b(4) by (auto simp: strcmp_compar_below elim!: sorted_wrt_mono_rel [rotated])
  then show ?thesis using b by (auto simp: kept_behind_def)
qed

lemma qsort_sorts_strings_witness:
  "\<exists>base'. qsort (strcmp_compar (\<lambda>a. if a = 4 then [98, 0] else [97, 0])) [4, 0, 0, 0, 8, 0, 0, 0, 255] 2 4 = Inr base'
    \<and> length base' = length [4 :: u8, 0, 0, 0, 8, 0, 0, 0, 255]
    \<and> drop (2 * 4) base' = drop (2 * 4) [4, 0, 0, 0, 8, 0, 0, 0, 255]
    \<and> mset (elems 4 2 base') = mset (elems 4 2 [4, 0, 0, 0, 8, 0, 0, 0, 255])
    \<and> sorted_wrt (\<lambda>p q. \<not> cstr_less (cstr (if le_addr q = 4 then [98, 0] else [97, 0]))
        (cstr (if le_addr p = 4 then [98, 0] else [97, 0]))) (elems 4 2 base')"
  by (rule qsort_sorts_strings [where store = "\<lambda>a. if a = 4 then [98, 0] else [97, 0]"])
    (simp_all add: elems_def elem_def ascii_ptr_def upt_rec)

text \<open>C24: For any comparison that returns on the elements and whose sign is a total preorder on them, the
  array is sorted: the sort returns, permutes the elements, leaves them in ascending order and does
  not touch the memory behind them, for every number and width of the elements.
\<close>

theorem qsort_sorts:
  assumes "\<And>x y. ok x \<Longrightarrow> ok y \<Longrightarrow> \<exists>r. cmp x y = Inr r"
    and "\<And>x y. ok x \<Longrightarrow> ok y \<Longrightarrow> below cmp x y \<or> below cmp y x"
    and "\<And>x y z. ok x \<Longrightarrow> ok y \<Longrightarrow> ok z \<Longrightarrow> below cmp x y \<Longrightarrow> below cmp y z \<Longrightarrow> below cmp x z"
    and "nel * width \<le> length base" "\<forall>x\<in>set (elems width nel base). ok x"
  shows "\<exists>base'. qsort cmp base nel width = Inr base'
    \<and> length base' = length base \<and> drop (nel * width) base' = drop (nel * width) base
    \<and> mset (elems width nel base') = mset (elems width nel base)
    \<and> sorted_wrt (below cmp) (elems width nel base')"
  using comparator.qsort_sorts_ok [of cmp ok, OF comparator.intro [OF assms(1-3)] assms(4,5)]
  by (auto simp: kept_behind_def)

theorem qsort_sorts_witness:
  "\<exists>base'. qsort (strcmp_compar (\<lambda>a. if a = 7 then [98, 0] else [97, 0])) [7, 5, 6] 3 1 = Inr base'
    \<and> length base' = length [7 :: u8, 5, 6] \<and> drop (3 * 1) base' = drop (3 * 1) [7, 5, 6]
    \<and> mset (elems 1 3 base') = mset (elems 1 3 [7, 5, 6])
    \<and> sorted_wrt (below (strcmp_compar (\<lambda>a. if a = 7 then [98, 0] else [97, 0]))) (elems 1 3 base')"
  by (rule qsort_sorts [where ok = "ascii_ptr (\<lambda>a. if a = 7 then [98, 0] else [97, 0])",
        OF strings.returns strings.total strings.trans])
    (simp_all add: elems_def elem_def ascii_ptr_def upt_rec)

end
