(* ===== verification/Env_Hash.thy ===== *)
theory Env_Hash
  imports Qsort
begin

text \<open>
  lib/hashtable.c: the hash table behind the environment, with open addressing and double hashing.
  A slot has the field \<open>used\<close> (0 never used, -1 deleted, otherwise the hash value of its key) and the
  pointers to its key and data; a freed pointer is \<open>None\<close>.  The allocator is a parameter that says
  which requests it can satisfy.  A result pointer into the table is the index of its slot.
\<close>

section \<open>State\<close>

record hslot =
  used :: int
  hkey :: "mem option"
  hdata :: "mem option"

record hsearch_data =
  htable :: "hslot list option"
  hsize :: nat
  filled :: u32

datatype action = FIND | ENTER

definition empty_slot :: hslot where
  "empty_slot = \<lparr>used = 0, hkey = None, hdata = None\<rparr>"

section \<open>Creating and destroying a table\<close>

function isprime_loop :: "nat \<Rightarrow> nat \<Rightarrow> nat" where
  "isprime_loop number dv =
     (if dv * dv < number \<and> number mod dv \<noteq> 0 then isprime_loop number (dv + 2) else dv)"
  by pat_completeness auto
termination
proof (relation "measure (\<lambda>(number, dv). number - dv)")
  fix number dv :: nat
  assume "dv * dv < number \<and> number mod dv \<noteq> 0"
  moreover have "dv \<le> dv * dv" by (cases dv) simp_all
  ultimately have "dv < number" by linarith
  then show "((number, dv + 2), number, dv) \<in> measure (\<lambda>(number, dv). number - dv)" by auto
qed simp

declare isprime_loop.simps [simp del]

definition isprime :: "nat \<Rightarrow> bool" where
  "isprime number \<longleftrightarrow> number mod isprime_loop number 3 \<noteq> 0"

text \<open>
  \<open>while (!isprime(nel)) nel += 2\<close>, with a bound on the number of steps: there is always a prime below
  twice the number, and \<open>hcreate_ok\<close> shows that the bound is enough for the sizes in use.
\<close>

fun next_prime :: "nat \<Rightarrow> nat \<Rightarrow> nat result" where
  "next_prime 0 nel = Inl Non_Termination"
| "next_prime (Suc fuel) nel = (if isprime nel then Inr nel else next_prime fuel (nel + 2))"

definition hcreate_r :: "(nat \<Rightarrow> bool) \<Rightarrow> nat \<Rightarrow> hsearch_data \<Rightarrow> (int \<times> hsearch_data) result" where
  "hcreate_r alloc nel htab =
     (if htable htab \<noteq> None then Inr (0, htab)
      else
        bind_result (next_prime (nel + 512) (nel OR 1)) (\<lambda>nel.
          if alloc (12 * (nel + 1))
          then Inr (1, htab\<lparr>hsize := nel, filled := 0, htable := Some (replicate (nel + 1) empty_slot)\<rparr>)
          else Inr (0, htab\<lparr>hsize := nel, filled := 0, htable := None\<rparr>)))"

definition hdestroy_r :: "hsearch_data \<Rightarrow> hsearch_data result" where
  "hdestroy_r htab =
     (case htable htab of
        None \<Rightarrow> Inl Null_Deref
      | Some t \<Rightarrow> if length t \<le> hsize htab then Inl Out_Of_Bounds else Inr (htab\<lparr>htable := None\<rparr>))"

section \<open>Searching\<close>

text \<open>The hash value of a key: from its last character to its first.\<close>

definition hash_string :: "u8 list \<Rightarrow> u32" where
  "hash_string s = foldr (\<lambda>c hval. push_bit 4 hval + ucast c) s (of_nat (length s))"

definition hash1 :: "nat \<Rightarrow> u8 list \<Rightarrow> nat" where
  "hash1 sz s = (let hval = unat (hash_string s) mod sz in if hval = 0 then hval + 1 else hval)"

definition hash2 :: "nat \<Rightarrow> nat \<Rightarrow> nat" where
  "hash2 sz hval = 1 + hval mod (sz - 2)"

definition next_idx :: "nat \<Rightarrow> nat \<Rightarrow> nat \<Rightarrow> nat" where
  "next_idx sz hval2 idx = (if idx \<le> hval2 then sz + idx - hval2 else idx - hval2)"

definition slot_matches :: "nat \<Rightarrow> mem \<Rightarrow> hslot \<Rightarrow> bool result" where
  "slot_matches hval key s =
     (if used s = int hval then
        (case hkey s of
           None \<Rightarrow> Inl Null_Deref
         | Some k \<Rightarrow> bind_result (strcmp key k) (\<lambda>r. Inr (r = 0)))
      else Inr False)"

datatype probe = Found nat | Stopped nat

text \<open>
  The \<open>do ... while\<close> loop; it ends at the latest when it is back at the first index, which
  \<open>probe_loop_ends\<close> shows to happen within \<open>size\<close> steps.
\<close>

fun probe_loop :: "nat \<Rightarrow> hslot list \<Rightarrow> nat \<Rightarrow> nat \<Rightarrow> nat \<Rightarrow> mem \<Rightarrow> nat \<Rightarrow> probe result" where
  "probe_loop 0 t sz hval hval2 key idx = Inl Non_Termination"
| "probe_loop (Suc n) t sz hval hval2 key idx =
     (let idx = next_idx sz hval2 idx
      in if idx = hval then Inr (Stopped idx)
         else if length t \<le> idx then Inl Out_Of_Bounds
         else
           bind_result (slot_matches hval key (t ! idx)) (\<lambda>m.
             if m then Inr (Found idx)
             else if used (t ! idx) \<noteq> 0 then probe_loop n t sz hval hval2 key idx
             else Inr (Stopped idx)))"

text \<open>Where the search for a key ends, and the slot to reuse (\<open>first_deleted\<close>, 0 for none).\<close>

definition hsearch_probe :: "hslot list \<Rightarrow> nat \<Rightarrow> nat \<Rightarrow> mem \<Rightarrow> (probe \<times> nat) result" where
  "hsearch_probe t sz hval key =
     (if length t \<le> hval then Inl Out_Of_Bounds
      else if used (t ! hval) = 0 then Inr (Stopped hval, 0)
      else
        let first_deleted = (if used (t ! hval) = -1 then hval else 0)
        in bind_result (slot_matches hval key (t ! hval)) (\<lambda>m.
             if m then Inr (Found hval, first_deleted)
             else bind_result (probe_loop sz t sz hval (hash2 sz hval) key hval) (\<lambda>p. Inr (p, first_deleted))))"

text \<open>The result: the return value, the entry and the table.\<close>

type_synonym hresult = "(nat \<times> nat option \<times> hsearch_data) result"

definition hsearch_r :: "(nat \<Rightarrow> bool) \<Rightarrow> mem \<Rightarrow> mem option \<Rightarrow> action \<Rightarrow> hsearch_data \<Rightarrow> hresult" where
  "hsearch_r alloc key data act htab =
     (case htable htab of
        None \<Rightarrow> Inl Null_Deref
      | Some t \<Rightarrow>
          bind_result (strlen key) (\<lambda>len.
          let hval = hash1 (hsize htab) (take len key)
          in bind_result (hsearch_probe t (hsize htab) hval key) (\<lambda>(p, first_deleted).
             case p of
               Found idx \<Rightarrow>
                 if act = ENTER \<and> data \<noteq> None then
                   bind_result (strdup alloc data) (\<lambda>d.
                     let htab = htab\<lparr>htable := Some (t[idx := (t ! idx)\<lparr>hdata := d\<rparr>])\<rparr>
                     in Inr (if d = None then (0, None, htab) else (idx, Some idx, htab)))
                 else Inr (idx, Some idx, htab)
             | Stopped idx \<Rightarrow>
                 if act = ENTER then
                   if filled htab = of_nat (hsize htab) then Inr (0, None, htab)
                   else
                     let idx = (if first_deleted \<noteq> 0 then first_deleted else idx)
                     in bind_result (strdup alloc (Some key)) (\<lambda>k.
                        bind_result (strdup alloc data) (\<lambda>d.
                          let htab = htab\<lparr>htable := Some (t[idx := \<lparr>used = int hval, hkey = k, hdata = d\<rparr>])\<rparr>
                          in Inr (if k = None \<or> d = None then (0, None, htab)
                                  else (1, Some idx, htab\<lparr>filled := filled htab + 1\<rparr>))))
                 else Inr (0, None, htab))))"

definition hdelete_r :: "mem \<Rightarrow> hsearch_data \<Rightarrow> (int \<times> hsearch_data) result" where
  "hdelete_r key htab =
     bind_result (hsearch_r (\<lambda>_. True) key None FIND htab) (\<lambda>(idx, ep, htab).
       if idx = 0 then Inr (0, htab)
       else case htable htab of
         None \<Rightarrow> Inl Null_Deref
       | Some t \<Rightarrow>
           Inr (1, htab\<lparr>htable := Some (t[idx := \<lparr>used = -1, hkey = None, hdata = None\<rparr>]), filled := filled htab - 1\<rparr>))"

text \<open>The linear searches; the loops stop before the last slot.\<close>

definition deref :: "mem option \<Rightarrow> mem result" where
  "deref p = (case p of None \<Rightarrow> Inl Null_Deref | Some m \<Rightarrow> Inr m)"

fun scan_table :: "(hslot \<Rightarrow> bool result) \<Rightarrow> hslot list \<Rightarrow> nat \<Rightarrow> nat \<Rightarrow> nat result" where
  "scan_table p t 0 idx = Inr 0"
| "scan_table p t (Suc n) idx =
     (if length t \<le> idx then Inl Out_Of_Bounds
      else if used (t ! idx) \<le> 0 then scan_table p t n (idx + 1)
      else bind_result (p (t ! idx)) (\<lambda>m. if m then Inr idx else scan_table p t n (idx + 1)))"

definition hstrstr_r :: "mem \<Rightarrow> nat \<Rightarrow> hsearch_data \<Rightarrow> nat result" where
  "hstrstr_r match last_idx htab =
     (case htable htab of
        None \<Rightarrow> if hsize htab \<le> last_idx + 1 then Inr 0 else Inl Null_Deref
      | Some t \<Rightarrow>
          scan_table (\<lambda>s.
            bind_result (deref (hkey s)) (\<lambda>k.
            bind_result (strstr k match) (\<lambda>p.
            if p \<noteq> None then Inr True
            else bind_result (deref (hdata s)) (\<lambda>d.
                 bind_result (strstr d match) (\<lambda>p. Inr (p \<noteq> None))))))
            t (hsize htab - (last_idx + 1)) (last_idx + 1))"

definition hmatch_r :: "mem \<Rightarrow> nat \<Rightarrow> hsearch_data \<Rightarrow> nat result" where
  "hmatch_r match last_idx htab =
     bind_result (strlen match) (\<lambda>key_len.
     case htable htab of
       None \<Rightarrow> if hsize htab \<le> last_idx + 1 then Inr 0 else Inl Null_Deref
     | Some t \<Rightarrow>
         scan_table (\<lambda>s.
           bind_result (deref (hkey s)) (\<lambda>k.
           bind_result (strncmp match k key_len) (\<lambda>r. Inr (r = 0))))
           t (hsize htab - (last_idx + 1)) (last_idx + 1))"

section \<open>Export\<close>

text \<open>
  \<open>list\<close> is an array of pointers to entries, here the index of the slot as four bytes, so that \<open>cmpkey\<close> is
  the comparison of the keys behind two such pointers.
\<close>

definition cmpkey :: "hslot list \<Rightarrow> mem \<Rightarrow> mem \<Rightarrow> int result" where
  "cmpkey t p1 p2 =
     bind_result (deref (hkey (t ! le_addr p1))) (\<lambda>k1.
     bind_result (deref (hkey (t ! le_addr p2))) (\<lambda>k2. strcmp k1 k2))"

definition entry_ptr :: "nat \<Rightarrow> mem" where
  "entry_ptr i = [of_nat i, of_nat (i div 256), of_nat (i div 65536), of_nat (i div 16777216)]"

fun name_selected :: "mem list \<Rightarrow> mem \<Rightarrow> bool result" where
  "name_selected [] key = Inr False"
| "name_selected (a # argv) key =
     bind_result (strcmp a key) (\<lambda>r. if r = 0 then Inr True else name_selected argv key)"

definition escaped :: "u8 \<Rightarrow> u8 list \<Rightarrow> u8 list" where
  "escaped sep s = concat (map (\<lambda>c. if c = sep \<or> c = 92 then [92, c] else [c]) s)"

definition entry_room :: "u8 \<Rightarrow> mem \<Rightarrow> mem \<Rightarrow> nat result" where
  "entry_room sep key data =
     bind_result (strlen key) (\<lambda>k.
     bind_result (strlen data) (\<lambda>d.
       Inr (k + 2 + (if sep = 0 then d else length (escaped sep (take d data))) + 2)))"

text \<open>Pass 1: the selected slots and the room they need.\<close>

fun export_scan :: "u8 \<Rightarrow> mem list \<Rightarrow> hslot list \<Rightarrow> nat \<Rightarrow> nat \<Rightarrow> (nat list \<times> nat) result" where
  "export_scan sep argv t 0 i = Inr ([], 0)"
| "export_scan sep argv t (Suc n) i =
     (if length t \<le> i then Inl Out_Of_Bounds
      else if used (t ! i) \<le> 0 then export_scan sep argv t n (i + 1)
      else
        bind_result (deref (hkey (t ! i))) (\<lambda>k.
        bind_result (name_selected argv k) (\<lambda>found.
        if argv \<noteq> [] \<and> \<not> found then export_scan sep argv t n (i + 1)
        else
          bind_result (deref (hdata (t ! i))) (\<lambda>d.
          bind_result (entry_room sep k d) (\<lambda>m.
          bind_result (export_scan sep argv t n (i + 1)) (\<lambda>(is, totlen). Inr (i # is, m + totlen)))))))"

text \<open>Pass 2: one line per entry.\<close>

definition export_line :: "u8 \<Rightarrow> hslot \<Rightarrow> u8 list result" where
  "export_line sep s =
     bind_result (deref (hkey s)) (\<lambda>k.
     bind_result (strlen k) (\<lambda>n.
     bind_result (deref (hdata s)) (\<lambda>d.
     bind_result (strlen d) (\<lambda>m.
       Inr (take n k @ [61] @ escaped sep (take m d) @ [sep])))))"

fun export_lines :: "u8 \<Rightarrow> hslot list \<Rightarrow> mem list \<Rightarrow> u8 list result" where
  "export_lines sep t [] = Inr []"
| "export_lines sep t (p # ps) =
     bind_result (export_line sep (t ! le_addr p)) (\<lambda>l.
     bind_result (export_lines sep t ps) (\<lambda>ls. Inr (l @ ls)))"

text \<open>
  \<open>resp\<close> is the buffer of the caller, if it gave one; the result is the return value and the buffer.  The
  text and its terminator have to fit into the buffer.
\<close>

definition hexport_r ::
  "(nat \<Rightarrow> bool) \<Rightarrow> hsearch_data \<Rightarrow> u8 \<Rightarrow> mem option \<Rightarrow> nat \<Rightarrow> mem list \<Rightarrow> (int \<times> mem option) result" where
  "hexport_r alloc htab sep resp sz argv =
     (if htable htab = None \<and> hsize htab \<noteq> 0 then Inl Null_Deref
      else
        let t = (case htable htab of None \<Rightarrow> [] | Some t \<Rightarrow> t)
        in bind_result (export_scan sep argv t (hsize htab) 1) (\<lambda>(is, totlen).
          bind_result (qsort (cmpkey t) (concat (map entry_ptr is)) (length is) 4) (\<lambda>sorted.
          if sz \<noteq> 0 \<and> sz < totlen + 1 then Inr (-1, resp)
          else
            let sz = (if sz \<noteq> 0 then sz else totlen + 1)
            in case resp of
                 Some res \<Rightarrow>
                   if length res < sz then Inl Out_Of_Bounds
                   else bind_result (export_lines sep t (elems 4 (length is) sorted)) (\<lambda>out.
                     if length res \<le> length out then Inl Out_Of_Bounds
                     else Inr (int sz, Some (put_bytes 0 (out @ [0]) (put_bytes 0 (replicate sz 0) res))))
               | None \<Rightarrow>
                   if \<not> alloc sz then Inr (-1, None)
                   else bind_result (export_lines sep t (elems 4 (length is) sorted)) (\<lambda>out.
                     if sz \<le> length out then Inl Out_Of_Bounds
                     else Inr (int sz, Some (put_bytes 0 (out @ [0]) (replicate sz 0)))))))"

section \<open>Import\<close>

text \<open>\<open>while (P( *dp)) ++dp\<close>: the characters passed and the rest.\<close>

fun span_c :: "(u8 \<Rightarrow> bool) \<Rightarrow> mem \<Rightarrow> (u8 list \<times> mem) result" where
  "span_c P [] = Inl Out_Of_Bounds"
| "span_c P (c # m) =
     (if P c then bind_result (span_c P m) (\<lambda>(s, r). Inr (c # s, r)) else Inr ([], c # m))"

text \<open>The value up to the separator, with the escapes removed.\<close>

fun unescape :: "u8 \<Rightarrow> mem \<Rightarrow> (u8 list \<times> mem) result" where
  "unescape sep [] = Inl Out_Of_Bounds"
| "unescape sep (c # m) =
     (if c = 0 \<or> c = sep then Inr ([], c # m)
      else if c = 92 then
        (case m of
           [] \<Rightarrow> Inl Out_Of_Bounds
         | d # m' \<Rightarrow>
             if d \<noteq> 0 then bind_result (unescape sep m') (\<lambda>(v, r). Inr (d # v, r))
             else bind_result (unescape sep m) (\<lambda>(v, r). Inr (c # v, r)))
      else bind_result (unescape sep m) (\<lambda>(v, r). Inr (c # v, r)))"

text \<open>What one pass of the loop finds, and the rest of the data.\<close>

datatype import = Comment | Delete "u8 list" | Enter "u8 list" "u8 list"

definition import_item :: "u8 \<Rightarrow> mem \<Rightarrow> (import \<times> mem) result" where
  "import_item sep m =
     bind_result (span_c (\<lambda>c. c = 32 \<or> c = 9) m) (\<lambda>(_, m).
     if hd m = 35 then bind_result (span_c (\<lambda>c. c \<noteq> 0 \<and> c \<noteq> sep) m) (\<lambda>(_, r). Inr (Comment, tl r))
     else
       bind_result (span_c (\<lambda>c. c \<noteq> 61 \<and> c \<noteq> 0 \<and> c \<noteq> sep) m) (\<lambda>(name, r).
       if hd r = 0 then Inr (Delete name, tl r)
       else if tl r = [] then Inl Out_Of_Bounds
       else if hd (tl r) = 0 \<or> hd r = sep \<or> hd (tl r) = sep
       then Inr (Delete name, if hd r = 61 then tl (tl r) else tl r)
       else bind_result (unescape sep (tl r)) (\<lambda>(v, r). Inr (Enter name v, tl r))))"

lemma span_c_rest: "span_c P m = Inr (s, r) \<Longrightarrow> m = s @ r \<and> r \<noteq> [] \<and> \<not> P (hd r) \<and> (\<forall>c\<in>set s. P c)"
  by (induction P m arbitrary: s rule: span_c.induct) (auto split: if_splits)

lemma unescape_rest: "unescape sep m = Inr (v, r) \<Longrightarrow> length r \<le> length m \<and> r \<noteq> []"
proof (induction sep m arbitrary: v rule: unescape.induct)
  case (2 sep c m)
  then show ?case by (auto split: if_splits list.splits intro: le_SucI)
qed simp

lemma span_c_length: "span_c P m = Inr (s, r) \<Longrightarrow> length r \<le> length m \<and> 0 < length r"
  using span_c_rest by fastforce

lemma unescape_length: "unescape sep m = Inr (v, r) \<Longrightarrow> length r \<le> length m \<and> 0 < length r"
  using unescape_rest by fastforce

lemma import_item_shorter: "import_item sep m = Inr (i, r) \<Longrightarrow> length r < length m"
  by (auto simp: import_item_def split: if_splits dest!: span_c_length unescape_length
      simp del: unescape.simps span_c.simps; simp add: neq_Nil_conv; fastforce)

lemma bind_result_data_cong [fundef_cong]:
  "r = r' \<Longrightarrow> (\<And>a. r' = Inr a \<Longrightarrow> f a = g a) \<Longrightarrow> bind_result r f = bind_result r' g"
  by (cases r') auto

text \<open>
  The loop on the data from \<open>dp\<close> on.  The result is the return value of \<open>himport_r\<close> and the table; \<open>data\<close> is
  not freed when an entry cannot be made.
\<close>

function import_loop :: "(nat \<Rightarrow> bool) \<Rightarrow> u8 \<Rightarrow> mem \<Rightarrow> hsearch_data \<Rightarrow> (int \<times> hsearch_data) result" where
  "import_loop alloc sep m htab =
     bind_result (import_item sep m) (\<lambda>(i, r).
     bind_result
       (case i of
          Comment \<Rightarrow> Inr (True, htab)
        | Delete name \<Rightarrow> bind_result (hdelete_r (name @ [0]) htab) (\<lambda>(_, htab). Inr (True, htab))
        | Enter name v \<Rightarrow>
            bind_result (hsearch_r alloc (name @ [0]) (Some (v @ [0])) ENTER htab) (\<lambda>(_, rv, htab). Inr (rv \<noteq> None, htab)))
       (\<lambda>(ok, htab).
         if \<not> ok then Inr (0, htab)
         else if r = [] \<or> hd r = 0 then Inr (1, htab)
         else import_loop alloc sep r htab))"
  by pat_completeness auto
termination
  by (relation "measure (\<lambda>(alloc, sep, m, htab). length m)") (auto dest: import_item_shorter)

declare import_loop.simps [simp del]

definition himport_r ::
  "(nat \<Rightarrow> bool) \<Rightarrow> hsearch_data \<Rightarrow> mem \<Rightarrow> nat \<Rightarrow> u8 \<Rightarrow> bool \<Rightarrow> (int \<times> hsearch_data) result" where
  "himport_r alloc htab env sz sep noclear =
     (if \<not> alloc sz then Inr (0, htab)
      else if length env < sz then Inl Out_Of_Bounds
      else
        let data = take sz env
        in bind_result
             (if \<not> noclear \<and> htable htab \<noteq> None then hdestroy_r htab else Inr htab) (\<lambda>htab.
           bind_result
             (if htable htab = None then hcreate_r alloc (min (64 + sz div 8) 512) htab else Inr (1, htab))
             (\<lambda>(r, htab). if r = 0 then Inr (0, htab) else import_loop alloc sep data htab)))"

section \<open>The probe sequence\<close>

text \<open>
  Indices run from 1 to \<open>size\<close>; a step subtracts \<open>hval2\<close> modulo \<open>size\<close>.
\<close>

fun probe_idx :: "nat \<Rightarrow> nat \<Rightarrow> nat \<Rightarrow> nat \<Rightarrow> nat" where
  "probe_idx sz h2 idx 0 = idx"
| "probe_idx sz h2 idx (Suc k) = probe_idx sz h2 (next_idx sz h2 idx) k"

lemma next_idx_range:
  "\<lbrakk>1 \<le> idx; idx \<le> sz; 1 \<le> h2; h2 < sz\<rbrakk> \<Longrightarrow> 1 \<le> next_idx sz h2 idx \<and> next_idx sz h2 idx \<le> sz"
  by (auto simp: next_idx_def)

lemma probe_idx_range:
  "\<lbrakk>1 \<le> idx; idx \<le> sz; 1 \<le> h2; h2 < sz\<rbrakk> \<Longrightarrow> 1 \<le> probe_idx sz h2 idx k \<and> probe_idx sz h2 idx k \<le> sz"
proof (induction k arbitrary: idx)
  case (Suc k)
  then show ?case using next_idx_range [OF Suc.prems] Suc.IH [of "next_idx sz h2 idx"] by simp
qed simp

lemma probe_idx_Suc: "probe_idx sz h2 idx (Suc k) = next_idx sz h2 (probe_idx sz h2 idx k)"
  by (induction k arbitrary: idx) simp_all

lemma probe_idx_mod:
  assumes "1 \<le> idx" "idx \<le> sz" "1 \<le> h2" "h2 < sz"
  shows "(probe_idx sz h2 idx k + k * h2) mod sz = idx mod sz"
proof (induction k)
  case (Suc k)
  let ?i = "probe_idx sz h2 idx k"
  have r: "1 \<le> ?i" "?i \<le> sz" using probe_idx_range [OF assms] by simp_all
  have "(next_idx sz h2 ?i + h2) mod sz = ?i mod sz"
    using r assms by (auto simp: next_idx_def)
  then have "(next_idx sz h2 ?i + h2 + k * h2) mod sz = (?i + k * h2) mod sz"
    by (metis mod_add_left_eq)
  then show ?case using Suc by (simp add: probe_idx_Suc add.assoc del: probe_idx.simps)
qed simp

lemma probe_idx_period:
  assumes "1 \<le> idx" "idx \<le> sz" "1 \<le> h2" "h2 < sz"
  shows "probe_idx sz h2 idx sz = idx"
proof -
  have r: "1 \<le> probe_idx sz h2 idx sz" "probe_idx sz h2 idx sz \<le> sz" using probe_idx_range [OF assms] by simp_all
  have "probe_idx sz h2 idx sz mod sz = idx mod sz"
    using probe_idx_mod [OF assms, of sz] by simp
  then show ?thesis using r assms by (metis le_neq_implies_less mod_less mod_self not_one_le_zero)
qed

lemma probe_idx_inj:
  assumes "1 \<le> idx" "idx \<le> sz" "1 \<le> h2" "h2 < sz" "coprime h2 sz" "i < sz" "j < sz"
    and eq: "probe_idx sz h2 idx i = probe_idx sz h2 idx j"
  shows "i = j"
proof -
  have *: "i = j" if "i \<le> j" "j < sz" "probe_idx sz h2 idx i = probe_idx sz h2 idx j" for i j
  proof -
    let ?p = "probe_idx sz h2 idx i"
    have "(?p + i * h2) mod sz = (?p + j * h2) mod sz"
      using probe_idx_mod [OF assms(1-4), of i] probe_idx_mod [OF assms(1-4), of j] that(3) by simp
    then have "sz dvd (?p + j * h2) - (?p + i * h2)"
      using that(1) by (intro mod_eq_dvd_iff_nat [THEN iffD1]) (simp_all add: mult_le_mono1)
    then have "sz dvd (j - i) * h2" by (simp add: diff_mult_distrib)
    then have "sz dvd j - i" using assms(5) by (simp add: coprime_commute coprime_dvd_mult_left_iff)
    then show ?thesis using that by (metis diff_is_0_eq diff_le_self dvd_imp_le le_antisym le_less_trans linorder_not_le neq0_conv)
  qed
  show ?thesis using * [of i j] * [of j i] assms(6-) by (metis nat_le_linear)
qed

lemma probe_idx_covers:
  assumes "1 \<le> idx" "idx \<le> sz" "1 \<le> h2" "h2 < sz" "coprime h2 sz" "1 \<le> i" "i \<le> sz"
  shows "\<exists>k < sz. probe_idx sz h2 idx k = i"
proof -
  let ?f = "probe_idx sz h2 idx"
  have "inj_on ?f {0..<sz}" using probe_idx_inj [OF assms(1-5)] by (auto simp: inj_on_def)
  then have "card (?f ` {0..<sz}) = card {1..sz}" by (simp add: card_image)
  moreover have "?f ` {0..<sz} \<subseteq> {1..sz}" using probe_idx_range [OF assms(1-4)] by auto
  ultimately have "?f ` {0..<sz} = {1..sz}" by (intro card_subset_eq) simp_all
  moreover have "i \<in> {1..sz}" using assms by simp
  ultimately show ?thesis by (metis (no_types, lifting) atLeastLessThan_iff imageE)
qed

section \<open>The invariant of a table\<close>

definition all_coprime :: "nat \<Rightarrow> bool" where
  "all_coprime sz \<longleftrightarrow> (\<forall>h\<in>{1..<sz}. coprime h sz)"

definition live :: "hslot \<Rightarrow> bool" where
  "live s \<longleftrightarrow> 0 < used s"

abbreviation key_of :: "hslot \<Rightarrow> u8 list" where "key_of s \<equiv> cstr (the (hkey s))"
abbreviation data_of :: "hslot \<Rightarrow> u8 list" where "data_of s \<equiv> cstr (the (hdata s))"

definition slot_ok :: "nat \<Rightarrow> hslot \<Rightarrow> bool" where
  "slot_ok sz s \<longleftrightarrow> (live s \<longrightarrow> hkey s \<noteq> None \<and> hdata s \<noteq> None \<and> is_cstr (the (hkey s)) \<and> is_cstr (the (hdata s))
      \<and> used s = int (hash1 sz (key_of s)))"

text \<open>The places where a key may be, in the order in which they are tried.\<close>

definition place :: "nat \<Rightarrow> u8 list \<Rightarrow> nat \<Rightarrow> nat" where
  "place sz k n = probe_idx sz (hash2 sz (hash1 sz k)) (hash1 sz k) n"

text \<open>
  A live entry can be found: no slot tried before it has never been used.
\<close>

definition reachable :: "nat \<Rightarrow> hslot list \<Rightarrow> nat \<Rightarrow> bool" where
  "reachable sz t i \<longleftrightarrow> (\<exists>n < sz. place sz (key_of (t ! i)) n = i \<and> (\<forall>j<n. used (t ! place sz (key_of (t ! i)) j) \<noteq> 0))"

definition table_ok :: "nat \<Rightarrow> hslot list \<Rightarrow> bool" where
  "table_ok sz t \<longleftrightarrow> 3 \<le> sz \<and> sz < 2 ^ 31 \<and> all_coprime sz \<and> length t = sz + 1
     \<and> (\<forall>i\<in>{1..sz}. slot_ok sz (t ! i) \<and> (live (t ! i) \<longrightarrow> reachable sz t i))
     \<and> (\<forall>i\<in>{1..sz}. \<forall>j\<in>{1..sz}. live (t ! i) \<longrightarrow> live (t ! j) \<longrightarrow> key_of (t ! i) = key_of (t ! j) \<longrightarrow> i = j)"

lemma hash1_range: "3 \<le> sz \<Longrightarrow> 1 \<le> hash1 sz k \<and> hash1 sz k < sz"
  by (auto simp: hash1_def Let_def)

lemma hash2_range: "3 \<le> sz \<Longrightarrow> 1 \<le> hash2 sz h \<and> hash2 sz h < sz"
proof -
  assume "3 \<le> sz"
  then have "h mod (sz - 2) < sz - 2" by simp
  then show ?thesis by (simp add: hash2_def)
qed

lemma place_0 [simp]: "place sz k 0 = hash1 sz k"
  by (simp add: place_def)

lemma place_Suc: "place sz k (Suc n) = next_idx sz (hash2 sz (hash1 sz k)) (place sz k n)"
  by (simp add: place_def probe_idx_Suc del: probe_idx.simps)

lemma place_range: "3 \<le> sz \<Longrightarrow> 1 \<le> place sz k n \<and> place sz k n \<le> sz"
  unfolding place_def using hash1_range [of sz k] hash2_range [of sz "hash1 sz k"]
  by (intro probe_idx_range) auto

lemma place_inj:
  assumes "3 \<le> sz" "all_coprime sz" "i < sz" "j < sz" "place sz k i = place sz k j"
  shows "i = j"
proof (rule probe_idx_inj)
  show "coprime (hash2 sz (hash1 sz k)) sz" using assms hash2_range [of sz] by (auto simp: all_coprime_def)
qed (use assms hash1_range [of sz k] hash2_range [of sz "hash1 sz k"] in \<open>auto simp: place_def\<close>)

lemma place_covers:
  assumes "3 \<le> sz" "all_coprime sz" "1 \<le> i" "i \<le> sz"
  shows "\<exists>n < sz. place sz k n = i"
  unfolding place_def
proof (rule probe_idx_covers)
  show "coprime (hash2 sz (hash1 sz k)) sz" using assms hash2_range [of sz] by (auto simp: all_coprime_def)
qed (use assms hash1_range [of sz k] hash2_range [of sz "hash1 sz k"] in auto)

lemma place_period: "3 \<le> sz \<Longrightarrow> place sz k sz = hash1 sz k"
  unfolding place_def using hash1_range [of sz k] hash2_range [of sz "hash1 sz k"]
  by (intro probe_idx_period) auto

section \<open>Searching\<close>

definition holds :: "u8 list \<Rightarrow> hslot \<Rightarrow> bool" where
  "holds k s \<longleftrightarrow> live s \<and> key_of s = k"

lemma slot_matches_holds:
  assumes "3 \<le> sz" "slot_ok sz s" "is_cstr key"
  shows "slot_matches (hash1 sz (cstr key)) key s = Inr (holds (cstr key) s)"
proof (cases "used s = int (hash1 sz (cstr key))")
  case True
  then have l: "live s" using hash1_range [OF assms(1), of "cstr key"] by (simp add: live_def)
  then obtain k where k: "hkey s = Some k" "is_cstr k" using assms(2) by (auto simp: slot_ok_def)
  obtain r where r: "strcmp key k = Inr r" using strcmp_total [OF assms(3) k(2)] by blast
  have "r = 0 \<longleftrightarrow> cstr key = cstr k" using strcmp_eq_0 [OF assms(3) k(2)] r by simp
  then show ?thesis using True l k r by (auto simp: slot_matches_def holds_def)
next
  case False
  then show ?thesis using assms(2) by (auto simp: slot_matches_def holds_def slot_ok_def)
qed

text \<open>
  The places tried before the search stops are all in use and none holds the key.
\<close>

definition passed :: "nat \<Rightarrow> hslot list \<Rightarrow> u8 list \<Rightarrow> nat \<Rightarrow> bool" where
  "passed sz t k n \<longleftrightarrow> (\<forall>j<n. used (t ! place sz k j) \<noteq> 0 \<and> \<not> holds k (t ! place sz k j))"

definition outcome :: "nat \<Rightarrow> hslot list \<Rightarrow> u8 list \<Rightarrow> probe \<Rightarrow> bool" where
  "outcome sz t k p \<longleftrightarrow>
     (case p of
        Found i \<Rightarrow> \<exists>n < sz. i = place sz k n \<and> passed sz t k n \<and> holds k (t ! i)
      | Stopped i \<Rightarrow> \<exists>n \<le> sz. i = place sz k n \<and> passed sz t k n
          \<and> (n < sz \<longrightarrow> used (t ! i) = 0) \<and> (n = sz \<longrightarrow> i = hash1 sz k))"

lemma probe_loop_outcome:
  assumes ok: "table_ok sz t" and key: "is_cstr key"
  shows "\<lbrakk>n < sz; sz \<le> fuel + n; passed sz t (cstr key) (Suc n)\<rbrakk> \<Longrightarrow>
    \<exists>p. probe_loop fuel t sz (hash1 sz (cstr key)) (hash2 sz (hash1 sz (cstr key))) key (place sz (cstr key) n) = Inr p
      \<and> outcome sz t (cstr key) p"
proof (induction fuel arbitrary: n)
  case (Suc fuel)
  let ?k = "cstr key" and ?i = "place sz (cstr key) (Suc n)"
  have sz: "3 \<le> sz" "all_coprime sz" "length t = sz + 1" using ok by (auto simp: table_ok_def)
  have i: "1 \<le> ?i" "?i \<le> sz" using place_range [OF sz(1)] by auto
  have mt: "slot_matches (hash1 sz ?k) key (t ! ?i) = Inr (holds ?k (t ! ?i))"
    using ok i key sz(1) by (intro slot_matches_holds) (auto simp: table_ok_def)
  have step: "probe_loop (Suc fuel) t sz (hash1 sz ?k) (hash2 sz (hash1 sz ?k)) key (place sz ?k n) =
     (if ?i = hash1 sz ?k then Inr (Stopped ?i)
      else if holds ?k (t ! ?i) then Inr (Found ?i)
      else if used (t ! ?i) \<noteq> 0 then probe_loop fuel t sz (hash1 sz ?k) (hash2 sz (hash1 sz ?k)) key ?i
      else Inr (Stopped ?i))"
    using i sz(3) by (simp add: Let_def mt flip: place_Suc)
  have home: "?i = hash1 sz ?k \<longleftrightarrow> Suc n = sz"
  proof -
    have "Suc n < sz \<or> Suc n = sz" using Suc.prems(1) by linarith
    then show ?thesis
      using place_inj [OF sz(1,2), of "Suc n" 0 ?k] place_period [OF sz(1), of ?k] by auto
  qed
  show ?case
  proof (cases "Suc n = sz")
    case True
    then show ?thesis using step home Suc.prems(3) by (auto simp: outcome_def intro!: exI [of _ sz])
  next
    case False
    then have less: "Suc n < sz" using Suc.prems(1) by simp
    show ?thesis
    proof (cases "holds ?k (t ! ?i) \<or> used (t ! ?i) = 0")
      case True
      then have "outcome sz t ?k (if holds ?k (t ! ?i) then Found ?i else Stopped ?i)"
        using less Suc.prems(3) by (auto simp: outcome_def intro!: exI [of _ "Suc n"])
      then show ?thesis using step home False True by auto
    next
      case nomatch: False
      then have "passed sz t ?k (Suc (Suc n))" using Suc.prems(3) by (auto simp: passed_def less_Suc_eq)
      then show ?thesis using Suc.IH [of "Suc n"] less Suc.prems(2) step home False nomatch by simp
    qed
  qed
qed simp

lemma hsearch_probe_outcome:
  assumes ok: "table_ok sz t" and key: "is_cstr key"
  shows "\<exists>p. hsearch_probe t sz (hash1 sz (cstr key)) key =
      Inr (p, if used (t ! hash1 sz (cstr key)) = -1 then hash1 sz (cstr key) else 0) \<and> outcome sz t (cstr key) p"
proof -
  let ?k = "cstr key" and ?h = "hash1 sz (cstr key)"
  have sz: "3 \<le> sz" "all_coprime sz" "length t = sz + 1" using ok by (auto simp: table_ok_def)
  have h: "1 \<le> ?h" "?h < sz" using hash1_range [OF sz(1)] by auto
  have mt: "slot_matches ?h key (t ! ?h) = Inr (holds ?k (t ! ?h))"
    using ok h key sz(1) by (intro slot_matches_holds) (auto simp: table_ok_def)
  have first: "passed sz t ?k 0" by (simp add: passed_def)
  consider "used (t ! ?h) = 0" | "used (t ! ?h) \<noteq> 0" "holds ?k (t ! ?h)" | "used (t ! ?h) \<noteq> 0" "\<not> holds ?k (t ! ?h)"
    by blast
  then show ?thesis
  proof cases
    case 1
    then show ?thesis using h sz first by (auto simp: hsearch_probe_def outcome_def intro!: exI [of _ 0])
  next
    case 2
    then show ?thesis using h sz first mt by (auto simp: hsearch_probe_def outcome_def Let_def intro!: exI [of _ 0])
  next
    case 3
    then have "passed sz t ?k (Suc 0)" by (simp add: passed_def)
    then show ?thesis
      using probe_loop_outcome [OF ok key, of 0 sz] 3 h sz mt by (auto simp: hsearch_probe_def Let_def)
  qed
qed

lemma table_ok_unique:
  assumes "table_ok sz t" "1 \<le> i" "i \<le> sz" "holds k (t ! i)" "1 \<le> j" "j \<le> sz" "holds k (t ! j)"
  shows "i = j"
proof -
  have "\<forall>i\<in>{1..sz}. \<forall>j\<in>{1..sz}. live (t ! i) \<longrightarrow> live (t ! j) \<longrightarrow> key_of (t ! i) = key_of (t ! j) \<longrightarrow> i = j"
    using assms(1) by (simp add: table_ok_def)
  then show ?thesis using assms(2-) by (auto simp: holds_def)
qed

lemma table_ok_reach:
  assumes "table_ok sz t" "1 \<le> i" "i \<le> sz" "holds k (t ! i)"
  shows "\<exists>n < sz. place sz k n = i \<and> (\<forall>j<n. used (t ! place sz k j) \<noteq> 0)"
proof -
  have "\<forall>i\<in>{1..sz}. slot_ok sz (t ! i) \<and> (live (t ! i) \<longrightarrow> reachable sz t i)"
    using assms(1) by (simp add: table_ok_def)
  then show ?thesis using assms(2-) by (auto simp: holds_def reachable_def)
qed

text \<open>A key that is in the table is found, and only there.\<close>

lemma outcome_present:
  assumes ok: "table_ok sz t" and i: "1 \<le> i" "i \<le> sz" "holds k (t ! i)" and out: "outcome sz t k p"
  shows "p = Found i"
proof -
  have sz: "3 \<le> sz" "all_coprime sz" using ok by (auto simp: table_ok_def)
  have "live (t ! i)" "key_of (t ! i) = k" using i by (auto simp: holds_def)
  then obtain n where n: "n < sz" "place sz k n = i" "\<forall>j<n. used (t ! place sz k j) \<noteq> 0"
    using ok i by (force simp: table_ok_def reachable_def)
  show ?thesis
  proof (cases p)
    case (Found j)
    then have j: "holds k (t ! j)" "1 \<le> j" "j \<le> sz" using out place_range [OF sz(1)] by (auto simp: outcome_def)
    then have "live (t ! j)" "key_of (t ! j) = key_of (t ! i)" using i by (auto simp: holds_def)
    then have "j = i" using ok i j \<open>live (t ! i)\<close> by (auto simp: table_ok_def)
    then show ?thesis using Found by simp
  next
    case (Stopped j)
    then obtain m where m: "m \<le> sz" "passed sz t k m" "m < sz \<longrightarrow> used (t ! place sz k m) = 0"
      using out by (auto simp: outcome_def)
    have "m \<le> n" using m(2) n i(3) by (metis not_le passed_def)
    then have "m = n" using m(3) n by (metis le_neq_implies_less order_le_less_trans)
    then show ?thesis using m(3) n i(3) by (auto simp: holds_def live_def)
  qed
qed

lemma outcome_absent:
  assumes ok: "table_ok sz t" and none: "\<And>i. 1 \<le> i \<Longrightarrow> i \<le> sz \<Longrightarrow> \<not> holds k (t ! i)" and out: "outcome sz t k p"
  obtains n where "n \<le> sz" "p = Stopped (place sz k n)" "passed sz t k n" "n < sz \<longrightarrow> used (t ! place sz k n) = 0"
proof (cases p)
  case (Found i)
  then show ?thesis using out none place_range ok by (force simp: outcome_def table_ok_def)
next
  case (Stopped i)
  then show ?thesis using out that by (auto simp: outcome_def)
qed

section \<open>The table as a map\<close>

definition table_view :: "hslot list \<Rightarrow> u8 list \<Rightarrow> u8 list option" where
  "table_view t k = map_option (\<lambda>i. data_of (t ! i)) (find (\<lambda>i. holds k (t ! i)) [1..<length t])"

definition store_view :: "hsearch_data \<Rightarrow> u8 list \<Rightarrow> u8 list option" where
  "store_view htab = (case htable htab of None \<Rightarrow> (\<lambda>_. None) | Some t \<Rightarrow> table_view t)"

text \<open>\<open>filled\<close> counts the live slots.\<close>

definition store_inv :: "hsearch_data \<Rightarrow> bool" where
  "store_inv htab \<longleftrightarrow> (\<exists>t. htable htab = Some t \<and> table_ok (hsize htab) t
     \<and> filled htab = of_nat (card {i \<in> {1..hsize htab}. live (t ! i)}))"

text \<open>The slots that have never been used; deleting does not give them back.\<close>

definition store_free :: "hsearch_data \<Rightarrow> nat" where
  "store_free htab = (case htable htab of None \<Rightarrow> 0 | Some t \<Rightarrow> card {i \<in> {1..hsize htab}. used (t ! i) = 0})"

lemma find_SomeD: "find P xs = Some x \<Longrightarrow> x \<in> set xs \<and> P x"
  by (induction xs) (auto split: if_splits)

lemma table_view_eq_Some:
  assumes "table_ok sz t"
  shows "table_view t k = Some v \<longleftrightarrow> (\<exists>i. 1 \<le> i \<and> i \<le> sz \<and> holds k (t ! i) \<and> data_of (t ! i) = v)"
proof -
  have len: "length t = sz + 1" using assms by (simp add: table_ok_def)
  have uniq: "i = j" if "1 \<le> i" "i \<le> sz" "holds k (t ! i)" "1 \<le> j" "j \<le> sz" "holds k (t ! j)" for i j
    using assms that by (auto simp: table_ok_def holds_def)
  show ?thesis
  proof
    assume "table_view t k = Some v"
    then show "\<exists>i. 1 \<le> i \<and> i \<le> sz \<and> holds k (t ! i) \<and> data_of (t ! i) = v"
      unfolding table_view_def len by (force dest!: find_SomeD)
  next
    assume "\<exists>i. 1 \<le> i \<and> i \<le> sz \<and> holds k (t ! i) \<and> data_of (t ! i) = v"
    then obtain i where i: "1 \<le> i" "i \<le> sz" "holds k (t ! i)" "data_of (t ! i) = v" by blast
    then have "find (\<lambda>i. holds k (t ! i)) [1..<length t] \<noteq> None"
      by (auto simp: find_None_iff len)
    then obtain j where j: "find (\<lambda>i. holds k (t ! i)) [1..<length t] = Some j" by blast
    then have "j = i" using uniq [of i j] i len by (auto dest!: find_SomeD)
    then show "table_view t k = Some v" using i j by (simp add: table_view_def)
  qed
qed

lemma table_view_eq_None:
  assumes "table_ok sz t"
  shows "table_view t k = None \<longleftrightarrow> (\<forall>i. 1 \<le> i \<longrightarrow> i \<le> sz \<longrightarrow> \<not> holds k (t ! i))"
  using table_view_eq_Some [OF assms, of k] by (metis not_None_eq)

subsection \<open>Looking up\<close>

lemma hsearch_find:
  assumes inv: "store_inv htab" and key: "is_cstr key"
  shows "\<exists>t. htable htab = Some t \<and>
     (case store_view htab (cstr key) of
        None \<Rightarrow> hsearch_r alloc key data FIND htab = Inr (0, None, htab)
      | Some v \<Rightarrow> \<exists>i. 1 \<le> i \<and> i \<le> hsize htab \<and> hsearch_r alloc key data FIND htab = Inr (i, Some i, htab)
          \<and> holds (cstr key) (t ! i) \<and> data_of (t ! i) = v)"
proof -
  obtain t where t: "htable htab = Some t" "table_ok (hsize htab) t" using inv by (auto simp: store_inv_def)
  let ?k = "cstr key"
  have take: "take (length ?k) key = ?k" using key by (rule cstr_take)
  obtain p where p: "hsearch_probe t (hsize htab) (hash1 (hsize htab) ?k) key =
      Inr (p, if used (t ! hash1 (hsize htab) ?k) = -1 then hash1 (hsize htab) ?k else 0)" "outcome (hsize htab) t ?k p"
    using hsearch_probe_outcome [OF t(2) key] by blast
  show ?thesis
  proof (cases "store_view htab ?k")
    case None
    then have "\<And>i. 1 \<le> i \<Longrightarrow> i \<le> hsize htab \<Longrightarrow> \<not> holds ?k (t ! i)"
      using t by (simp add: store_view_def table_view_eq_None [OF t(2)])
    then obtain j where "p = Stopped j" using outcome_absent [OF t(2) _ p(2)] by blast
    then show ?thesis using None t p(1) key take by (auto simp: hsearch_r_def Let_def)
  next
    case (Some v)
    then obtain i where i: "1 \<le> i" "i \<le> hsize htab" "holds ?k (t ! i)" "data_of (t ! i) = v"
      using t by (auto simp: store_view_def table_view_eq_Some [OF t(2)])
    then have "p = Found i" using outcome_present [OF t(2) _ _ _ p(2)] by blast
    then show ?thesis using Some t p(1) key take i by (auto simp: hsearch_r_def Let_def)
  qed
qed

subsection \<open>Changing a slot\<close>

lemma view_ext: "(\<And>k v. f k = Some v \<longleftrightarrow> g k = Some v) \<Longrightarrow> f = g"
  by (rule ext) (metis not_None_eq)

text \<open>
  A slot that keeps its key, or takes a new one at a place that can be reached, keeps the table valid.
\<close>

lemma table_ok_update:
  assumes ok: "table_ok sz t" and i: "1 \<le> i" "i \<le> sz" and nz: "used s \<noteq> 0" and s: "slot_ok sz s"
    and reach: "live s \<Longrightarrow> \<exists>n < sz. place sz (key_of s) n = i \<and> (\<forall>j<n. used (t ! place sz (key_of s) j) \<noteq> 0)"
    and uniq: "\<And>j. live s \<Longrightarrow> 1 \<le> j \<Longrightarrow> j \<le> sz \<Longrightarrow> j \<noteq> i \<Longrightarrow> \<not> holds (key_of s) (t ! j)"
  shows "table_ok sz (t[i := s])"
proof -
  have len: "length t = sz + 1" and sz: "3 \<le> sz" using ok by (auto simp: table_ok_def)
  have nth: "t[i := s] ! j = (if j = i then s else t ! j)" if "j \<le> sz" for j
    using that len i by (simp add: nth_list_update)
  have used: "used (t[i := s] ! place sz k j) \<noteq> 0" if "used (t ! place sz k j) \<noteq> 0" for k j
    using that nth [of "place sz k j"] place_range [OF sz, of k j] nz by auto
  have reachable: "reachable sz (t[i := s]) j" if j: "1 \<le> j" "j \<le> sz" "live (t[i := s] ! j)" for j
  proof (cases "j = i")
    case True
    then have "key_of (t[i := s] ! j) = key_of s" "live s" using nth [OF j(2)] j(3) by auto
    then show ?thesis using reach used True unfolding reachable_def by metis
  next
    case False
    then have e: "t[i := s] ! j = t ! j" using nth [OF j(2)] by simp
    have "reachable sz t j" using ok j False nth by (auto simp: table_ok_def)
    then show ?thesis using used unfolding reachable_def e by blast
  qed
  have old: "j = l" if "1 \<le> j" "j \<le> sz" "1 \<le> l" "l \<le> sz" "live (t ! j)" "live (t ! l)"
      "key_of (t ! j) = key_of (t ! l)" for j l
    using that ok by (auto simp: table_ok_def)
  have distinct: "j = l" if "1 \<le> j" "j \<le> sz" "1 \<le> l" "l \<le> sz" "live (t[i := s] ! j)" "live (t[i := s] ! l)"
      "key_of (t[i := s] ! j) = key_of (t[i := s] ! l)" for j l
    using that uniq [of j] uniq [of l] nth [OF that(2)] nth [OF that(4)] old [of j l]
    by (cases "j = i"; cases "l = i") (auto simp: holds_def)
  have slots: "slot_ok sz (t[i := s] ! j)" if "1 \<le> j" "j \<le> sz" for j
    using that ok s by (cases "j = i") (simp_all add: nth table_ok_def)
  show ?thesis
    unfolding table_ok_def
  proof (intro conjI ballI impI)
    show "3 \<le> sz" "sz < 2 ^ 31" "all_coprime sz" "length (t[i := s]) = sz + 1"
      using ok by (simp_all add: table_ok_def)
    show "slot_ok sz (t[i := s] ! j)" if "j \<in> {1..sz}" for j using that slots by simp
    show "reachable sz (t[i := s]) j" if "j \<in> {1..sz}" "live (t[i := s] ! j)" for j
      using that by (intro reachable) simp_all
    show "j = l" if "j \<in> {1..sz}" "l \<in> {1..sz}" "live (t[i := s] ! j)" "live (t[i := s] ! l)"
        "key_of (t[i := s] ! j) = key_of (t[i := s] ! l)" for j l
      using that by (intro distinct) simp_all
  qed
qed

lemma view_update:
  assumes ok: "table_ok sz t" and ok': "table_ok sz (t[i := s])" and i: "1 \<le> i" "i \<le> sz"
    and s: "live s" and old: "live (t ! i) \<Longrightarrow> key_of (t ! i) = key_of s"
  shows "table_view (t[i := s]) = (table_view t)(key_of s \<mapsto> data_of s)"
proof (rule view_ext)
  fix k v
  have len: "length t = sz + 1" using ok by (auto simp: table_ok_def)
  have nth: "t[i := s] ! j = (if j = i then s else t ! j)" if "j \<le> sz" for j
    using that len i by (simp add: nth_list_update)
  have new: "holds (key_of s) (t[i := s] ! i)" using nth [of i] i s by (simp add: holds_def)
  show "table_view (t[i := s]) k = Some v \<longleftrightarrow> ((table_view t)(key_of s \<mapsto> data_of s)) k = Some v"
  proof (cases "k = key_of s")
    case True
    have "table_view (t[i := s]) k = Some (data_of s)"
      using new i nth [of i] True by (auto simp: table_view_eq_Some [OF ok'])
    then show ?thesis using True by simp
  next
    case False
    have "holds k (t[i := s] ! j) \<and> data_of (t[i := s] ! j) = v \<longleftrightarrow> holds k (t ! j) \<and> data_of (t ! j) = v"
      if "j \<le> sz" for j
      using False nth [OF that] old by (auto simp: holds_def)
    then show ?thesis using False by (auto simp: table_view_eq_Some [OF ok] table_view_eq_Some [OF ok'])
  qed
qed

lemma view_delete:
  assumes ok: "table_ok sz t" and ok': "table_ok sz (t[i := s])" and i: "1 \<le> i" "i \<le> sz"
    and s: "\<not> live s" and old: "holds k (t ! i)"
  shows "table_view (t[i := s]) = (table_view t)(k := None)"
proof (rule view_ext)
  fix k' v
  have len: "length t = sz + 1" using ok by (auto simp: table_ok_def)
  have nth: "t[i := s] ! j = (if j = i then s else t ! j)" if "j \<le> sz" for j
    using that len i by (simp add: nth_list_update)
  have uniq: "\<not> holds k (t ! j)" if "1 \<le> j" "j \<le> sz" "j \<noteq> i" for j
    using ok i old that by (auto simp: table_ok_def holds_def)
  have "holds k' (t[i := s] ! j) \<and> data_of (t[i := s] ! j) = v \<longleftrightarrow> k' \<noteq> k \<and> holds k' (t ! j) \<and> data_of (t ! j) = v"
    if "1 \<le> j" "j \<le> sz" for j
    using nth [OF that(2)] s old uniq [OF that] by (auto simp: holds_def)
  then show "table_view (t[i := s]) k' = Some v \<longleftrightarrow> ((table_view t)(k := None)) k' = Some v"
    by (auto simp: table_view_eq_Some [OF ok] table_view_eq_Some [OF ok'])
qed

lemma strcpy_exact: "is_cstr m \<Longrightarrow> strcpy (replicate (Suc (length (cstr m))) 0) m = Inr (cstr m @ [0])"
  by (induction m) auto

lemma strdup_copies: "is_cstr m \<Longrightarrow> alloc (length (cstr m) + 1) \<Longrightarrow> strdup alloc (Some m) = Inr (Some (cstr m @ [0]))"
  using strcpy_exact [of m] by (simp add: strdup_def)

lemma card_update:
  fixes t :: "hslot list"
  assumes "1 \<le> i" "i \<le> sz" "length t = sz + 1"
  shows "card {j \<in> {1..sz}. P (t[i := s] ! j)} + (if P (t ! i) then 1 else 0)
    = card {j \<in> {1..sz}. P (t ! j)} + (if P s then 1 else 0)"
proof -
  let ?A = "{j \<in> {1..sz}. j \<noteq> i \<and> P (t ! j)}"
  have 1: "{j \<in> {1..sz}. P (t[i := s] ! j)} = (if P s then insert i ?A else ?A)"
    using assms by (auto simp: nth_list_update)
  have 2: "{j \<in> {1..sz}. P (t ! j)} = (if P (t ! i) then insert i ?A else ?A)"
    using assms by auto
  show ?thesis unfolding 1 2 by simp
qed

subsection \<open>Storing and deleting\<close>

lemma store_invE:
  assumes "store_inv htab"
  obtains t where "htable htab = Some t" "table_ok (hsize htab) t"
    "filled htab = of_nat (card {i \<in> {1..hsize htab}. live (t ! i)})"
  using assms by (auto simp: store_inv_def)

text \<open>
  One changed slot: the invariant and the number of unused slots of the table afterwards.
\<close>

lemma store_inv_update:
  assumes t: "htable htab = Some t" "table_ok (hsize htab) t"
      "filled htab = of_nat (card {i \<in> {1..hsize htab}. live (t ! i)})"
    and i: "1 \<le> i" "i \<le> hsize htab" and ok': "table_ok (hsize htab) (t[i := s])" and nz: "used s \<noteq> 0"
    and f: "f + (if live (t ! i) then 1 else 0) = filled htab + (if live s then 1 else 0)"
  shows "store_inv (htab\<lparr>htable := Some (t[i := s]), filled := f\<rparr>)"
    and "store_free htab \<le> store_free (htab\<lparr>htable := Some (t[i := s]), filled := f\<rparr>) + 1"
    and "used (t ! i) \<noteq> 0 \<Longrightarrow> store_free (htab\<lparr>htable := Some (t[i := s]), filled := f\<rparr>) = store_free htab"
proof -
  have len: "length t = hsize htab + 1" using t by (simp add: table_ok_def)
  let ?n = "card {j \<in> {1..hsize htab}. live (t[i := s] ! j)}" and ?m = "card {j \<in> {1..hsize htab}. live (t ! j)}"
  have "?n + (if live (t ! i) then 1 else 0) = ?m + (if live s then 1 else 0)"
    using card_update [OF i len, of live s] .
  then have "of_nat (?n + (if live (t ! i) then 1 else 0)) = (of_nat (?m + (if live s then 1 else 0)) :: u32)"
    by (rule arg_cong)
  then have "of_nat ?n + (if live (t ! i) then 1 else 0) = f + (if live (t ! i) then 1 else (0 :: u32))"
    unfolding f t(3) by (simp split: if_splits)
  then have "f = of_nat ?n" by (simp only: add_right_cancel)
  then show "store_inv (htab\<lparr>htable := Some (t[i := s]), filled := f\<rparr>)"
    using ok' by (simp add: store_inv_def)
  have c: "card {j \<in> {1..hsize htab}. used (t[i := s] ! j) = 0} + (if used (t ! i) = 0 then 1 else 0)
      = card {j \<in> {1..hsize htab}. used (t ! j) = 0}"
    using card_update [OF i len, of "\<lambda>s. used s = 0" s] nz by simp
  then show "store_free htab \<le> store_free (htab\<lparr>htable := Some (t[i := s]), filled := f\<rparr>) + 1"
    and "used (t ! i) \<noteq> 0 \<Longrightarrow> store_free (htab\<lparr>htable := Some (t[i := s]), filled := f\<rparr>) = store_free htab"
    using t(1) by (auto simp: store_free_def split: if_splits)
qed

lemma hash1_pos: "3 \<le> sz \<Longrightarrow> 0 < hash1 sz k"
  using hash1_range [of sz k] by simp

lemma hsearch_enter_present:
  assumes inv: "store_inv htab" and key: "is_cstr key" and data: "is_cstr data"
    and alloc: "\<And>n. alloc n" and present: "store_view htab (cstr key) \<noteq> None"
  shows "\<exists>r i htab'. hsearch_r alloc key (Some data) ENTER htab = Inr (r, Some i, htab') \<and> 0 < r
    \<and> store_inv htab' \<and> store_view htab' = (store_view htab)(cstr key \<mapsto> cstr data)
    \<and> store_free htab' = store_free htab"
proof -
  from inv obtain t where t: "htable htab = Some t" "table_ok (hsize htab) t"
    "filled htab = of_nat (card {i \<in> {1..hsize htab}. live (t ! i)})" by (rule store_invE)
  let ?k = "cstr key"
  obtain v where "table_view t ?k = Some v" using present t(1) by (auto simp: store_view_def)
  then obtain i where i: "1 \<le> i" "i \<le> hsize htab" "holds ?k (t ! i)" by (auto simp: table_view_eq_Some [OF t(2)])
  obtain p where p: "hsearch_probe t (hsize htab) (hash1 (hsize htab) ?k) key =
      Inr (p, if used (t ! hash1 (hsize htab) ?k) = -1 then hash1 (hsize htab) ?k else 0)" "outcome (hsize htab) t ?k p"
    using hsearch_probe_outcome [OF t(2) key] by blast
  have found: "p = Found i" using outcome_present [OF t(2) i p(2)] .
  let ?s = "(t ! i)\<lparr>hdata := Some (cstr data @ [0])\<rparr>"
  have li: "live (t ! i)" and ki: "key_of (t ! i) = ?k" using i(3) by (auto simp: holds_def)
  have lt: "live ?s" "key_of ?s = ?k" "data_of ?s = cstr data" "used ?s \<noteq> 0"
    using li ki cstr_no_0 [of data] by (auto simp: live_def)
  have ok': "table_ok (hsize htab) (t[i := ?s])"
  proof (rule table_ok_update [OF t(2) i(1,2) lt(4)])
    have "slot_ok (hsize htab) (t ! i)" using t(2) i by (simp add: table_ok_def)
    then show "slot_ok (hsize htab) ?s" using li by (simp add: slot_ok_def live_def)
    show "\<exists>n < hsize htab. place (hsize htab) (key_of ?s) n = i
        \<and> (\<forall>j<n. used (t ! place (hsize htab) (key_of ?s) j) \<noteq> 0)"
      unfolding lt(2) using table_ok_reach [OF t(2) i] .
    show "\<not> holds (key_of ?s) (t ! j)" if "1 \<le> j" "j \<le> hsize htab" "j \<noteq> i" for j
      unfolding lt(2) using table_ok_unique [OF t(2) i that(1,2)] that(3) by blast
  qed
  let ?h = "htab\<lparr>htable := Some (t[i := ?s]), filled := filled htab\<rparr>"
  note upd = store_inv_update [OF t i(1,2) ok' lt(4), of "filled htab"]
  have "table_view (t[i := ?s]) = (table_view t)(?k \<mapsto> cstr data)"
    using view_update [OF t(2) ok' i(1,2) lt(1)] lt(2,3) ki by simp
  then have "store_view ?h = (store_view htab)(?k \<mapsto> cstr data)" using t(1) by (simp add: store_view_def)
  moreover have "hsearch_r alloc key (Some data) ENTER htab = Inr (i, Some i, ?h)"
    using t(1) p(1) key found strdup_copies [OF data, of alloc] alloc cstr_take [OF key]
    by (simp add: hsearch_r_def Let_def)
  moreover have "store_inv ?h" "store_free ?h = store_free htab"
    using upd(1,3) li lt(1) by (auto simp: live_def)
  moreover have "0 < i" using i(1) by simp
  ultimately show ?thesis by blast
qed

lemma hsearch_enter_absent:
  assumes inv: "store_inv htab" and key: "is_cstr key" and data: "is_cstr data"
    and alloc: "\<And>n. alloc n" and absent: "store_view htab (cstr key) = None" and free: "0 < store_free htab"
  shows "\<exists>r i htab'. hsearch_r alloc key (Some data) ENTER htab = Inr (r, Some i, htab') \<and> 0 < r
    \<and> store_inv htab' \<and> store_view htab' = (store_view htab)(cstr key \<mapsto> cstr data)
    \<and> store_free htab \<le> store_free htab' + 1"
proof -
  from inv obtain t where t: "htable htab = Some t" "table_ok (hsize htab) t"
    "filled htab = of_nat (card {i \<in> {1..hsize htab}. live (t ! i)})" by (rule store_invE)
  let ?k = "cstr key" and ?sz = "hsize htab"
  let ?h = "hash1 ?sz ?k"
  have sz: "3 \<le> ?sz" "?sz < 2 ^ 31" "all_coprime ?sz" "length t = ?sz + 1" using t(2) by (auto simp: table_ok_def)
  have none: "\<not> holds ?k (t ! i)" if "1 \<le> i" "i \<le> ?sz" for i
    using absent t(1) that by (simp add: store_view_def table_view_eq_None [OF t(2)])
  obtain e where e: "1 \<le> e" "e \<le> ?sz" "used (t ! e) = 0"
    using free t(1) by (auto simp: store_free_def card_gt_0_iff)
  obtain p where p: "hsearch_probe t ?sz ?h key = Inr (p, if used (t ! ?h) = -1 then ?h else 0)" "outcome ?sz t ?k p"
    using hsearch_probe_outcome [OF t(2) key] by blast
  obtain n where n: "n \<le> ?sz" "p = Stopped (place ?sz ?k n)" "passed ?sz t ?k n"
      "n < ?sz \<longrightarrow> used (t ! place ?sz ?k n) = 0"
    using outcome_absent [OF t(2) none p(2)] by blast
  have "n < ?sz"
    using n(1,3) place_covers [OF sz(1,3) e(1,2), of ?k] e(3) by (metis le_neq_implies_less passed_def)
  define m where "m = (if used (t ! ?h) = -1 then 0 else n)"
  define i where "i = place ?sz ?k m"
  have i: "1 \<le> i" "i \<le> ?sz" using place_range [OF sz(1)] by (auto simp: i_def)
  have idx: "(if (if used (t ! ?h) = -1 then ?h else 0) \<noteq> 0 then (if used (t ! ?h) = -1 then ?h else 0)
      else place ?sz ?k n) = i"
    using hash1_pos [OF sz(1), of ?k] by (auto simp: i_def m_def)
  have dead: "\<not> live (t ! i)" using n(4) \<open>n < ?sz\<close> by (auto simp: i_def m_def live_def)
  let ?s = "\<lparr>used = int ?h, hkey = Some (?k @ [0]), hdata = Some (cstr data @ [0])\<rparr>"
  have lt: "live ?s" "key_of ?s = ?k" "data_of ?s = cstr data" "used ?s \<noteq> 0"
    using hash1_pos [OF sz(1), of ?k] cstr_no_0 [of data] cstr_no_0 [of key] by (auto simp: live_def)
  have ok': "table_ok ?sz (t[i := ?s])"
  proof (rule table_ok_update [OF t(2) i lt(4)])
    show "slot_ok ?sz ?s" using cstr_no_0 [of key] by (simp add: slot_ok_def)
    show "\<exists>n < ?sz. place ?sz (key_of ?s) n = i \<and> (\<forall>j<n. used (t ! place ?sz (key_of ?s) j) \<noteq> 0)"
      unfolding lt(2) using n(3) \<open>n < ?sz\<close> sz(1) by (intro exI [of _ m]) (auto simp: i_def m_def passed_def)
    show "\<not> holds (key_of ?s) (t ! j)" if "1 \<le> j" "j \<le> ?sz" for j
      unfolding lt(2) using none [OF that] .
  qed
  let ?h' = "htab\<lparr>htable := Some (t[i := ?s]), filled := filled htab + 1\<rparr>"
  have upd: "store_inv ?h'" "store_free htab \<le> store_free ?h' + 1"
    using store_inv_update(1,2) [OF t i ok' lt(4), of "filled htab + 1"] dead lt(1) by simp_all
  have "card {i \<in> {1..?sz}. live (t ! i)} \<le> card ({1..?sz} - {e})"
    using e by (intro card_mono) (auto simp: live_def)
  then have "card {i \<in> {1..?sz}. live (t ! i)} < ?sz" using e by simp
  then have "filled htab \<noteq> of_nat ?sz"
    unfolding t(3) using sz(2) by (simp add: of_nat_eq_iff word_of_nat_eq_iff take_bit_nat_eq_self)
  then have "hsearch_r alloc key (Some data) ENTER htab = Inr (1, Some i, ?h')"
    using t(1) p(1) key n(2) idx strdup_copies [OF data, of alloc] strdup_copies [OF key, of alloc] alloc cstr_take [OF key]
    by (simp add: hsearch_r_def Let_def)
  moreover have "store_view ?h' = (store_view htab)(?k \<mapsto> cstr data)"
    using view_update [OF t(2) ok' i lt(1)] lt(2,3) dead t(1) by (simp add: store_view_def)
  ultimately show ?thesis using upd by (metis zero_less_one)
qed

lemma hdelete_ok:
  assumes inv: "store_inv htab" and key: "is_cstr key"
  shows "\<exists>r htab'. hdelete_r key htab = Inr (r, htab') \<and> store_inv htab' \<and> (r = 0 \<longleftrightarrow> store_view htab (cstr key) = None)
    \<and> store_view htab' = (store_view htab)(cstr key := None) \<and> store_free htab' = store_free htab"
proof -
  from inv obtain t where t: "htable htab = Some t" "table_ok (hsize htab) t"
    "filled htab = of_nat (card {i \<in> {1..hsize htab}. live (t ! i)})" by (rule store_invE)
  show ?thesis
  proof (cases "store_view htab (cstr key)")
    case None
    then have "hdelete_r key htab = Inr (0, htab)"
      using hsearch_find [OF inv key, of "\<lambda>_. True" None] by (auto simp: hdelete_r_def)
    then show ?thesis using inv None by (auto simp: fun_upd_idem)
  next
    case (Some v)
    then obtain i where i: "1 \<le> i" "i \<le> hsize htab" "holds (cstr key) (t ! i)"
      and f: "hsearch_r (\<lambda>_. True) key None FIND htab = Inr (i, Some i, htab)"
      using hsearch_find [OF inv key, of "\<lambda>_. True" None] t(1) by auto
    let ?s = "\<lparr>used = -1, hkey = None, hdata = None\<rparr>"
    have dead: "\<not> live ?s" "used ?s \<noteq> 0" and li: "live (t ! i)" using i(3) by (auto simp: live_def holds_def)
    have ok': "table_ok (hsize htab) (t[i := ?s])"
      by (rule table_ok_update [OF t(2) i(1,2)]) (use dead in \<open>auto simp: slot_ok_def\<close>)
    let ?h = "htab\<lparr>htable := Some (t[i := ?s]), filled := filled htab - 1\<rparr>"
    have "hdelete_r key htab = Inr (1, ?h)" using f t(1) i(1) by (simp add: hdelete_r_def)
    moreover have "store_inv ?h" "store_free ?h = store_free htab"
      using store_inv_update(1,3) [OF t i(1,2) ok' dead(2), of "filled htab - 1"] li dead(1) by (auto simp: live_def)
    moreover have "store_view ?h = (store_view htab)(cstr key := None)"
      using view_delete [OF t(2) ok' i(1,2) dead(1) i(3)] t(1) by (simp add: store_view_def)
    ultimately show ?thesis using Some by auto
  qed
qed

end
