(* ===== verification/Env_Text.thy ===== *)
theory Env_Text
  imports Env_Hash
begin

text \<open>
  The environment as a text: what \<open>himport_r\<close> makes of the text that \<open>hexport_r\<close> writes.  The locale
  \<open>string_store\<close> is the contract between the two: the table is a map from names to values, of which
  storing takes at most one unused slot.  It is interpreted with the hash table.
\<close>

section \<open>Stores\<close>

fun put_all :: "(u8 list \<Rightarrow> u8 list \<Rightarrow> 's \<Rightarrow> 's option) \<Rightarrow> (u8 list \<times> u8 list) list \<Rightarrow> 's \<Rightarrow> 's option" where
  "put_all put [] s = Some s"
| "put_all put ((k, v) # kvs) s = (case put k v s of None \<Rightarrow> None | Some s' \<Rightarrow> put_all put kvs s')"

locale string_store =
  fixes inv :: "'s \<Rightarrow> bool" and view :: "'s \<Rightarrow> u8 list \<Rightarrow> u8 list option" and free :: "'s \<Rightarrow> nat"
    and put :: "u8 list \<Rightarrow> u8 list \<Rightarrow> 's \<Rightarrow> 's option" and del :: "u8 list \<Rightarrow> 's \<Rightarrow> 's option"
  assumes put_law: "\<lbrakk>inv s; 0 \<notin> set k; 0 \<notin> set v; view s k \<noteq> None \<or> 0 < free s\<rbrakk> \<Longrightarrow>
      \<exists>s'. put k v s = Some s' \<and> inv s' \<and> view s' = (view s)(k \<mapsto> v) \<and> free s \<le> free s' + 1"
    and del_law: "\<lbrakk>inv s; 0 \<notin> set k\<rbrakk> \<Longrightarrow>
      \<exists>s'. del k s = Some s' \<and> inv s' \<and> view s' = (view s)(k := None) \<and> free s' = free s"
begin

lemma put_all_law:
  "\<lbrakk>inv s; length kvs \<le> free s; \<forall>(k, v)\<in>set kvs. 0 \<notin> set k \<and> 0 \<notin> set v\<rbrakk> \<Longrightarrow>
     \<exists>s'. put_all put kvs s = Some s' \<and> inv s' \<and> view s' = view s ++ map_of (rev kvs)"
proof (induction kvs arbitrary: s)
  case (Cons kv kvs)
  obtain k v where kv: "kv = (k, v)" by fastforce
  then obtain s' where s': "put k v s = Some s'" "inv s'" "view s' = (view s)(k \<mapsto> v)" "free s \<le> free s' + 1"
    using put_law [of s k v] Cons.prems by auto
  then obtain s'' where "put_all put kvs s' = Some s''" "inv s''" "view s'' = view s' ++ map_of (rev kvs)"
    using Cons.IH [of s'] Cons.prems(2,3) by (force simp del: fun_upd_apply)
  moreover have "view s' ++ map_of (rev kvs) = view s ++ map_of (rev (kv # kvs))"
    using s'(3) kv by (simp add: map_add_def fun_eq_iff split: option.split)
  ultimately show ?case using s' kv by auto
qed simp

lemma put_then_del:
  assumes "inv s" "0 \<notin> set k" "0 \<notin> set v" "0 < free s" "view s k = None"
  shows "\<exists>s' s''. put k v s = Some s' \<and> del k s' = Some s'' \<and> inv s'' \<and> view s'' = view s"
proof -
  obtain s' where s': "put k v s = Some s'" "inv s'" "view s' = (view s)(k \<mapsto> v)"
    using put_law [of s k v] assms by auto
  moreover obtain s'' where "del k s' = Some s''" "inv s''" "view s'' = (view s')(k := None)"
    using del_law [OF s'(2) assms(2)] by auto
  ultimately show ?thesis using assms(5) by (auto simp: fun_upd_idem)
qed

end

section \<open>The hash table is a store\<close>

definition env_put :: "u8 list \<Rightarrow> u8 list \<Rightarrow> hsearch_data \<Rightarrow> hsearch_data option" where
  "env_put k v htab =
     (case hsearch_r (\<lambda>_. True) (k @ [0]) (Some (v @ [0])) ENTER htab of
        Inr (_, Some _, htab') \<Rightarrow> Some htab' | _ \<Rightarrow> None)"

definition env_del :: "u8 list \<Rightarrow> hsearch_data \<Rightarrow> hsearch_data option" where
  "env_del k htab = (case hdelete_r (k @ [0]) htab of Inr (_, htab') \<Rightarrow> Some htab' | Inl _ \<Rightarrow> None)"

lemma env_put_hsearch:
  "env_put k v htab = Some htab' \<longleftrightarrow>
     (\<exists>r i. hsearch_r (\<lambda>_. True) (k @ [0]) (Some (v @ [0])) ENTER htab = Inr (r, Some i, htab'))"
  by (auto simp: env_put_def split: sum.splits option.splits)

interpretation env: string_store store_inv store_view store_free env_put env_del
proof
  fix s and k v :: "u8 list" assume a: "store_inv s" "0 \<notin> set k" "0 \<notin> set v" "store_view s k \<noteq> None \<or> 0 < store_free s"
  have c: "is_cstr (k @ [0])" "is_cstr (v @ [0])" "cstr (k @ [0]) = k" "cstr (v @ [0]) = v"
    using a by auto
  show "\<exists>s'. env_put k v s = Some s' \<and> store_inv s' \<and> store_view s' = (store_view s)(k \<mapsto> v)
      \<and> store_free s \<le> store_free s' + 1"
  proof (cases "store_view s k")
    case None
    then show ?thesis
      using hsearch_enter_absent [OF a(1) c(1,2), of "\<lambda>_. True"] a(4) c(3,4) by (fastforce simp: env_put_hsearch)
  next
    case (Some v')
    then show ?thesis
      using hsearch_enter_present [OF a(1) c(1,2), of "\<lambda>_. True"] c(3,4) by (fastforce simp: env_put_hsearch)
  qed
next
  fix s k assume a: "store_inv s" "(0 :: u8) \<notin> set k"
  then show "\<exists>s'. env_del k s = Some s' \<and> store_inv s' \<and> store_view s' = (store_view s)(k := None)
      \<and> store_free s' = store_free s"
    using hdelete_ok [OF a(1), of "k @ [0]"] by (auto simp: env_del_def)
qed

section \<open>Importing a text\<close>

definition env_line :: "u8 \<Rightarrow> u8 list \<times> u8 list \<Rightarrow> u8 list" where
  "env_line sep kv = fst kv @ [61] @ escaped sep (snd kv) @ [sep]"

definition env_text :: "u8 \<Rightarrow> (u8 list \<times> u8 list) list \<Rightarrow> u8 list" where
  "env_text sep kvs = concat (map (env_line sep) kvs)"

text \<open>Names and values that survive: a value is not empty, a name does not look like something else.\<close>

definition plain_name :: "u8 \<Rightarrow> u8 list \<Rightarrow> bool" where
  "plain_name sep k \<longleftrightarrow> k \<noteq> [] \<and> hd k \<notin> {32, 9, 35} \<and> 0 \<notin> set k \<and> 61 \<notin> set k \<and> sep \<notin> set k"

definition plain_value :: "u8 list \<Rightarrow> bool" where
  "plain_value v \<longleftrightarrow> v \<noteq> [] \<and> 0 \<notin> set v"

lemma span_c_split: "(\<forall>c\<in>set s. P c) \<Longrightarrow> \<not> P c \<Longrightarrow> span_c P (s @ c # r) = Inr (s, c # r)"
  by (induction s) auto

lemma unescape_escaped:
  assumes "sep \<noteq> 92"
  shows "0 \<notin> set v \<Longrightarrow> unescape sep (escaped sep v @ sep # r) = Inr (v, sep # r)"
proof (induction v)
  case Nil
  then show ?case by (simp add: escaped_def)
next
  case (Cons c v)
  then have IH: "unescape sep (escaped sep v @ sep # r) = Inr (v, sep # r)" and c: "c \<noteq> 0" by auto
  have "escaped sep (c # v) = (if c = sep \<or> c = 92 then [92, c] else [c]) @ escaped sep v"
    by (simp add: escaped_def)
  then show ?case using IH c assms by (cases "escaped sep v") auto
qed

lemma import_item_line:
  assumes "plain_name sep k" "plain_value v" "sep \<notin> {61, 92}"
  shows "import_item sep (env_line sep (k, v) @ r) = Inr (Enter k v, r)"
proof -
  obtain c ks where k: "k = c # ks" using assms(1) by (cases k) (auto simp: plain_name_def)
  obtain e es where e: "escaped sep v = e # es" "e \<noteq> 0" "e \<noteq> sep"
  proof (cases v)
    case (Cons a w)
    then show ?thesis
      using assms(2,3) that by (cases "a = sep \<or> a = 92") (auto simp: plain_value_def escaped_def)
  qed (use assms(2) in \<open>simp add: plain_value_def\<close>)
  have blank: "span_c (\<lambda>c. c = 32 \<or> c = 9) (env_line sep (k, v) @ r) = Inr ([], env_line sep (k, v) @ r)"
    using assms(1) k by (simp add: env_line_def plain_name_def)
  have name: "span_c (\<lambda>c. c \<noteq> 61 \<and> c \<noteq> 0 \<and> c \<noteq> sep) (env_line sep (k, v) @ r)
      = Inr (k, 61 # escaped sep v @ sep # r)"
    using assms(1) span_c_split [of k "\<lambda>c. c \<noteq> 61 \<and> c \<noteq> 0 \<and> c \<noteq> sep" 61 "escaped sep v @ sep # r"]
    by (auto simp: env_line_def plain_name_def)
  have val: "unescape sep (e # es @ sep # r) = Inr (v, sep # r)"
    using unescape_escaped [of sep v r] assms(2,3) e(1) by (simp add: plain_value_def)
  have "hd (env_line sep (k, v) @ r) \<noteq> 35" using assms(1) k by (simp add: env_line_def plain_name_def)
  then show ?thesis
    using blank name e val assms(3) by (simp add: import_item_def del: span_c.simps unescape.simps)
qed

lemma import_loop_text:
  assumes "sep \<notin> {61, 92}"
  shows "\<lbrakk>kvs \<noteq> []; \<forall>(k, v)\<in>set kvs. plain_name sep k \<and> plain_value v; put_all env_put kvs htab = Some htab'\<rbrakk> \<Longrightarrow>
     import_loop (\<lambda>_. True) sep (env_text sep kvs @ 0 # r) htab = Inr (1, htab')"
proof (induction kvs arbitrary: htab)
  case (Cons kv kvs)
  obtain k v where kv: "kv = (k, v)" by fastforce
  then have pl: "plain_name sep k" "plain_value v" using Cons.prems(2) by auto
  obtain h where h: "env_put k v htab = Some h" "put_all env_put kvs h = Some htab'"
    using Cons.prems(3) kv by (auto split: option.splits)
  then obtain n i where n: "hsearch_r (\<lambda>_. True) (k @ [0]) (Some (v @ [0])) ENTER htab = Inr (n, Some i, h)"
    by (auto simp: env_put_hsearch)
  let ?r = "env_text sep kvs @ 0 # r"
  have item: "import_item sep (env_text sep (kv # kvs) @ 0 # r) = Inr (Enter k v, ?r)"
    using import_item_line [OF pl assms, of ?r] by (simp add: env_text_def kv)
  have step: "import_loop (\<lambda>_. True) sep (env_text sep (kv # kvs) @ 0 # r) htab
      = (if hd ?r = 0 then Inr (1, h) else import_loop (\<lambda>_. True) sep ?r h)"
    by (subst import_loop.simps) (simp add: item n)
  show ?case
  proof (cases kvs)
    case Nil
    then show ?thesis using step h(2) by (simp add: env_text_def)
  next
    case (Cons kv' kvs')
    then have "hd ?r \<noteq> 0"
      using Cons.prems(2) by (cases "fst kv'") (auto simp: env_text_def env_line_def plain_name_def)
    then show ?thesis using step h(2) Cons.IH [of h] Cons.prems(2) Cons by simp
  qed
qed simp

section \<open>A new table\<close>

lemma isprime_loop_facts:
  assumes "odd dv" "3 \<le> dv" "\<forall>d. odd d \<longrightarrow> 3 \<le> d \<longrightarrow> d < dv \<longrightarrow> \<not> d dvd n"
  shows "3 \<le> isprime_loop n dv \<and> (\<forall>d. odd d \<longrightarrow> 3 \<le> d \<longrightarrow> d < isprime_loop n dv \<longrightarrow> \<not> d dvd n)
    \<and> (n \<le> isprime_loop n dv * isprime_loop n dv \<or> n mod isprime_loop n dv = 0)"
  using assms
proof (induction n dv rule: isprime_loop.induct)
  case (1 n dv)
  show ?case
  proof (cases "dv * dv < n \<and> n mod dv \<noteq> 0")
    case True
    have "\<not> d dvd n" if "odd d" "3 \<le> d" "d < dv + 2" for d
    proof -
      have "d \<noteq> dv + 1" using that(1) 1(2) by auto
      then have "d < dv \<or> d = dv" using that(3) by linarith
      then show ?thesis using 1(4) that True by (auto simp: mod_eq_0_iff_dvd)
    qed
    moreover have e: "isprime_loop n dv = isprime_loop n (dv + 2)" using True by (subst isprime_loop.simps) simp
    ultimately show ?thesis unfolding e using 1(1) [OF True] 1(2,3) by simp
  next
    case False
    then have e: "isprime_loop n dv = dv" by (subst isprime_loop.simps) auto
    show ?thesis unfolding e using 1(2-) False by auto
  qed
qed

lemma isprime_coprime:
  assumes "isprime n" "odd n" "3 < n"
  shows "all_coprime n"
proof -
  let ?r = "isprime_loop n 3"
  have r: "\<And>d. odd d \<Longrightarrow> 3 \<le> d \<Longrightarrow> d < ?r \<Longrightarrow> \<not> d dvd n" "n \<le> ?r * ?r" "\<not> ?r dvd n"
    using isprime_loop_facts [of 3 n] assms(1) by (auto simp: isprime_def mod_eq_0_iff_dvd)
  have no: "\<not> m dvd n" if "1 < m" "m * m \<le> n" for m
  proof
    assume d: "m dvd n"
    have "m \<le> ?r"
    proof (rule ccontr)
      assume "\<not> m \<le> ?r"
      then have "?r * ?r < m * m" by (intro mult_strict_mono) auto
      then show False using that(2) r(2) by linarith
    qed
    moreover have "odd m" using d assms(2) by (metis dvd_trans)
    moreover have "3 \<le> m"
    proof -
      have "m \<noteq> 2" using \<open>odd m\<close> by auto
      then show ?thesis using that(1) by simp
    qed
    ultimately show False using r(1,3) d by (metis le_neq_implies_less)
  qed
  have "gcd h n = 1" if "1 \<le> h" "h < n" for h
  proof (rule ccontr)
    let ?g = "gcd h n"
    assume "?g \<noteq> 1"
    moreover have "?g \<noteq> 0" using that by simp
    ultimately have g: "1 < ?g" by linarith
    obtain q where q: "n = ?g * q" using dvd_def gcd_dvd2 by blast
    have "?g \<le> h" using that by (simp add: gcd_le1_nat)
    then have "q \<noteq> 1" using q that(2) by (metis leD mult.right_neutral)
    moreover have "q \<noteq> 0" using q assms(3) by (metis mult_0_right not_less_zero)
    ultimately have "1 < q" by linarith
    show False
    proof (cases "?g \<le> q")
      case True
      then have "?g * ?g \<le> n" using q by (metis mult_le_mono2)
      then show False using no [OF g] by (simp add: gcd_dvd2)
    next
      case False
      then have "q * q \<le> n" using q by (metis mult_le_mono1 nat_le_linear)
      moreover have "q dvd n" using q by (metis dvd_triv_right)
      ultimately show False using no [OF \<open>1 < q\<close>] by simp
    qed
  qed
  then show ?thesis by (auto simp: all_coprime_def coprime_iff_gcd_eq_1)
qed

lemma next_prime_finds:
  "\<lbrakk>isprime p; odd p; odd n; n \<le> p; p < n + 2 * fuel\<rbrakk> \<Longrightarrow>
     \<exists>q. next_prime fuel n = Inr q \<and> isprime q \<and> odd q \<and> n \<le> q \<and> q \<le> p"
proof (induction fuel arbitrary: n)
  case (Suc fuel)
  show ?case
  proof (cases "isprime n")
    case False
    then have "n \<noteq> p" using Suc.prems(1) by blast
    moreover have "Suc n \<noteq> p" using Suc.prems(2,3) by auto
    ultimately have "n + 2 \<le> p" using Suc.prems(4) by linarith
    then show ?thesis using Suc.IH [of "n + 2"] Suc.prems False by auto
  qed (use Suc.prems in auto)
qed simp

lemma isprime_521: "isprime 521"
  by code_simp

lemma or_1: "odd (n OR 1 :: nat)" "n \<le> n OR 1" "n OR 1 \<le> n + 1"
  unfolding or_one_eq by simp_all

definition no_table :: hsearch_data where
  "no_table = \<lparr>htable = None, hsize = 0, filled = 0\<rparr>"

lemma empty_table_ok:
  assumes "3 \<le> sz" "sz < 2 ^ 31" "all_coprime sz" "htable htab = Some (replicate (sz + 1) empty_slot)"
    "hsize htab = sz" "filled htab = 0"
  shows "store_inv htab" "store_view htab = Map.empty" "store_free htab = sz"
proof -
  define t where "t = replicate (sz + 1) empty_slot"
  have nth: "t ! i = empty_slot" if "i \<le> sz" for i
    using that by (simp add: t_def del: replicate_Suc)
  have len: "length t = sz + 1" by (simp add: t_def)
  have dead: "\<not> live empty_slot" by (simp add: live_def empty_slot_def)
  have h: "htable htab = Some t" by (simp add: assms(4) t_def)
  have ok: "table_ok sz t"
    unfolding table_ok_def using assms(1-3) nth dead len by (simp add: slot_ok_def)
  have "{i \<in> {1..sz}. live (t ! i)} = {}" using nth dead by auto
  then have "card {i \<in> {1..sz}. live (t ! i)} = 0" by (simp only: card.empty)
  then show "store_inv htab"
    unfolding store_inv_def assms(5,6) h using ok by (metis semiring_1_class.of_nat_0)
  show "store_view htab = Map.empty"
    using nth dead by (intro view_ext) (auto simp: store_view_def h table_view_eq_Some [OF ok] holds_def)
  have "{i \<in> {1..sz}. used (t ! i) = 0} = {1..sz}" using nth by (auto simp: empty_slot_def)
  then show "store_free htab = sz" unfolding store_free_def assms(5) h by simp
qed

lemma hcreate_ok:
  assumes "4 \<le> nel" "nel \<le> 512" "htable htab = None"
  shows "\<exists>htab'. hcreate_r (\<lambda>_. True) nel htab = Inr (1, htab') \<and> store_inv htab' \<and> store_view htab' = Map.empty
    \<and> nel \<le> store_free htab'"
proof -
  obtain q where q: "next_prime (nel + 512) (nel OR 1) = Inr q" "isprime q" "odd q" "nel OR 1 \<le> q" "q \<le> 521"
    using next_prime_finds [OF isprime_521, of "nel OR 1" "nel + 512"] or_1 [of nel] assms by auto
  have "3 < q" "nel \<le> q" using q(4) or_1(2) [of nel] assms(1) by linarith+
  let ?h = "htab\<lparr>hsize := q, filled := 0, htable := Some (replicate (q + 1) empty_slot)\<rparr>"
  have e: "store_inv ?h" "store_view ?h = Map.empty" "store_free ?h = q"
    using empty_table_ok [of q ?h] isprime_coprime [OF q(2,3) \<open>3 < q\<close>] \<open>3 < q\<close> q(5) by simp_all
  have "hcreate_r (\<lambda>_. True) nel htab = Inr (1, ?h)" using q(1) assms(3) by (simp add: hcreate_r_def)
  then show ?thesis using e \<open>nel \<le> q\<close> by auto
qed

lemma himport_text:
  assumes "sep \<notin> {61, 92}" "kvs \<noteq> []" "length kvs \<le> 64" "\<forall>(k, v)\<in>set kvs. plain_name sep k \<and> plain_value v"
    and env: "env = env_text sep kvs @ 0 # r" and none: "htable htab = None"
  shows "\<exists>htab'. himport_r (\<lambda>_. True) htab env (length env) sep noclear = Inr (1, htab')
    \<and> store_inv htab' \<and> store_view htab' = map_of (rev kvs)"
proof -
  let ?n = "min (64 + length env div 8) 512"
  obtain h where h: "hcreate_r (\<lambda>_. True) ?n htab = Inr (1, h)" "store_inv h" "store_view h = Map.empty" "?n \<le> store_free h"
    using hcreate_ok [of ?n htab] none by auto
  have "length kvs \<le> store_free h" using h(4) assms(3) by linarith
  moreover have "\<forall>(k, v)\<in>set kvs. 0 \<notin> set k \<and> 0 \<notin> set v"
    using assms(4) by (auto simp: plain_name_def plain_value_def)
  ultimately obtain h' where h': "put_all env_put kvs h = Some h'" "store_inv h'" "store_view h' = store_view h ++ map_of (rev kvs)"
    using env.put_all_law [OF h(2)] by blast
  have "import_loop (\<lambda>_. True) sep env h = Inr (1, h')"
    unfolding env by (rule import_loop_text [OF assms(1,2,4) h'(1)])
  then have "himport_r (\<lambda>_. True) htab env (length env) sep noclear = Inr (1, h')"
    using h(1) none by (simp add: himport_r_def Let_def)
  then show ?thesis using h' h(3) by simp
qed

section \<open>Exporting a table\<close>

definition key_ptr :: "hslot list \<Rightarrow> mem \<Rightarrow> bool" where
  "key_ptr t p \<longleftrightarrow> hkey (t ! le_addr p) \<noteq> None \<and> ascii_ptr (\<lambda>a. the (hkey (t ! a))) p"

lemma cmpkey_strcmp:
  "key_ptr t p \<Longrightarrow> key_ptr t q \<Longrightarrow> cmpkey t p q = strcmp_compar (\<lambda>a. the (hkey (t ! a))) p q"
  by (auto simp: cmpkey_def strcmp_compar_def key_ptr_def deref_def)

interpretation keys: comparator "cmpkey t" "key_ptr t" for t
proof
  fix x y z assume x: "key_ptr t x" and y: "key_ptr t y"
  let ?s = "\<lambda>a. the (hkey (t ! a))"
  have a: "ascii_ptr ?s x" "ascii_ptr ?s y" using x y by (auto simp: key_ptr_def)
  have b: "below (cmpkey t) p q = below (strcmp_compar ?s) p q" if "key_ptr t p" "key_ptr t q" for p q
    by (simp add: below_def cmpkey_strcmp [OF that])
  show "\<exists>r. cmpkey t x y = Inr r" using strings.returns [OF a] cmpkey_strcmp [OF x y] by simp
  show "below (cmpkey t) x y \<or> below (cmpkey t) y x" using strings.total [OF a] b x y by simp
  assume z: "key_ptr t z" and "below (cmpkey t) x y" "below (cmpkey t) y z"
  then show "below (cmpkey t) x z" using strings.trans [OF a] b x y by (auto simp: key_ptr_def)
qed

lemma le_addr_entry_ptr:
  assumes "i < 2 ^ 32"
  shows "le_addr (entry_ptr i) = i"
proof -
  have "le_addr (entry_ptr i) = i mod 256 + 256 * (i div 256 mod 256 + 256 * (i div 65536 mod 256 + 256 * (i div 16777216 mod 256)))"
    by (simp add: le_addr_def entry_ptr_def unat_of_nat)
  moreover have "i div 16777216 < 256" using assms by (simp add: less_mult_imp_div_less)
  moreover have "i div 65536 = i div 256 div 256" "i div 16777216 = i div 256 div 256 div 256" by (simp_all add: div_mult2_eq [symmetric])
  ultimately show ?thesis
    by (metis add.commute div_mult_mod_eq mod_less mult.commute)
qed

lemma elem_concat:
  assumes "\<forall>x\<in>set xs. length x = w" "i < length xs"
  shows "elem w (concat xs) (i * w) = xs ! i"
  using assms
proof (induction xs arbitrary: i)
  case (Cons x xs)
  then show ?case by (cases i) (auto simp: elem_def)
qed simp

lemma elems_concat: "\<forall>x\<in>set xs. length x = w \<Longrightarrow> elems w (length xs) (concat xs) = xs"
  by (rule nth_equalityI) (simp_all add: elem_concat)

text \<open>The entries of a table, in the order of the slots.\<close>

definition entry :: "hslot list \<Rightarrow> nat \<Rightarrow> u8 list \<times> u8 list" where
  "entry t i = (key_of (t ! i), data_of (t ! i))"

definition live_slots :: "nat \<Rightarrow> hslot list \<Rightarrow> nat list" where
  "live_slots sz t = filter (\<lambda>i. live (t ! i)) [1..<Suc sz]"

lemma escaped_sep_0: "92 \<notin> set v \<Longrightarrow> 0 \<notin> set v \<Longrightarrow> escaped 0 v = v"
  by (induction v) (auto simp: escaped_def)

lemma entry_room_line:
  assumes "is_cstr k" "is_cstr d" "sep = 0 \<Longrightarrow> 92 \<notin> set (cstr d)"
  shows "entry_room sep k d = Inr (length (env_line sep (cstr k, cstr d)) + 2)"
  using assms escaped_sep_0 [of "cstr d"] cstr_no_0 [of d]
  by (auto simp: entry_room_def env_line_def cstr_take)

lemma export_scan_live:
  assumes ok: "table_ok sz t" and esc: "\<forall>i\<in>{1..sz}. live (t ! i) \<longrightarrow> sep = 0 \<longrightarrow> 92 \<notin> set (data_of (t ! i))"
  shows "\<lbrakk>i + n = Suc sz; 1 \<le> i\<rbrakk> \<Longrightarrow> export_scan sep [] t n i =
     Inr (filter (\<lambda>i. live (t ! i)) [i..<Suc sz],
          sum_list (map (\<lambda>i. length (env_line sep (entry t i)) + 2) (filter (\<lambda>i. live (t ! i)) [i..<Suc sz])))"
proof (induction n arbitrary: i)
  case (Suc n)
  then have i: "i \<in> {1..sz}" "i < length t" using ok by (auto simp: table_ok_def)
  have s: "slot_ok sz (t ! i)" using ok i(1) unfolding table_ok_def by blast
  have IH: "export_scan sep [] t n (i + 1) =
     Inr (filter (\<lambda>i. live (t ! i)) [Suc i..<Suc sz],
          sum_list (map (\<lambda>i. length (env_line sep (entry t i)) + 2) (filter (\<lambda>i. live (t ! i)) [Suc i..<Suc sz])))"
    using Suc.IH [of "i + 1"] Suc.prems by simp
  have upt: "[i..<Suc sz] = i # [Suc i..<Suc sz]" using i(1) by (simp add: upt_conv_Cons del: upt_Suc)
  show ?case
  proof (cases "live (t ! i)")
    case True
    then obtain k d where kd: "hkey (t ! i) = Some k" "hdata (t ! i) = Some d" "is_cstr k" "is_cstr d"
      using s by (auto simp: slot_ok_def)
    moreover have "entry_room sep k d = Inr (length (env_line sep (entry t i)) + 2)"
    proof -
      have "sep = 0 \<Longrightarrow> 92 \<notin> set (cstr d)" using bspec [OF esc i(1)] True kd(2) by simp
      then show ?thesis using entry_room_line [OF kd(3,4), of sep] kd by (simp add: entry_def)
    qed
    ultimately show ?thesis
      using True i(2) IH by (simp add: upt deref_def live_def del: upt_Suc)
  next
    case False
    then show ?thesis using i(2) IH by (simp add: upt live_def del: upt_Suc)
  qed
qed simp

lemma export_lines_text:
  "\<forall>p\<in>set ps. slot_ok sz (t ! le_addr p) \<and> live (t ! le_addr p) \<Longrightarrow>
     export_lines sep t ps = Inr (env_text sep (map (\<lambda>p. entry t (le_addr p)) ps))"
proof (induction ps)
  case (Cons p ps)
  then obtain k d where "hkey (t ! le_addr p) = Some k" "hdata (t ! le_addr p) = Some d" "is_cstr k" "is_cstr d"
    by (auto simp: slot_ok_def)
  then have "export_line sep (t ! le_addr p) = Inr (env_line sep (entry t (le_addr p)))"
    by (simp add: export_line_def deref_def env_line_def entry_def cstr_take)
  then show ?case using Cons by (simp add: env_text_def)
qed (simp add: env_text_def)

lemma live_slots_set: "set (live_slots sz t) = {i. 1 \<le> i \<and> i \<le> sz \<and> live (t ! i)}"
  by (auto simp: live_slots_def simp del: upt_Suc)

lemma entries_are_view:
  assumes ok: "table_ok sz t" and perm: "mset kvs = mset (map (entry t) (live_slots sz t))"
  shows "map_of (rev kvs) = table_view t"
proof (rule view_ext)
  fix k v
  have "distinct (map (fst \<circ> entry t) (live_slots sz t))"
  proof (subst distinct_map, intro conjI inj_onI)
    show "distinct (live_slots sz t)" by (simp add: live_slots_def del: upt_Suc)
    fix i j assume "i \<in> set (live_slots sz t)" "j \<in> set (live_slots sz t)" "(fst \<circ> entry t) i = (fst \<circ> entry t) j"
    then show "i = j"
      by (intro table_ok_unique [OF ok, of i "key_of (t ! i)" j]) (auto simp: live_slots_set holds_def entry_def)
  qed
  moreover have "mset (map fst kvs) = mset (map (fst \<circ> entry t) (live_slots sz t))"
    using perm by (metis map_map mset_map)
  ultimately have d: "distinct (map fst kvs)" using mset_eq_imp_distinct_iff by blast
  have "map_of (rev kvs) k = Some v \<longleftrightarrow> (k, v) \<in> set kvs"
    using d map_of_eq_Some_iff [of "rev kvs" k v] by (simp flip: rev_map)
  also have "\<dots> \<longleftrightarrow> (k, v) \<in> entry t ` set (live_slots sz t)"
    using mset_eq_setD [OF perm] by simp
  also have "\<dots> \<longleftrightarrow> table_view t k = Some v"
    by (auto simp: table_view_eq_Some [OF ok] live_slots_set holds_def entry_def)
  finally show "map_of (rev kvs) k = Some v \<longleftrightarrow> table_view t k = Some v" .
qed

text \<open>The scan, the sort and the lines of \<open>hexport_r\<close>, which do not depend on the buffer.\<close>

lemma export_parts:
  assumes t: "table_ok sz t"
    and ascii: "\<forall>i\<in>{1..sz}. live (t ! i) \<longrightarrow> (\<forall>c\<in>set (key_of (t ! i)). c < 128)"
    and esc: "\<forall>i\<in>{1..sz}. live (t ! i) \<longrightarrow> sep = 0 \<longrightarrow> 92 \<notin> set (data_of (t ! i))"
  obtains tot m kvs where "export_scan sep [] t sz 1 = Inr (live_slots sz t, tot)"
    "qsort (cmpkey t) (concat (map entry_ptr (live_slots sz t))) (length (live_slots sz t)) 4 = Inr m"
    "export_lines sep t (elems 4 (length (live_slots sz t)) m) = Inr (env_text sep kvs)"
    "length (env_text sep kvs) \<le> tot" "mset kvs = mset (map (entry t) (live_slots sz t))"
    "sorted_wrt (\<lambda>a b. \<not> cstr_less (fst b) (fst a)) kvs"
proof -
  let ?is = "live_slots sz t"
  let ?tot = "sum_list (map (\<lambda>i. length (env_line sep (entry t i)) + 2) ?is)"
  have scan: "export_scan sep [] t sz 1 = Inr (?is, ?tot)"
    using export_scan_live [OF t esc, of 1 sz] by (simp add: live_slots_def del: upt_Suc)
  have addr: "le_addr (entry_ptr i) = i" if "i \<in> set ?is" for i
    using that t by (intro le_addr_entry_ptr) (auto simp: live_slots_set table_ok_def)
  let ?base = "concat (map entry_ptr ?is)"
  have base: "elems 4 (length ?is) ?base = map entry_ptr ?is"
    using elems_concat [of "map entry_ptr ?is" 4] by (simp add: entry_ptr_def)
  have slots: "slot_ok sz (t ! i)" if "i \<in> set ?is" for i
    using that t by (auto simp: live_slots_set table_ok_def)
  have ptrs: "\<forall>p\<in>set (elems 4 (length ?is) ?base). key_ptr t p"
    unfolding base using addr slots ascii
    by (auto simp: key_ptr_def ascii_ptr_def slot_ok_def live_slots_set)
  have "length ?is * 4 \<le> length ?base"
    by (simp add: length_concat entry_ptr_def comp_def sum_list_triv)
  then obtain m where q: "qsort (cmpkey t) ?base (length ?is) 4 = Inr m"
      "mset (elems 4 (length ?is) m) = mset (elems 4 (length ?is) ?base)"
      "sorted_wrt (below (cmpkey t)) (elems 4 (length ?is) m)"
    using keys.qsort_sorts_ok [OF _ ptrs] by blast
  let ?ps = "elems 4 (length ?is) m"
  define kvs where "kvs = map (\<lambda>p. entry t (le_addr p)) ?ps"
  have set: "set ?ps = entry_ptr ` set ?is" using mset_eq_setD [OF q(2)] by (simp add: base)
  have lines: "export_lines sep t ?ps = Inr (env_text sep kvs)"
    unfolding kvs_def using set addr slots by (intro export_lines_text [of _ sz]) (auto simp: live_slots_set)
  have "mset kvs = image_mset (\<lambda>p. entry t (le_addr p)) (mset (map entry_ptr ?is))"
    unfolding kvs_def by (simp add: q(2) base)
  also have "\<dots> = mset (map (\<lambda>p. entry t (le_addr p)) (map entry_ptr ?is))" by (simp only: mset_map)
  also have "map (\<lambda>p. entry t (le_addr p)) (map entry_ptr ?is) = map (entry t) ?is" using addr by simp
  finally have perm: "mset kvs = mset (map (entry t) ?is)" .
  have "length (env_text sep kvs) = sum_mset (image_mset (\<lambda>e. length (env_line sep e)) (mset kvs))"
    by (simp add: env_text_def length_concat comp_def flip: sum_mset_sum_list)
  also have "\<dots> = sum_list (map (\<lambda>i. length (env_line sep (entry t i))) ?is)"
    unfolding perm by (simp only: mset_map [symmetric] sum_mset_sum_list map_map comp_def)
  also have "\<dots> \<le> ?tot" by (rule sum_list_mono) simp
  finally have fits: "length (env_text sep kvs) \<le> ?tot" .
  have kp: "\<forall>p\<in>set ?ps. key_ptr t p" using ptrs mset_eq_setD [OF q(2)] by simp
  have "\<not> cstr_less (key_of (t ! le_addr b)) (key_of (t ! le_addr a))"
    if "below (cmpkey t) a b" "key_ptr t a" "key_ptr t b" for a b
    using that strcmp_compar_below [of "\<lambda>a. the (hkey (t ! a))" a b]
    by (simp add: below_def cmpkey_strcmp key_ptr_def)
  then have "sorted_wrt (\<lambda>a b. \<not> cstr_less (fst b) (fst a)) kvs"
    unfolding kvs_def sorted_wrt_map entry_def fst_conv
    using kp by (intro sorted_wrt_mono_rel [OF _ q(3)]) auto
  then show ?thesis using that scan q(1) lines fits perm by blast
qed

lemma hexport_text:
  assumes t: "htable htab = Some t" "table_ok (hsize htab) t"
    and ascii: "\<forall>i\<in>{1..hsize htab}. live (t ! i) \<longrightarrow> (\<forall>c\<in>set (key_of (t ! i)). c < 128)"
    and esc: "\<forall>i\<in>{1..hsize htab}. live (t ! i) \<longrightarrow> sep = 0 \<longrightarrow> 92 \<notin> set (data_of (t ! i))"
  shows "\<exists>kvs m. hexport_r (\<lambda>_. True) htab sep None 0 []
      = Inr (int (length (env_text sep kvs) + 1 + m), Some (env_text sep kvs @ 0 # replicate m 0))
    \<and> mset kvs = mset (map (entry t) (live_slots (hsize htab) t))
    \<and> sorted_wrt (\<lambda>a b. \<not> cstr_less (fst b) (fst a)) kvs"
proof -
  obtain tot m kvs where p: "export_scan sep [] t (hsize htab) 1 = Inr (live_slots (hsize htab) t, tot)"
    "qsort (cmpkey t) (concat (map entry_ptr (live_slots (hsize htab) t))) (length (live_slots (hsize htab) t)) 4 = Inr m"
    "export_lines sep t (elems 4 (length (live_slots (hsize htab) t)) m) = Inr (env_text sep kvs)"
    "length (env_text sep kvs) \<le> tot" "mset kvs = mset (map (entry t) (live_slots (hsize htab) t))"
    "sorted_wrt (\<lambda>a b. \<not> cstr_less (fst b) (fst a)) kvs"
    using export_parts [OF t(2) ascii esc] .
  have "hexport_r (\<lambda>_. True) htab sep None 0 []
      = Inr (int (tot + 1), Some (put_bytes 0 (env_text sep kvs @ [0]) (replicate (tot + 1) 0)))"
    using p(1-4) t(1) by (simp add: hexport_r_def Let_def)
  moreover have "put_bytes 0 (env_text sep kvs @ [0]) (replicate (tot + 1) 0)
      = env_text sep kvs @ 0 # replicate (tot - length (env_text sep kvs)) 0"
    using p(4) by (simp add: put_bytes_def)
  moreover have "tot + 1 = length (env_text sep kvs) + 1 + (tot - length (env_text sep kvs))" using p(4) by simp
  ultimately show ?thesis using p(5,6) by metis
qed

text \<open>The same into a buffer of the caller, which has to have room for the whole text.\<close>

lemma hexport_buffer:
  assumes t: "htable htab = Some t" "table_ok (hsize htab) t"
    and ascii: "\<forall>i\<in>{1..hsize htab}. live (t ! i) \<longrightarrow> (\<forall>c\<in>set (key_of (t ! i)). c < 128)"
    and esc: "\<forall>i\<in>{1..hsize htab}. live (t ! i) \<longrightarrow> sep = 0 \<longrightarrow> 92 \<notin> set (data_of (t ! i))"
    and room: "export_scan sep [] t (hsize htab) 1 = Inr (is, tot)" "tot < sz" "sz \<le> length res"
  shows "\<exists>kvs m. hexport_r alloc htab sep (Some res) sz []
      = Inr (int sz, Some (env_text sep kvs @ 0 # replicate m 0 @ drop sz res)) \<and> length (env_text sep kvs) + 1 + m = sz
    \<and> mset kvs = mset (map (entry t) (live_slots (hsize htab) t))"
proof -
  obtain tot' m kvs where p: "export_scan sep [] t (hsize htab) 1 = Inr (live_slots (hsize htab) t, tot')"
    "qsort (cmpkey t) (concat (map entry_ptr (live_slots (hsize htab) t))) (length (live_slots (hsize htab) t)) 4 = Inr m"
    "export_lines sep t (elems 4 (length (live_slots (hsize htab) t)) m) = Inr (env_text sep kvs)"
    "length (env_text sep kvs) \<le> tot'" "mset kvs = mset (map (entry t) (live_slots (hsize htab) t))"
    using export_parts [OF t(2) ascii esc] by metis
  have tot: "tot' = tot" using room(1) p(1) by simp
  have n: "length (env_text sep kvs) < sz" "length (env_text sep kvs) < length res" using p(4) tot room(2,3) by auto
  have "hexport_r alloc htab sep (Some res) sz []
      = Inr (int sz, Some (put_bytes 0 (env_text sep kvs @ [0]) (put_bytes 0 (replicate sz 0) res)))"
    using p(1-3) t(1) tot room(2,3) n by (simp add: hexport_r_def Let_def)
  moreover have "put_bytes 0 (env_text sep kvs @ [0]) (put_bytes 0 (replicate sz 0) res)
      = env_text sep kvs @ 0 # replicate (sz - Suc (length (env_text sep kvs))) 0 @ drop sz res"
    using n room(3) by (simp add: put_bytes_def)
  moreover have "length (env_text sep kvs) + 1 + (sz - Suc (length (env_text sep kvs))) = sz" using n by simp
  ultimately show ?thesis using p(5) by metis
qed

text \<open>The exported entries are those of the map.\<close>

lemma exported_entries:
  assumes inv: "store_inv htab" and t: "htable htab = Some t" "table_ok (hsize htab) t"
    and perm: "mset kvs = mset (map (entry t) (live_slots (hsize htab) t))"
  shows "map_of (rev kvs) = store_view htab" "\<forall>e\<in>set kvs. store_view htab (fst e) = Some (snd e)"
    "length kvs = card (dom (store_view htab))"
proof -
  have view: "store_view htab = table_view t" by (simp add: store_view_def t(1))
  have entries: "store_view htab (key_of (t ! i)) = Some (data_of (t ! i))" if "i \<in> {1..hsize htab}" "live (t ! i)" for i
    using that by (auto simp: view table_view_eq_Some [OF t(2)] holds_def)
  show "map_of (rev kvs) = store_view htab" using entries_are_view [OF t(2) perm] view by simp
  show "\<forall>e\<in>set kvs. store_view htab (fst e) = Some (snd e)"
    using mset_eq_setD [OF perm] entries by (auto simp: live_slots_set entry_def)
  have "distinct (live_slots (hsize htab) t)" by (simp add: live_slots_def del: upt_Suc)
  moreover have "inj_on (\<lambda>i. key_of (t ! i)) (set (live_slots (hsize htab) t))"
    using table_ok_unique [OF t(2)] by (auto intro!: inj_onI simp: live_slots_set holds_def)
  moreover have "(\<lambda>i. key_of (t ! i)) ` set (live_slots (hsize htab) t) = dom (store_view htab)"
    using entries by (auto simp: live_slots_set view table_view_eq_Some [OF t(2)] holds_def dom_def)
  ultimately have "length (live_slots (hsize htab) t) = card (dom (store_view htab))"
    by (metis card_image distinct_card)
  moreover have "length kvs = length (live_slots (hsize htab) t)" using perm by (metis length_map size_mset)
  ultimately show "length kvs = card (dom (store_view htab))" by simp
qed

section \<open>Properties\<close>

text \<open>C12: The hash table of the environment refines a map from names to values.  On a table that satisfies
  the invariant (every live slot can be reached from the hash value of its key, no key is stored
  twice, \<open>filled\<close> counts the live slots), \<open>hsearch_r\<close> finds a name exactly when the map has it and then at
  its value; entering a name, when it is there or a slot has never been used, stores its value and
  nothing else; \<open>hdelete_r\<close> removes it and nothing else; the invariant is kept.
\<close>

theorem environment_is_a_map:
  assumes inv: "store_inv htab" and k: "0 \<notin> set k" and v: "0 \<notin> set v"
    and room: "store_view htab k \<noteq> None \<or> 0 < store_free htab"
  shows "(\<exists>r i htab'. hsearch_r (\<lambda>_. True) (k @ [0]) (Some (v @ [0])) ENTER htab = Inr (r, Some i, htab')
      \<and> store_inv htab' \<and> store_view htab' = (store_view htab)(k \<mapsto> v))
    \<and> (\<exists>r htab'. hdelete_r (k @ [0]) htab = Inr (r, htab')
      \<and> store_inv htab' \<and> store_view htab' = (store_view htab)(k := None))
    \<and> (\<exists>r i. hsearch_r (\<lambda>_. True) (k @ [0]) None FIND htab = Inr (r, i, htab)
      \<and> (case i of None \<Rightarrow> store_view htab k = None
          | Some i \<Rightarrow> \<exists>t. htable htab = Some t \<and> store_view htab k = Some (data_of (t ! i))))"
proof (intro conjI)
  show "\<exists>r i htab'. hsearch_r (\<lambda>_. True) (k @ [0]) (Some (v @ [0])) ENTER htab = Inr (r, Some i, htab')
      \<and> store_inv htab' \<and> store_view htab' = (store_view htab)(k \<mapsto> v)"
    using env.put_law [OF inv k v room] by (auto simp: env_put_hsearch)
  show "\<exists>r htab'. hdelete_r (k @ [0]) htab = Inr (r, htab')
      \<and> store_inv htab' \<and> store_view htab' = (store_view htab)(k := None)"
    using hdelete_ok [OF inv, of "k @ [0]"] k by auto
  show "\<exists>r i. hsearch_r (\<lambda>_. True) (k @ [0]) None FIND htab = Inr (r, i, htab)
      \<and> (case i of None \<Rightarrow> store_view htab k = None
          | Some i \<Rightarrow> \<exists>t. htable htab = Some t \<and> store_view htab k = Some (data_of (t ! i)))"
    using hsearch_find [OF inv, of "k @ [0]" "\<lambda>_. True" None] k by (cases "store_view htab k") auto
qed

theorem environment_is_a_map_witness:
  "\<exists>r i htab'. hsearch_r (\<lambda>_. True) ([97] @ [0]) (Some ([98] @ [0])) ENTER
        \<lparr>htable = Some (replicate 8 empty_slot), hsize = 7, filled = 0\<rparr> = Inr (r, Some i, htab')
      \<and> store_view htab' [97] = Some [98]"
proof -
  let ?htab = "\<lparr>htable = Some (replicate 8 empty_slot), hsize = 7, filled = 0\<rparr>"
  have "all_coprime 7" by code_simp
  then have "store_inv ?htab" "store_free ?htab = 7"
    using empty_table_ok [of 7 ?htab] by simp_all
  then show ?thesis using environment_is_a_map [of ?htab "[97]" "[98]"] by auto
qed

text \<open>C13: The environment survives export and import: a table with 1 to 64 entries whose names can be told
  from comments and blanks and whose values are not empty is written by \<open>hexport_r\<close> into a buffer that is
  large enough, in ascending order of the names, and \<open>himport_r\<close> makes a new table from it that is the
  same map, also when values contain the separator or backslashes.  For the separator 0 the values
  must not contain a backslash.
\<close>

theorem environment_survives_export:
  assumes inv: "store_inv htab" and sep: "sep \<notin> {61, 92}"
    and some: "store_view htab k0 \<noteq> None" and few: "card (dom (store_view htab)) \<le> 64"
    and names: "\<And>k v. store_view htab k = Some v \<Longrightarrow> plain_name sep k \<and> plain_value v \<and> (\<forall>c\<in>set k. c < 128)"
    and esc: "\<And>k v. store_view htab k = Some v \<Longrightarrow> sep = 0 \<Longrightarrow> 92 \<notin> set v"
  shows "\<exists>kvs buf htab'. hexport_r (\<lambda>_. True) htab sep None 0 [] = Inr (int (length buf), Some buf)
    \<and> himport_r (\<lambda>_. True) no_table buf (length buf) sep False = Inr (1, htab')
    \<and> store_inv htab' \<and> store_view htab' = store_view htab
    \<and> (\<exists>r. buf = env_text sep kvs @ 0 # r) \<and> sorted_wrt (\<lambda>a b. \<not> cstr_less (fst b) (fst a)) kvs"
proof -
  from inv obtain t where t: "htable htab = Some t" "table_ok (hsize htab) t" by (rule store_invE)
  have view: "store_view htab = table_view t" by (simp add: store_view_def t(1))
  have entries: "store_view htab (key_of (t ! i)) = Some (data_of (t ! i))" if "i \<in> {1..hsize htab}" "live (t ! i)" for i
    using that by (auto simp: view table_view_eq_Some [OF t(2)] holds_def)
  obtain kvs m where ex: "hexport_r (\<lambda>_. True) htab sep None 0 []
      = Inr (int (length (env_text sep kvs) + 1 + m), Some (env_text sep kvs @ 0 # replicate m 0))"
    and perm: "mset kvs = mset (map (entry t) (live_slots (hsize htab) t))"
    and sorted: "sorted_wrt (\<lambda>a b. \<not> cstr_less (fst b) (fst a)) kvs"
    using hexport_text [OF t] names [OF entries] esc [OF entries] by blast
  let ?buf = "env_text sep kvs @ 0 # replicate m 0"
  note e = exported_entries [OF inv t perm]
  have "kvs \<noteq> []" using some e(1) by (metis map_of.simps(1) rev.simps(1))
  moreover have "length kvs \<le> 64" using e(3) few by simp
  moreover have "\<forall>(k, v)\<in>set kvs. plain_name sep k \<and> plain_value v" using names e(2) by fastforce
  ultimately obtain htab' where "himport_r (\<lambda>_. True) no_table ?buf (length ?buf) sep False = Inr (1, htab')"
      "store_inv htab'" "store_view htab' = map_of (rev kvs)"
    using himport_text [OF sep _ _ _ refl, of kvs no_table "replicate m 0" False] by (auto simp: no_table_def)
  then show ?thesis using ex e(1) sorted by (intro exI [of _ kvs] exI [of _ ?buf] exI [of _ htab']) simp
qed

theorem environment_survives_export_witness:
  "\<exists>htab kvs buf htab'. store_view htab = [[97] \<mapsto> [10, 92]]
    \<and> hexport_r (\<lambda>_. True) htab 10 None 0 [] = Inr (int (length buf), Some buf)
    \<and> himport_r (\<lambda>_. True) no_table buf (length buf) 10 False = Inr (1, htab')
    \<and> store_inv htab' \<and> store_view htab' = store_view htab
    \<and> (\<exists>r. buf = env_text 10 kvs @ 0 # r) \<and> sorted_wrt (\<lambda>a b. \<not> cstr_less (fst b) (fst a)) kvs"
proof -
  have plain: "plain_name 10 [97]" "plain_value [10, 92]" by (simp_all add: plain_name_def plain_value_def)
  obtain htab where h: "store_inv htab" "store_view htab = [[97] \<mapsto> [10, 92]]"
    using himport_text [of 10 "[([97], [10, 92])]" _ "[]" no_table False, OF _ _ _ _ refl] plain
    by (auto simp: no_table_def)
  have "\<exists>kvs buf htab'. hexport_r (\<lambda>_. True) htab 10 None 0 [] = Inr (int (length buf), Some buf)
    \<and> himport_r (\<lambda>_. True) no_table buf (length buf) 10 False = Inr (1, htab')
    \<and> store_inv htab' \<and> store_view htab' = store_view htab
    \<and> (\<exists>r. buf = env_text 10 kvs @ 0 # r) \<and> sorted_wrt (\<lambda>a b. \<not> cstr_less (fst b) (fst a)) kvs"
    by (rule environment_survives_export [OF h(1), where ?k0.0 = "[97]"])
      (use plain in \<open>auto simp: h(2) split: if_splits\<close>)
  then show ?thesis using h(2) by blast
qed

text \<open>
  Without the condition on backslashes the buffer is too small for the separator 0: the room counted for a
  value does not include the escapes that are written.
\<close>

lemma export_overrun:
  "hexport_r (\<lambda>_. True)
     \<lparr>htable = Some [empty_slot, \<lparr>used = 1, hkey = Some [97, 0], hdata = Some [92, 92, 92, 0]\<rparr>], hsize = 1, filled = 1\<rparr>
     0 None 0 [] = Inl Out_Of_Bounds"
  by (simp add: hexport_r_def qsort_def elems_def elem_def entry_ptr_def le_addr_def export_line_def entry_room_def
      escaped_def deref_def empty_slot_def Let_def upt_rec)

text \<open>
  With every slot used or deleted, a new name whose first slot is live is stored there, over the entry that it
  holds.
\<close>

lemma enter_overwrites:
  "hsearch_r (\<lambda>_. True) [100, 0] (Some [99, 0]) ENTER
     \<lparr>htable = Some [empty_slot, \<lparr>used = -1, hkey = None, hdata = None\<rparr>,
        \<lparr>used = 2, hkey = Some [97, 0], hdata = Some [98, 0]\<rparr>,
        \<lparr>used = -1, hkey = None, hdata = None\<rparr>], hsize = 3, filled = 1\<rparr>
   = Inr (1, Some 2, \<lparr>htable = Some [empty_slot, \<lparr>used = -1, hkey = None, hdata = None\<rparr>,
        \<lparr>used = 2, hkey = Some [100, 0], hdata = Some [99, 0]\<rparr>,
        \<lparr>used = -1, hkey = None, hdata = None\<rparr>], hsize = 3, filled = 2\<rparr>)"
  by code_simp

end
