(* ===== verification/Crc32.thy ===== *)
theory Crc32
  imports UBoot_Prelude
begin

text \<open>
  The cyclic redundancy check of lib/crc32.c, which guards the environment and every image header.
  The target is little endian, so \<open>tole\<close>, \<open>cpu_to_le32\<close> and \<open>le32_to_cpu\<close> are identities and
  \<open>DO_CRC\<close> is its first variant.  A buffer is the list of the bytes of its object together with its
  address, of which only the alignment matters; a read behind the end of the object is an error.
  The reference definition is the shift register that takes one bit at a time
  (\<open>crc_step\<close>), of which \<open>make_crc_table\<close> tabulates eight steps.
\<close>

section \<open>The table\<close>

definition crc_terms :: "nat list" where
  "crc_terms = [0, 1, 2, 4, 5, 7, 8, 10, 11, 12, 16, 22, 23, 26]"

definition crc_poly :: u32 where
  "crc_poly = fold (\<lambda>n poly. poly OR push_bit (31 - n) 1) crc_terms 0"

definition crc_step :: "u32 \<Rightarrow> u32" where
  "crc_step c = (if c AND 1 \<noteq> 0 then crc_poly XOR drop_bit 1 c else drop_bit 1 c)"

fun crc_steps :: "nat \<Rightarrow> u32 \<Rightarrow> u32" where
  "crc_steps 0 c = c"
| "crc_steps (Suc k) c = crc_steps k (crc_step c)"

definition make_crc_table :: "u32 list" where
  "make_crc_table = map (\<lambda>n. crc_steps 8 (word_of_nat n)) [0..<256]"

definition crc_table :: "u32 list" where
  "crc_table =
  [0x00000000, 0x77073096, 0xee0e612c, 0x990951ba, 0x076dc419, 0x706af48f,
   0xe963a535, 0x9e6495a3, 0x0edb8832, 0x79dcb8a4, 0xe0d5e91e, 0x97d2d988,
   0x09b64c2b, 0x7eb17cbd, 0xe7b82d07, 0x90bf1d91, 0x1db71064, 0x6ab020f2,
   0xf3b97148, 0x84be41de, 0x1adad47d, 0x6ddde4eb, 0xf4d4b551, 0x83d385c7,
   0x136c9856, 0x646ba8c0, 0xfd62f97a, 0x8a65c9ec, 0x14015c4f, 0x63066cd9,
   0xfa0f3d63, 0x8d080df5, 0x3b6e20c8, 0x4c69105e, 0xd56041e4, 0xa2677172,
   0x3c03e4d1, 0x4b04d447, 0xd20d85fd, 0xa50ab56b, 0x35b5a8fa, 0x42b2986c,
   0xdbbbc9d6, 0xacbcf940, 0x32d86ce3, 0x45df5c75, 0xdcd60dcf, 0xabd13d59,
   0x26d930ac, 0x51de003a, 0xc8d75180, 0xbfd06116, 0x21b4f4b5, 0x56b3c423,
   0xcfba9599, 0xb8bda50f, 0x2802b89e, 0x5f058808, 0xc60cd9b2, 0xb10be924,
   0x2f6f7c87, 0x58684c11, 0xc1611dab, 0xb6662d3d, 0x76dc4190, 0x01db7106,
   0x98d220bc, 0xefd5102a, 0x71b18589, 0x06b6b51f, 0x9fbfe4a5, 0xe8b8d433,
   0x7807c9a2, 0x0f00f934, 0x9609a88e, 0xe10e9818, 0x7f6a0dbb, 0x086d3d2d,
   0x91646c97, 0xe6635c01, 0x6b6b51f4, 0x1c6c6162, 0x856530d8, 0xf262004e,
   0x6c0695ed, 0x1b01a57b, 0x8208f4c1, 0xf50fc457, 0x65b0d9c6, 0x12b7e950,
   0x8bbeb8ea, 0xfcb9887c, 0x62dd1ddf, 0x15da2d49, 0x8cd37cf3, 0xfbd44c65,
   0x4db26158, 0x3ab551ce, 0xa3bc0074, 0xd4bb30e2, 0x4adfa541, 0x3dd895d7,
   0xa4d1c46d, 0xd3d6f4fb, 0x4369e96a, 0x346ed9fc, 0xad678846, 0xda60b8d0,
   0x44042d73, 0x33031de5, 0xaa0a4c5f, 0xdd0d7cc9, 0x5005713c, 0x270241aa,
   0xbe0b1010, 0xc90c2086, 0x5768b525, 0x206f85b3, 0xb966d409, 0xce61e49f,
   0x5edef90e, 0x29d9c998, 0xb0d09822, 0xc7d7a8b4, 0x59b33d17, 0x2eb40d81,
   0xb7bd5c3b, 0xc0ba6cad, 0xedb88320, 0x9abfb3b6, 0x03b6e20c, 0x74b1d29a,
   0xead54739, 0x9dd277af, 0x04db2615, 0x73dc1683, 0xe3630b12, 0x94643b84,
   0x0d6d6a3e, 0x7a6a5aa8, 0xe40ecf0b, 0x9309ff9d, 0x0a00ae27, 0x7d079eb1,
   0xf00f9344, 0x8708a3d2, 0x1e01f268, 0x6906c2fe, 0xf762575d, 0x806567cb,
   0x196c3671, 0x6e6b06e7, 0xfed41b76, 0x89d32be0, 0x10da7a5a, 0x67dd4acc,
   0xf9b9df6f, 0x8ebeeff9, 0x17b7be43, 0x60b08ed5, 0xd6d6a3e8, 0xa1d1937e,
   0x38d8c2c4, 0x4fdff252, 0xd1bb67f1, 0xa6bc5767, 0x3fb506dd, 0x48b2364b,
   0xd80d2bda, 0xaf0a1b4c, 0x36034af6, 0x41047a60, 0xdf60efc3, 0xa867df55,
   0x316e8eef, 0x4669be79, 0xcb61b38c, 0xbc66831a, 0x256fd2a0, 0x5268e236,
   0xcc0c7795, 0xbb0b4703, 0x220216b9, 0x5505262f, 0xc5ba3bbe, 0xb2bd0b28,
   0x2bb45a92, 0x5cb36a04, 0xc2d7ffa7, 0xb5d0cf31, 0x2cd99e8b, 0x5bdeae1d,
   0x9b64c2b0, 0xec63f226, 0x756aa39c, 0x026d930a, 0x9c0906a9, 0xeb0e363f,
   0x72076785, 0x05005713, 0x95bf4a82, 0xe2b87a14, 0x7bb12bae, 0x0cb61b38,
   0x92d28e9b, 0xe5d5be0d, 0x7cdcefb7, 0x0bdbdf21, 0x86d3d2d4, 0xf1d4e242,
   0x68ddb3f8, 0x1fda836e, 0x81be16cd, 0xf6b9265b, 0x6fb077e1, 0x18b74777,
   0x88085ae6, 0xff0f6a70, 0x66063bca, 0x11010b5c, 0x8f659eff, 0xf862ae69,
   0x616bffd3, 0x166ccf45, 0xa00ae278, 0xd70dd2ee, 0x4e048354, 0x3903b3c2,
   0xa7672661, 0xd06016f7, 0x4969474d, 0x3e6e77db, 0xaed16a4a, 0xd9d65adc,
   0x40df0b66, 0x37d83bf0, 0xa9bcae53, 0xdebb9ec5, 0x47b2cf7f, 0x30b5ffe9,
   0xbdbdf21c, 0xcabac28a, 0x53b39330, 0x24b4a3a6, 0xbad03605, 0xcdd70693,
   0x54de5729, 0x23d967bf, 0xb3667a2e, 0xc4614ab8, 0x5d681b02, 0x2a6f2b94,
   0xb40bbe37, 0xc30c8ea1, 0x5a05df1b, 0x2d02ef8d]"

section \<open>The check sum of a buffer\<close>

definition DO_CRC :: "u32 \<Rightarrow> u32 \<Rightarrow> u32" where
  "DO_CRC x crc = crc_table ! unat ((crc XOR x) AND 255) XOR drop_bit 8 crc"

definition le32 :: "u8 \<Rightarrow> u8 \<Rightarrow> u8 \<Rightarrow> u8 \<Rightarrow> u32" where
  "le32 b0 b1 b2 b3 = ucast b0 OR push_bit 8 (ucast b1) OR push_bit 16 (ucast b2) OR push_bit 24 (ucast b3)"

definition load8 :: "u8 list \<Rightarrow> nat \<Rightarrow> u8 result" where
  "load8 buf p = (if p < length buf then Inr (buf ! p) else Inl Out_Of_Bounds)"

definition load32 :: "u8 list \<Rightarrow> nat \<Rightarrow> u32 result" where
  "load32 buf p =
     (if p + 3 < length buf
      then Inr (le32 (buf ! p) (buf ! (p + 1)) (buf ! (p + 2)) (buf ! (p + 3)))
      else Inl Out_Of_Bounds)"

text \<open>
  The three loops of \<open>crc32_no_comp\<close>: single bytes until the address is a multiple of four, words,
  and the last few bytes.  \<open>addr\<close> is the address of the buffer and \<open>p\<close> the position in it.
\<close>

fun align_loop :: "nat \<Rightarrow> u8 list \<Rightarrow> nat \<Rightarrow> nat \<Rightarrow> u32 \<Rightarrow> (nat \<times> nat \<times> u32) result" where
  "align_loop addr buf p 0 crc = Inr (p, 0, crc)"
| "align_loop addr buf p (Suc len) crc =
     bind_result (load8 buf p) (\<lambda>x.
       let crc = DO_CRC (ucast x) crc
       in if len \<noteq> 0 \<and> (addr + p + 1) mod 4 \<noteq> 0 then align_loop addr buf (p + 1) len crc
          else Inr (p + 1, len, crc))"

fun word_loop :: "u8 list \<Rightarrow> nat \<Rightarrow> nat \<Rightarrow> u32 \<Rightarrow> (nat \<times> u32) result" where
  "word_loop buf p 0 crc = Inr (p, crc)"
| "word_loop buf p (Suc len) crc =
     bind_result (load32 buf p) (\<lambda>x.
       let crc = crc XOR x;
           crc = DO_CRC 0 crc;
           crc = DO_CRC 0 crc;
           crc = DO_CRC 0 crc;
           crc = DO_CRC 0 crc
       in word_loop buf (p + 4) len crc)"

fun tail_loop :: "u8 list \<Rightarrow> nat \<Rightarrow> nat \<Rightarrow> u32 \<Rightarrow> u32 result" where
  "tail_loop buf p 0 crc = Inr crc"
| "tail_loop buf p (Suc len) crc =
     bind_result (load8 buf p) (\<lambda>x. tail_loop buf (p + 1) len (DO_CRC (ucast x) crc))"

definition crc32_no_comp :: "nat \<Rightarrow> u32 \<Rightarrow> u8 list \<Rightarrow> nat \<Rightarrow> nat \<Rightarrow> u32 result" where
  "crc32_no_comp addr crc buf p len =
     bind_result
       (if (addr + p) mod 4 \<noteq> 0 \<and> len \<noteq> 0 then align_loop addr buf p len crc else Inr (p, len, crc))
       (\<lambda>(p, len, crc).
         let rem_len = len mod 4
         in bind_result (word_loop buf p (len div 4) crc) (\<lambda>(p, crc). tail_loop buf p rem_len crc))"

definition crc32 :: "nat \<Rightarrow> u32 \<Rightarrow> u8 list \<Rightarrow> nat \<Rightarrow> nat \<Rightarrow> u32 result" where
  "crc32 addr crc buf p len =
     bind_result (crc32_no_comp addr (crc XOR 0xffffffff) buf p len) (\<lambda>c. Inr (c XOR 0xffffffff))"

text \<open>
  \<open>crc32_wd\<close> with a watchdog configured: the buffer in chunks, with the watchdog reset after each
  (the number of resets is returned).  With a chunk size of 0 the loop never advances.
\<close>

function crc32_wd_loop :: "nat \<Rightarrow> u8 list \<Rightarrow> nat \<Rightarrow> nat \<Rightarrow> nat \<Rightarrow> nat \<Rightarrow> u32 \<Rightarrow> (nat \<times> u32) result" where
  "crc32_wd_loop addr buf cur fin chunk_sz resets crc =
     (if cur < fin then
        let chunk = fin - cur;
            chunk = (if chunk > chunk_sz then chunk_sz else chunk)
        in if chunk = 0 then Inl Non_Termination
           else bind_result (crc32 addr crc buf cur chunk) (\<lambda>crc.
             crc32_wd_loop addr buf (cur + chunk) fin chunk_sz (resets + 1) crc)
      else Inr (resets, crc))"
  by pat_completeness auto
termination
  by (relation "measure (\<lambda>(addr, buf, cur, fin, chunk_sz, resets, crc). fin - cur)") auto

declare crc32_wd_loop.simps [simp del]

definition crc32_wd :: "bool \<Rightarrow> nat \<Rightarrow> u32 \<Rightarrow> u8 list \<Rightarrow> nat \<Rightarrow> nat \<Rightarrow> (nat \<times> u32) result" where
  "crc32_wd watchdog addr crc buf len chunk_sz =
     (if watchdog then crc32_wd_loop addr buf 0 len chunk_sz 0 crc
      else bind_result (crc32 addr crc buf 0 len) (\<lambda>c. Inr (0, c)))"

section \<open>The table is the shift register\<close>

text \<open>
  One step of the register is linear over exclusive or, so the table is determined by its entries at
  the powers of two, and doubles from one power to the next.
\<close>

lemma crc_poly_value: "crc_poly = 0xedb88320"
  by code_simp

lemma crc_table_length [simp]: "length crc_table = 256"
  by (simp add: crc_table_def)

lemma crc_step_xor: "crc_step (a XOR b) = crc_step a XOR crc_step b"
  by (rule bit_word_eqI)
    (auto simp: crc_step_def and_one_eq mod_2_eq_odd bit_xor_iff bit_drop_bit_eq simp flip: bit_0)

lemma crc_steps_xor: "crc_steps k (a XOR b) = crc_steps k a XOR crc_steps k b"
  by (induction k arbitrary: a b) (simp_all add: crc_step_xor)


lemma word_split_bit:
  assumes "n < 2 ^ k"
  shows "(word_of_nat (2 ^ k + n) :: u32) = word_of_nat n XOR word_of_nat (2 ^ k)"
proof -
  have b: "\<not> bit n k"
    using assms by (simp add: bit_iff_odd)
  have "(2 ^ k :: u32) AND word_of_nat n = 0"
    by (rule bit_word_eqI) (use b in \<open>auto simp: bit_simps\<close>)
  then show ?thesis
    by (simp add: disjunctive_add_eq_xor xor.commute)
qed

lemma upt_double: "[0..<2 ^ Suc k] = [0..<2 ^ k] @ map (\<lambda>n. 2 ^ k + n) [0..<2 ^ k]"
proof -
  have "[0..<2 ^ Suc k] = [0..<2 ^ k + 2 ^ k]" by (simp add: mult_2)
  also have "\<dots> = [0..<2 ^ k] @ [2 ^ k..<2 ^ k + 2 ^ k]" by (rule upt_add_eq_append) simp
  also have "[2 ^ k..<2 ^ k + 2 ^ k] = map (\<lambda>n. 2 ^ k + n) [0..<2 ^ k]"
    by (simp add: map_add_upt add.commute)
  finally show ?thesis .
qed

definition steps_of :: "nat \<Rightarrow> u32" where
  "steps_of n = crc_steps 8 (word_of_nat n)"

lemma steps_of_double:
  "map steps_of [0..<2 ^ Suc k] =
    (let t = map steps_of [0..<2 ^ k] in t @ map (\<lambda>x. x XOR steps_of (2 ^ k)) t)"
  unfolding upt_double by (simp add: steps_of_def word_split_bit crc_steps_xor Let_def del: of_nat_add of_nat_power)

lemma crc_steps_numeral: "crc_steps (numeral k) c = crc_steps (pred_numeral k) (crc_step c)"
  by (simp add: numeral_eq_Suc)

lemma steps_of_basis: "map (\<lambda>k. steps_of (2 ^ k)) [0..<8] =
  [0x77073096, 0xee0e612c, 0x076dc419, 0x0edb8832, 0x1db71064, 0x3b6e20c8, 0x76dc4190, 0xedb88320]"
  by (simp add: steps_of_def crc_steps_numeral crc_step_def crc_poly_value upt_rec)

lemma steps_of_fold:
  "map steps_of [0..<2 ^ k] =
     fold (\<lambda>b t. t @ map (\<lambda>x. x XOR b) t) (map (\<lambda>k. steps_of (2 ^ k)) [0..<k]) [0]"
proof (induction k)
  case 0
  then show ?case by (simp add: steps_of_def crc_steps_numeral crc_step_def)
next
  case (Suc k)
  show ?case unfolding steps_of_double by (simp add: Suc.IH Let_def)
qed

lemma crc_table_eq: "crc_table = make_crc_table"
proof -
  have "make_crc_table = map steps_of [0..<2 ^ 8]"
    by (simp add: make_crc_table_def steps_of_def)
  also have "\<dots> = crc_table"
    unfolding steps_of_fold steps_of_basis crc_table_def by simp
  finally show ?thesis by simp
qed

lemma crc_table_nth:
  assumes "n < 256"
  shows "crc_table ! n = crc_steps 8 (word_of_nat n)"
  using assms by (simp add: crc_table_eq make_crc_table_def)

section \<open>A byte at a time\<close>

lemma crc_steps_drop:
  "take_bit k c = 0 \<Longrightarrow> crc_steps k c = drop_bit k c"
proof (induction k arbitrary: c)
  case (Suc k)
  have "even c" using Suc.prems by (metis even_take_bit_eq dvd_0_right nat.distinct(1))
  moreover have "take_bit k (drop_bit 1 c) = 0"
    using Suc.prems by (simp add: take_bit_drop_bit)
  ultimately show ?case
    using Suc.IH [of "drop_bit 1 c"] by (simp add: crc_step_def and_one_eq even_iff_mod_2_eq_zero)
qed simp

lemma crc_steps_add: "crc_steps (m + n) c = crc_steps n (crc_steps m c)"
  by (induction m arbitrary: c) simp_all

lemma byte_of_word: "word_of_nat (unat (c AND 255)) = (c AND 255 :: u32)"
  by simp

lemma unat_and_255: "unat ((c :: u32) AND 255) < 256"
proof -
  have "c AND 255 = take_bit 8 c" by (simp add: take_bit_eq_mask mask_eq_decr_exp)
  then show ?thesis using take_bit_nat_less_exp [of 8 "unat c"] by (simp add: unsigned_take_bit_eq)
qed

lemma eight_steps: "crc_steps 8 c = crc_table ! unat (c AND 255) XOR drop_bit 8 c"
proof -
  have m: "(255 :: u32) = mask 8" by (simp add: mask_eq_decr_exp)
  have split: "c = (c AND 255) XOR (c AND NOT 255)"
    by (rule bit_word_eqI) (auto simp: bit_simps)
  have "take_bit 8 (c AND NOT 255) = 0"
    unfolding m by (rule bit_word_eqI) (auto simp: bit_simps)
  moreover have "drop_bit 8 (c AND NOT 255) = drop_bit 8 c"
    unfolding m by (rule bit_word_eqI) (auto simp: bit_simps dest: bit_imp_le_length)
  ultimately have "crc_steps 8 ((c AND 255) XOR (c AND NOT 255)) = crc_steps 8 (c AND 255) XOR drop_bit 8 c"
    by (simp add: crc_steps_xor crc_steps_drop)
  then show ?thesis
    using split by (simp add: crc_table_nth unat_and_255)
qed

definition crc_update :: "u32 \<Rightarrow> u8 \<Rightarrow> u32" where
  "crc_update c b = crc_steps 8 (c XOR ucast b)"

definition crc_bytes :: "u32 \<Rightarrow> u8 list \<Rightarrow> u32" where
  "crc_bytes = foldl crc_update"

lemma DO_CRC_0: "DO_CRC 0 c = crc_steps 8 c"
  by (simp add: DO_CRC_def eight_steps)

lemma DO_CRC_byte: "DO_CRC (ucast (b :: u8)) c = crc_update c b"
proof -
  have "drop_bit 8 (c XOR ucast b) = drop_bit 8 c"
    by (rule bit_word_eqI) (auto simp: bit_simps dest: bit_imp_le_length)
  then show ?thesis by (simp add: DO_CRC_def crc_update_def eight_steps)
qed


lemma crc_bytes_simps [simp]:
  "crc_bytes c [] = c"
  "crc_bytes c (b # bs) = crc_bytes (crc_update c b) bs"
  "crc_bytes c (as @ bs) = crc_bytes (crc_bytes c as) bs"
  by (simp_all add: crc_bytes_def)

section \<open>A word at a time\<close>

lemma le32_xor:
  "le32 b0 b1 b2 b3 = ucast b0 XOR push_bit 8 (ucast b1 XOR push_bit 8 (ucast b2 XOR push_bit 8 (ucast b3)))"
  unfolding le32_def
  by (rule bit_word_eqI) (auto simp: bit_simps dest: bit_imp_le_length)

lemma crc_steps_shift:
  assumes "drop_bit 24 w = 0"
  shows "crc_steps 8 (c XOR push_bit 8 w) = crc_steps 8 c XOR w"
proof -
  have "take_bit 8 (push_bit 8 w) = 0" by (simp add: take_bit_push_bit)
  moreover have "drop_bit 8 (push_bit 8 w) = w"
  proof (rule bit_word_eqI)
    fix n assume n: "n < LENGTH(32)"
    have "\<not> bit w n" if "24 \<le> n"
    proof -
      have "\<not> bit (drop_bit 24 w) (n - 24)" using assms by simp
      then show ?thesis using that by (simp add: bit_drop_bit_eq)
    qed
    then show "bit (drop_bit 8 (push_bit 8 w)) n = bit w n"
      using n by (cases "24 \<le> n") (auto simp: bit_simps)
  qed
  ultimately show ?thesis by (simp add: crc_steps_xor crc_steps_drop)
qed

lemma four_bytes:
  "crc_steps 8 (crc_steps 8 (crc_steps 8 (crc_steps 8 (c XOR le32 b0 b1 b2 b3))))
     = crc_bytes c [b0, b1, b2, b3]"
proof -
  let ?w3 = "ucast b3 :: u32"
  let ?w2 = "ucast b2 XOR push_bit 8 ?w3"
  let ?w1 = "ucast b1 XOR push_bit 8 ?w2"
  have "drop_bit 24 ?w3 = 0" "drop_bit 24 ?w2 = 0" "drop_bit 24 ?w1 = 0"
    by (rule bit_word_eqI; auto simp: bit_simps dest: bit_imp_le_length)+
  note sh = this [THEN crc_steps_shift]
  show ?thesis
    unfolding le32_xor crc_bytes_simps crc_update_def by (simp only: sh xor.assoc [symmetric])
qed

section \<open>The three loops together\<close>

lemma take_drop_Cons:
  "p < length xs \<Longrightarrow> take (Suc n) (drop p xs) = xs ! p # take n (drop (Suc p) xs)"
  by (metis Cons_nth_drop_Suc take_Suc_Cons)

lemma tail_loop_correct:
  "p + len \<le> length buf \<Longrightarrow>
     tail_loop buf p len c = Inr (crc_bytes c (take len (drop p buf)))"
  by (induction buf p len c rule: tail_loop.induct)
    (auto simp: load8_def DO_CRC_byte take_drop_Cons)

lemma word_loop_correct:
  "p + 4 * len \<le> length buf \<Longrightarrow>
     word_loop buf p len c = Inr (p + 4 * len, crc_bytes c (take (4 * len) (drop p buf)))"
proof (induction buf p len c rule: word_loop.induct)
  case (2 buf p len crc)
  have "take (4 * Suc len) (drop p buf) =
      [buf ! p, buf ! (p + 1), buf ! (p + 2), buf ! (p + 3)] @ take (4 * len) (drop (p + 4) buf)"
    using 2 by (simp add: take_drop_Cons numeral_eq_Suc)
  moreover have "load32 buf p = Inr (le32 (buf ! p) (buf ! (p + 1)) (buf ! (p + 2)) (buf ! (p + 3)))"
    using 2 by (simp add: load32_def)
  ultimately show ?case
    using 2 four_bytes [of crc "buf ! p" "buf ! (p + 1)" "buf ! (p + 2)" "buf ! (p + 3)"]
    by (simp add: DO_CRC_0 Let_def)
qed simp

lemma align_loop_correct:
  "\<lbrakk>p + len \<le> length buf; 0 < len\<rbrakk> \<Longrightarrow>
     \<exists>n\<le>len. align_loop addr buf p len c
       = Inr (p + n, len - n, crc_bytes c (take n (drop p buf)))"
proof (induction addr buf p len c rule: align_loop.induct)
  case (2 addr buf p len crc)
  let ?c = "crc_update crc (buf ! p)"
  have load: "load8 buf p = Inr (buf ! p)" using 2 by (simp add: load8_def)
  show ?case
  proof (cases "len \<noteq> 0 \<and> (addr + p + 1) mod 4 \<noteq> 0")
    case True
    then obtain n where n: "n \<le> len"
      "align_loop addr buf (p + 1) len ?c = Inr (p + 1 + n, len - n, crc_bytes ?c (take n (drop (p + 1) buf)))"
      using 2 load by (fastforce simp: DO_CRC_byte)
    then show ?thesis
      using True load 2(2) by (intro exI [of _ "Suc n"]) (simp add: DO_CRC_byte take_drop_Cons)
  next
    case False
    then show ?thesis
      using load 2(2) by (intro exI [of _ 1]) (auto simp: DO_CRC_byte take_drop_Cons Let_def)
  qed
qed simp

lemma crc_bytes_take_drop:
  "n \<le> len \<Longrightarrow> crc_bytes (crc_bytes c (take n xs)) (take (len - n) (drop n xs)) = crc_bytes c (take len xs)"
  by (metis crc_bytes_simps(3) le_add_diff_inverse take_add)

lemma crc32_no_comp_correct:
  assumes "p + len \<le> length buf"
  shows "crc32_no_comp addr crc buf p len = Inr (crc_bytes crc (take len (drop p buf)))"
proof -
  let ?start = "if (addr + p) mod 4 \<noteq> 0 \<and> len \<noteq> 0 then align_loop addr buf p len crc else Inr (p, len, crc)"
  obtain n where n: "n \<le> len" "?start = Inr (p + n, len - n, crc_bytes crc (take n (drop p buf)))"
  proof (cases "(addr + p) mod 4 \<noteq> 0 \<and> len \<noteq> 0")
    case True
    then show ?thesis using that align_loop_correct [OF assms, of addr crc] by auto
  next
    case False
    then show ?thesis using that [of 0] by auto
  qed
  let ?l = "len - n" and ?c = "crc_bytes crc (take n (drop p buf))"
  have l: "4 * (?l div 4) + ?l mod 4 = ?l" by simp
  have "p + n + ?l \<le> length buf" using assms n by simp
  then have w: "word_loop buf (p + n) (?l div 4) ?c =
       Inr (p + n + 4 * (?l div 4), crc_bytes ?c (take (4 * (?l div 4)) (drop (p + n) buf)))"
    by (intro word_loop_correct) (use l in linarith)
  have t: "tail_loop buf (p + n + 4 * (?l div 4)) (?l mod 4) c'
      = Inr (crc_bytes c' (take (?l mod 4) (drop (p + n + 4 * (?l div 4)) buf)))" for c'
    by (intro tail_loop_correct) (use l \<open>p + n + ?l \<le> length buf\<close> in linarith)
  have "crc32_no_comp addr crc buf p len =
      Inr (crc_bytes (crc_bytes ?c (take (4 * (?l div 4)) (drop (p + n) buf)))
            (take (?l mod 4) (drop (4 * (?l div 4)) (drop (p + n) buf))))"
    unfolding crc32_no_comp_def n(2) by (simp add: w t Let_def) (simp add: add.commute add.left_commute)
  also have "\<dots> = Inr (crc_bytes ?c (take ?l (drop (p + n) buf)))"
    using crc_bytes_take_drop [of "4 * (?l div 4)" ?l ?c "drop (p + n) buf"] l
    by (metis add_diff_cancel_left' le_add1)
  also have "\<dots> = Inr (crc_bytes crc (take len (drop p buf)))"
    using crc_bytes_take_drop [OF n(1), of crc "drop p buf"] by (simp add: add.commute)
  finally show ?thesis .
qed


text \<open>A buffer that ends before its length says is left by the first read behind its end.\<close>

lemma tail_loop_error:
  "\<lbrakk>length buf < p + len; 0 < len\<rbrakk> \<Longrightarrow> tail_loop buf p len c = Inl Out_Of_Bounds"
proof (induction buf p len c rule: tail_loop.induct)
  case (2 buf p len crc)
  then show ?case by (cases "p < length buf") (auto simp: load8_def)
qed simp

lemma word_loop_error:
  "\<lbrakk>length buf < p + 4 * len; 0 < len\<rbrakk> \<Longrightarrow> word_loop buf p len c = Inl Out_Of_Bounds"
proof (induction buf p len c rule: word_loop.induct)
  case (2 buf p len crc)
  then show ?case by (cases "p + 3 < length buf") (auto simp: load32_def Let_def)
qed simp

lemma align_loop_reads:
  "0 < len \<Longrightarrow> align_loop addr buf p len c = Inl Out_Of_Bounds \<or>
     (\<exists>n c'. 0 < n \<and> n \<le> len \<and> p + n \<le> length buf \<and> align_loop addr buf p len c = Inr (p + n, len - n, c'))"
proof (induction addr buf p len c rule: align_loop.induct)
  case (2 addr buf p len crc)
  show ?case
  proof (cases "p < length buf \<and> len \<noteq> 0 \<and> (addr + p + 1) mod 4 \<noteq> 0")
    case True
    then have "align_loop addr buf p (Suc len) crc = align_loop addr buf (p + 1) len (DO_CRC (ucast (buf ! p)) crc)"
      by (simp add: load8_def)
    moreover have "align_loop addr buf (p + 1) len (DO_CRC (ucast (buf ! p)) crc) = Inl Out_Of_Bounds \<or>
        (\<exists>n c'. 0 < n \<and> n \<le> len \<and> p + 1 + n \<le> length buf \<and>
          align_loop addr buf (p + 1) len (DO_CRC (ucast (buf ! p)) crc) = Inr (p + 1 + n, len - n, c'))"
      using True 2(1) [of "DO_CRC (ucast (buf ! p)) crc"] by simp
    ultimately show ?thesis
      by (metis Suc_le_mono add.assoc diff_Suc_Suc plus_1_eq_Suc zero_less_Suc)
  next
    case False
    then show ?thesis by (auto simp: load8_def Let_def)
  qed
qed simp

lemma crc32_no_comp_error:
  assumes "length buf < p + len" "0 < len"
  shows "crc32_no_comp addr crc buf p len = Inl Out_Of_Bounds"
proof -
  have rest: "bind_result (word_loop buf q (l div 4) c) (\<lambda>(p, crc). tail_loop buf p (l mod 4) crc)
      = Inl Out_Of_Bounds" if "length buf < q + l" "q \<le> length buf \<or> 0 < l" for q l c
  proof (cases "length buf < q + 4 * (l div 4) \<and> 0 < l div 4")
    case True
    then show ?thesis by (simp add: word_loop_error)
  next
    case False
    have l: "4 * (l div 4) + l mod 4 = l" by simp
    show ?thesis
    proof (cases "0 < l div 4")
      case True
      with False have q: "q + 4 * (l div 4) \<le> length buf" by simp
      with that(1) l have "length buf < q + 4 * (l div 4) + l mod 4" "0 < l mod 4" by linarith+
      with q show ?thesis by (simp add: word_loop_correct tail_loop_error)
    next
      case False
      then have "l div 4 = 0" "l mod 4 = l" "0 < l" using that by auto
      with that(1) show ?thesis by (simp add: tail_loop_error)
    qed
  qed
  show ?thesis
  proof (cases "(addr + p) mod 4 \<noteq> 0")
    case True
    with align_loop_reads [OF assms(2), of addr buf p crc] assms rest show ?thesis
      by (auto simp: crc32_no_comp_def)
  next
    case False
    with rest [OF assms(1)] assms(2) show ?thesis by (simp add: crc32_no_comp_def)
  qed
qed

lemma xor_ones: "(x :: u32) XOR 0xffffffff = NOT x"
proof -
  have "(0xffffffff :: u32) = - 1" by simp
  moreover have "x XOR - 1 = NOT x" by (rule bit_word_eqI) (auto simp: bit_simps)
  ultimately show ?thesis by (simp only:)
qed

lemma crc32_correct:
  "p + len \<le> length buf \<Longrightarrow>
     crc32 addr crc buf p len = Inr (NOT (crc_bytes (NOT crc) (take len (drop p buf))))"
  by (simp add: crc32_def crc32_no_comp_correct xor_ones)


section \<open>Errors the check detects\<close>

lemma xor_cancel_left: "(c :: u32) XOR a = c XOR b \<longleftrightarrow> a = b"
  by (metis xor.assoc xor.left_neutral xor_self_eq)

lemma xor_cancel_right: "(a :: u32) XOR c = b XOR c \<longleftrightarrow> a = b"
  by (metis xor.commute xor_cancel_left)

lemma crc_step_bit31: "bit (crc_step c) 31 = bit c 0"
proof -
  have "bit (0xedb88320 :: u32) 31" by simp
  then show ?thesis
    by (auto simp: crc_step_def crc_poly_value and_one_eq mod_2_eq_odd bit_xor_iff bit_drop_bit_eq bit_0
        dest: bit_imp_le_length)
qed

lemma crc_step_inj: "crc_step a = crc_step b \<Longrightarrow> a = b"
proof -
  assume eq: "crc_step a = crc_step b"
  then have low: "bit a 0 = bit b 0" by (metis crc_step_bit31)
  with eq have "drop_bit 1 a = drop_bit 1 b"
    by (auto simp: crc_step_def and_one_eq mod_2_eq_odd bit_0 xor_cancel_left split: if_splits)
  then have "bit a (Suc n) = bit b (Suc n)" for n
    by (metis add.commute bit_drop_bit_eq comp_apply plus_1_eq_Suc)
  with low show "a = b"
    by (metis bit_eqI not0_implies_Suc)
qed

lemma crc_steps_inj: "crc_steps k a = crc_steps k b \<Longrightarrow> a = b"
  by (induction k arbitrary: a b) (auto dest: crc_step_inj)

lemma crc_bytes_inj: "crc_bytes a bs = crc_bytes b bs \<Longrightarrow> a = b"
  by (induction bs arbitrary: a b) (force simp: crc_update_def xor_cancel_right dest: crc_steps_inj)+

lemma le32_inj: "le32 a0 a1 a2 a3 = le32 b0 b1 b2 b3 \<Longrightarrow> a0 = b0 \<and> a1 = b1 \<and> a2 = b2 \<and> a3 = b3"
proof -
  assume eq: "le32 a0 a1 a2 a3 = le32 b0 b1 b2 b3"
  have "ucast (le32 c0 c1 c2 c3) = c0" "ucast (drop_bit 8 (le32 c0 c1 c2 c3)) = c1"
    "ucast (drop_bit 16 (le32 c0 c1 c2 c3)) = c2" "ucast (drop_bit 24 (le32 c0 c1 c2 c3)) = c3"
    for c0 c1 c2 c3 :: u8
    unfolding le32_def by (rule bit_word_eqI; auto simp: bit_simps dest: bit_imp_le_length)+
  with eq show ?thesis by metis
qed

lemma crc_bytes_four_inj:
  assumes "length xs = 4" "length ys = 4" "crc_bytes c xs = crc_bytes c ys"
  shows "xs = ys"
proof -
  obtain a0 a1 a2 a3 where x: "xs = [a0, a1, a2, a3]"
    using assms(1) by (auto simp: length_Suc_conv numeral_eq_Suc)
  obtain b0 b1 b2 b3 where y: "ys = [b0, b1, b2, b3]"
    using assms(2) by (auto simp: length_Suc_conv numeral_eq_Suc)
  note e = assms(3) [unfolded x y four_bytes [symmetric]]
  have "c XOR le32 a0 a1 a2 a3 = c XOR le32 b0 b1 b2 b3"
    by (rule crc_steps_inj [OF crc_steps_inj [OF crc_steps_inj [OF crc_steps_inj [OF e]]]])
  then have "le32 a0 a1 a2 a3 = le32 b0 b1 b2 b3" by (simp add: xor_cancel_left)
  then show ?thesis unfolding x y by (simp add: le32_inj)
qed

lemma crc_bytes_short_inj:
  assumes "length xs = length ys" "length xs \<le> 4" "crc_bytes c xs = crc_bytes c ys"
  shows "xs = ys"
proof -
  let ?pad = "replicate (4 - length xs) 0"
  have "crc_bytes c (xs @ ?pad) = crc_bytes c (ys @ ?pad)" using assms(3) by simp
  then have "xs @ ?pad = ys @ ?pad" using assms(1,2) by (intro crc_bytes_four_inj [of _ _ c]) auto
  then show ?thesis by simp
qed

lemma crc_bytes_burst:
  assumes "length old = length new" "length old \<le> 4" "old \<noteq> new"
  shows "crc_bytes c (pre @ old @ post) \<noteq> crc_bytes c (pre @ new @ post)"
  using assms crc_bytes_inj crc_bytes_short_inj by fastforce

section \<open>Properties\<close>

text \<open>C16: The optimised check sum (a table of 256 entries, single bytes up to the first aligned word, then
  words, then the rest) is the bit-serial shift register of the polynomial 0xedb88320 started at the
  complement and complemented at the end, for every alignment of the buffer, every starting value and
  every length; a length beyond the end of the buffer is an access out of bounds.
\<close>

theorem crc32_is_shift_register:
  "crc32 addr crc buf p len =
     (if p + len \<le> length buf \<or> len = 0
      then Inr (NOT (foldl (\<lambda>c b. crc_steps 8 (c XOR ucast b)) (NOT crc) (take len (drop p buf))))
      else Inl Out_Of_Bounds)"
proof -
  have "foldl (\<lambda>c b. crc_steps 8 (c XOR ucast b)) c bs = crc_bytes c bs" for c bs
    by (simp add: crc_bytes_def crc_update_def [abs_def])
  moreover have "crc32 addr crc buf p 0 = Inr (NOT (NOT crc))"
    by (simp add: crc32_def crc32_no_comp_def xor_ones)
  ultimately show ?thesis
    using crc32_correct [of p len buf addr crc] crc32_no_comp_error [of buf p len]
    by (auto simp: crc32_def)
qed

text \<open>C17: Two buffers of the same length that differ only within four consecutive bytes have different
  check sums, wherever they lie in memory: a burst error of up to 32 bits is always detected.
\<close>

theorem crc32_detects_burst:
  assumes "length old = length new" "length old \<le> 4" "old \<noteq> new"
    and n: "n = length pre + length old + length post"
  shows "crc32 addr crc (pre @ old @ post) 0 n \<noteq> crc32 addr' crc (pre @ new @ post) 0 n"
  using crc_bytes_burst [OF assms(1-3), of "NOT crc" pre post] assms(1) n by (simp add: crc32_correct)

theorem crc32_detects_burst_witness:
  "crc32 0 0 ([1, 2] @ [3, 4] @ [5]) 0 5 \<noteq> crc32 3 0 ([1, 2] @ [4, 3] @ [5]) 0 5"
  by (rule crc32_detects_burst) simp_all

lemma started_chunks:
  assumes "0 < (sz :: nat)" "0 < n"
  shows "1 + (n - (if n > sz then sz else n) + sz - 1) div sz = (n + sz - 1) div sz"
proof (cases "n > sz")
  case True
  then have "n + sz - 1 = (n - sz + sz - 1) + sz" using assms by simp
  moreover have "((n - sz + sz - 1) + sz) div sz = (n - sz + sz - 1) div sz + 1"
    using assms by (intro div_add_self2) simp
  ultimately show ?thesis using True by (simp only: if_True add.commute)
next
  case False
  then have "n + sz - 1 = sz + (n - 1)" using assms by simp
  moreover have "(sz + (n - 1)) div sz = (n - 1) div sz + 1"
    using assms by (intro div_add_self1) simp
  moreover have "(n - 1) div sz = 0" "(sz - 1) div sz = 0" using False assms by auto
  ultimately show ?thesis using False by (simp only: if_False diff_self_eq_0 add_0 add_0_right)
qed

lemma crc32_wd_loop_correct:
  "\<lbrakk>fin \<le> length buf; 0 < chunk_sz; cur \<le> fin\<rbrakk> \<Longrightarrow>
     crc32_wd_loop addr buf cur fin chunk_sz r c
       = Inr (r + (fin - cur + chunk_sz - 1) div chunk_sz,
              NOT (crc_bytes (NOT c) (take (fin - cur) (drop cur buf))))"
proof (induction addr buf cur fin chunk_sz r c rule: crc32_wd_loop.induct)
  case (1 addr buf cur fin sz r c)
  show ?case
  proof (cases "cur < fin")
    case True
    define chunk where "chunk = (if fin - cur > sz then sz else fin - cur)"
    have ch: "0 < chunk" "cur + chunk \<le> fin" "chunk \<le> sz" using True 1 by (auto simp: chunk_def)
    let ?c = "NOT (crc_bytes (NOT c) (take chunk (drop cur buf)))"
    have crc: "crc32 addr c buf cur chunk = Inr ?c"
      using ch 1 by (intro crc32_correct) simp
    have "crc32_wd_loop addr buf cur fin sz r c = crc32_wd_loop addr buf (cur + chunk) fin sz (r + 1) ?c"
      using True ch crc by (subst crc32_wd_loop.simps) (simp add: Let_def flip: chunk_def)
    also have "\<dots> = Inr (r + 1 + (fin - (cur + chunk) + sz - 1) div sz,
         NOT (crc_bytes (NOT ?c) (take (fin - (cur + chunk)) (drop (cur + chunk) buf))))"
      using 1(1) [OF True refl refl] ch 1(2-) by (simp flip: chunk_def)
    also have "r + 1 + (fin - (cur + chunk) + sz - 1) div sz = r + (fin - cur + sz - 1) div sz"
      using started_chunks [OF 1(3), of "fin - cur"] True by (simp add: chunk_def)
    also have "crc_bytes (NOT ?c) (take (fin - (cur + chunk)) (drop (cur + chunk) buf))
        = crc_bytes (NOT c) (take (fin - cur) (drop cur buf))"
      using crc_bytes_take_drop [of chunk "fin - cur" "NOT c" "drop cur buf"] ch
      by (simp add: add.commute diff_diff_add)
    finally show ?thesis .
  next
    case False
    then show ?thesis using 1 by (simp add: crc32_wd_loop.simps)
  qed
qed

text \<open>With a watchdog the check sum is computed chunk by chunk and the watchdog is reset after each
  chunk; for every positive chunk size this gives the check sum of the whole buffer after one reset
  per started chunk.
\<close>

lemma crc32_wd_same:
  assumes "len \<le> length buf" "0 < chunk_sz"
  shows "crc32_wd True addr crc buf len chunk_sz =
           bind_result (crc32 addr crc buf 0 len)
             (\<lambda>c. Inr ((len + chunk_sz - 1) div chunk_sz, c))"
  using assms by (simp add: crc32_wd_def crc32_wd_loop_correct crc32_correct)

lemma crc32_wd_same_witness:
  "crc32_wd True 1 0 [1, 2, 3, 4, 5, 6, 7] 7 3
     = bind_result (crc32 1 0 [1, 2, 3, 4, 5, 6, 7] 0 7) (\<lambda>c. Inr (3, c))"
  using crc32_wd_same [of 7 "[1, 2, 3, 4, 5, 6, 7]" 3 1 0] by simp

end
