(* ===== verification/Env_Store.thy ===== *)
theory Env_Store
  imports Env_Text Crc32
begin

text \<open>
  common/env_common.c and common/env_nand.c: where the environment comes from and goes to.  The record
  \<open>env_world\<close> holds the hash table, the fields of the global data that concern the environment, and the
  flash.  \<open>CONFIG_ENV_OFFSET\<close>, \<open>CONFIG_ENV_RANGE\<close> and \<open>CONFIG_ENV_SIZE\<close> are variables of the board that
  \<open>board_init\<close> sets from the partition table; they, the default environment and the functions of the flash
  device (function pointers of \<open>nand_info\<close>) are the record \<open>env_cfg\<close>.  There is no second copy of the environment
  (\<open>CONFIG_ENV_OFFSET_REDUND\<close> is not defined) and its offset is not kept in the spare area.
  Console output is not modelled.
\<close>

section \<open>State\<close>

record 'f env_cfg =
  env_offset :: nat
  env_range :: nat
  env_size :: nat
  default_environment :: mem
  erasesize :: nat
  nand_block_isbad :: "nat \<Rightarrow> 'f \<Rightarrow> bool"
  nand_write :: "nat \<Rightarrow> u8 list \<Rightarrow> 'f \<Rightarrow> int \<times> nat \<times> 'f"
  nand_read_skip_bad :: "nat \<Rightarrow> nat \<Rightarrow> 'f \<Rightarrow> int \<times> nat \<times> u8 list"
  nand_erase_opts :: "nat \<Rightarrow> nat \<Rightarrow> 'f \<Rightarrow> int \<times> 'f"

record 'f env_world =
  env_htab :: hsearch_data
  env_valid :: nat
  env_addr :: mem
  env_ready :: bool
  env_reloc :: bool
  env_flash :: 'f

abbreviation (input) ENV_HEADER_SIZE :: nat where "ENV_HEADER_SIZE \<equiv> 4"
abbreviation (input) CONFIG_ENV_SIZE_MAX :: nat where "CONFIG_ENV_SIZE_MAX \<equiv> 262144"

definition ENV_SIZE :: "'f env_cfg \<Rightarrow> nat" where
  "ENV_SIZE C = env_size C - ENV_HEADER_SIZE"

text \<open>\<open>env_t\<close> as it lies in memory: the check sum, little endian, and the data.\<close>

definition crc_field :: "u32 \<Rightarrow> u8 list" where
  "crc_field c = [ucast c, ucast (drop_bit 8 c), ucast (drop_bit 16 c), ucast (drop_bit 24 c)]"

section \<open>The flash\<close>

text \<open>
  The loop of \<open>writeenv\<close>.  Each pass moves \<open>offset\<close> by \<open>blocksize\<close>, so \<open>end - offset\<close> passes are enough, unless
  \<open>blocksize\<close> is 0 and the loop makes no progress.
\<close>

fun write_loop :: "'f env_cfg \<Rightarrow> nat \<Rightarrow> nat \<Rightarrow> nat \<Rightarrow> nat \<Rightarrow> nat \<Rightarrow> mem \<Rightarrow> 'f \<Rightarrow> (int \<times> 'f) result" where
  "write_loop C n fin len offset amount_saved buf f =
     (if amount_saved < env_size C \<and> offset < fin then
        case n of
          0 \<Rightarrow> Inl Non_Termination
        | Suc n \<Rightarrow>
            if nand_block_isbad C offset f then write_loop C n fin len (offset + erasesize C) amount_saved buf f
            else if length buf < amount_saved + len then Inl Out_Of_Bounds
            else
              (case nand_write C offset (take len (drop amount_saved buf)) f of
                 (r, len, f) \<Rightarrow>
                   if r \<noteq> 0 then Inr (1, f)
                   else write_loop C n fin len (offset + erasesize C) (amount_saved + len) buf f)
      else Inr (if amount_saved \<noteq> env_size C then 1 else 0, f))"

declare write_loop.simps [simp del]

definition writeenv :: "'f env_cfg \<Rightarrow> nat \<Rightarrow> mem \<Rightarrow> 'f \<Rightarrow> (int \<times> 'f) result" where
  "writeenv C offset buf f =
     write_loop C (env_range C) (offset + env_range C) (min (erasesize C) (env_size C)) offset 0 buf f"

fun read_loop :: "'f env_cfg \<Rightarrow> nat \<Rightarrow> nat \<Rightarrow> nat \<Rightarrow> nat \<Rightarrow> nat \<Rightarrow> mem \<Rightarrow> 'f \<Rightarrow> (int \<times> mem) result" where
  "read_loop C n fin len offset amount_loaded buf f =
     (if amount_loaded < env_size C \<and> offset < fin then
        case n of
          0 \<Rightarrow> Inl Non_Termination
        | Suc n \<Rightarrow>
            if nand_block_isbad C offset f then read_loop C n fin len (offset + erasesize C) amount_loaded buf f
            else
              (case nand_read_skip_bad C offset len f of
                 (r, len', d) \<Rightarrow>
                   if r \<noteq> 0 then Inr (1, buf)
                   else if length buf < amount_loaded + length d then Inl Out_Of_Bounds
                   else read_loop C n fin len' (offset + erasesize C) (amount_loaded + len')
                          (put_bytes amount_loaded d buf) f)
      else Inr (if amount_loaded \<noteq> env_size C then 1 else 0, buf))"

declare read_loop.simps [simp del]

definition readenv :: "'f env_cfg \<Rightarrow> nat \<Rightarrow> mem \<Rightarrow> 'f \<Rightarrow> (int \<times> mem) result" where
  "readenv C offset buf f =
     (if erasesize C = 0 then Inr (1, buf)
      else read_loop C (env_range C) (offset + env_range C) (min (erasesize C) (env_size C)) offset 0 buf f)"

section \<open>Saving and loading\<close>

text \<open>\<open>stack\<close> is what the array \<open>env_new.data\<close> on the stack holds before.\<close>

definition nand_saveenv :: "'f env_cfg \<Rightarrow> mem \<Rightarrow> 'f env_world \<Rightarrow> (int \<times> 'f env_world) result" where
  "nand_saveenv C stack w =
     (if env_range C < env_size C then Inr (1, w)
      else
        bind_result (hexport_r (\<lambda>_. True) (env_htab w) 0 (Some stack) (ENV_SIZE C) []) (\<lambda>(len, res).
        if len < 0 then Inr (1, w)
        else
          let data = (case res of None \<Rightarrow> [] | Some d \<Rightarrow> d)
          in bind_result (crc32 0 0 data 0 (ENV_SIZE C)) (\<lambda>crc.
             case nand_erase_opts C (env_offset C) (env_range C) (env_flash w) of
               (r, f) \<Rightarrow>
                 if r \<noteq> 0 then Inr (1, w\<lparr>env_flash := f\<rparr>)
                 else
                   bind_result (writeenv C (env_offset C) (crc_field crc @ data) f) (\<lambda>(r, f).
                   Inr (if r \<noteq> 0 then 1 else 0, w\<lparr>env_flash := f\<rparr>)))))"

definition set_default_env :: "'f env_cfg \<Rightarrow> 'f env_world \<Rightarrow> 'f env_world result" where
  "set_default_env C w =
     (if ENV_SIZE C < length (default_environment C) then Inr w
      else
        bind_result (himport_r (\<lambda>_. True) (env_htab w) (default_environment C) (length (default_environment C)) 0 False)
          (\<lambda>(r, h). Inr (w\<lparr>env_htab := h, env_ready := True\<rparr>)))"

definition env_import :: "'f env_cfg \<Rightarrow> mem \<Rightarrow> nat \<Rightarrow> mem \<Rightarrow> bool \<Rightarrow> 'f env_world \<Rightarrow> (int \<times> 'f env_world) result" where
  "env_import C stack addr buf check w =
     (if length buf < ENV_HEADER_SIZE then Inl Out_Of_Bounds
      else
        let import = bind_result (himport_r (\<lambda>_. True) (env_htab w) (drop ENV_HEADER_SIZE buf) (ENV_SIZE C) 0 False) (\<lambda>(r, h).
              let w = w\<lparr>env_htab := h\<rparr>
              in if r \<noteq> 0 then Inr (1, w\<lparr>env_ready := True\<rparr>)
                 else bind_result (set_default_env C w) (\<lambda>w. Inr (0, w)))
        in if check then
             bind_result (load32 buf 0) (\<lambda>crc.
             bind_result (crc32 addr 0 (drop ENV_HEADER_SIZE buf) 0 (ENV_SIZE C)) (\<lambda>sum.
             if sum \<noteq> crc then
               bind_result (set_default_env C w) (\<lambda>w.
               bind_result (nand_saveenv C stack w) (\<lambda>(r, w). Inr (0, w)))
             else import))
           else import)"

definition nand_env_init :: "'f env_cfg \<Rightarrow> 'f env_world \<Rightarrow> int \<times> 'f env_world" where
  "nand_env_init C w = (0, w\<lparr>env_addr := default_environment C, env_valid := 1\<rparr>)"

text \<open>\<open>buf\<close> is what the array \<open>buf\<close> of \<open>CONFIG_ENV_SIZE_MAX\<close> bytes holds before.\<close>

definition nand_env_relocate_spec :: "'f env_cfg \<Rightarrow> mem \<Rightarrow> nat \<Rightarrow> mem \<Rightarrow> 'f env_world \<Rightarrow> 'f env_world result" where
  "nand_env_relocate_spec C stack addr buf w =
     bind_result (readenv C (env_offset C) buf (env_flash w)) (\<lambda>(ret, buf).
     if ret \<noteq> 0 then set_default_env C w
     else bind_result (env_import C stack addr buf True w) (\<lambda>(r, w). Inr w))"

definition env_relocate :: "'f env_cfg \<Rightarrow> mem \<Rightarrow> nat \<Rightarrow> mem \<Rightarrow> 'f env_world \<Rightarrow> 'f env_world result" where
  "env_relocate C stack addr buf w =
     (if env_valid w = 0 then set_default_env C w else nand_env_relocate_spec C stack addr buf w)"

text \<open>A pointer into the environment is the memory from there on.\<close>

definition env_get_addr :: "'f env_cfg \<Rightarrow> nat \<Rightarrow> 'f env_world \<Rightarrow> mem" where
  "env_get_addr C i w = drop i (if env_valid w \<noteq> 0 then env_addr w else default_environment C)"

definition env_get_char_init :: "'f env_cfg \<Rightarrow> nat \<Rightarrow> 'f env_world \<Rightarrow> u8 result" where
  "env_get_char_init C i w = load8 (if env_valid w \<noteq> 0 then env_addr w else default_environment C) i"

definition env_get_char_memory :: "'f env_cfg \<Rightarrow> nat \<Rightarrow> 'f env_world \<Rightarrow> u8 result" where
  "env_get_char_memory C i w = load8 (env_get_addr C i w) 0"

definition env_get_char :: "'f env_cfg \<Rightarrow> nat \<Rightarrow> 'f env_world \<Rightarrow> u8 result" where
  "env_get_char C i w = (if env_reloc w then env_get_char_memory C i w else env_get_char_init C i w)"

section \<open>A flash that works\<close>

definition block_len :: "'f env_cfg \<Rightarrow> nat" where
  "block_len C = min (erasesize C) (env_size C)"

definition block_start :: "'f env_cfg \<Rightarrow> nat \<Rightarrow> bool" where
  "block_start C p \<longleftrightarrow> (\<exists>k. p = env_offset C + k * erasesize C)"

text \<open>
  What is expected of the device: erasing makes the good blocks of the partition blank; writing to a blank good block
  succeeds, can be read back, and leaves the other blocks alone; no block goes bad.
\<close>

definition erase_works :: "'f env_cfg \<Rightarrow> ('f \<Rightarrow> bool) \<Rightarrow> (nat \<Rightarrow> 'f \<Rightarrow> bool) \<Rightarrow> bool" where
  "erase_works C ok blank \<longleftrightarrow> (\<forall>f. ok f \<longrightarrow> (\<exists>f'. nand_erase_opts C (env_offset C) (env_range C) f = (0, f') \<and> ok f'
     \<and> (\<forall>p. nand_block_isbad C p f' = nand_block_isbad C p f)
     \<and> (\<forall>p. block_start C p \<and> \<not> nand_block_isbad C p f \<longrightarrow> blank p f')))"

definition write_works :: "'f env_cfg \<Rightarrow> ('f \<Rightarrow> bool) \<Rightarrow> (nat \<Rightarrow> 'f \<Rightarrow> bool) \<Rightarrow> bool" where
  "write_works C ok blank \<longleftrightarrow> (\<forall>f p d. ok f \<and> block_start C p \<and> \<not> nand_block_isbad C p f \<and> blank p f \<and> length d = block_len C \<longrightarrow>
     (\<exists>f'. nand_write C p d f = (0, length d, f') \<and> ok f' \<and> (\<forall>q. nand_block_isbad C q f' = nand_block_isbad C q f)
       \<and> nand_read_skip_bad C p (block_len C) f' = (0, block_len C, d)
       \<and> (\<forall>q. block_start C q \<and> q \<noteq> p \<and> \<not> nand_block_isbad C q f \<longrightarrow>
            (blank q f \<longrightarrow> blank q f') \<and> nand_read_skip_bad C q (block_len C) f' = nand_read_skip_bad C q (block_len C) f)))"

fun good_blocks :: "'f env_cfg \<Rightarrow> nat \<Rightarrow> nat \<Rightarrow> nat \<Rightarrow> 'f \<Rightarrow> nat" where
  "good_blocks C 0 fin p f = 0"
| "good_blocks C (Suc n) fin p f =
     (if p < fin then (if nand_block_isbad C p f then 0 else 1) + good_blocks C n fin (p + erasesize C) f else 0)"

lemma good_blocks_cong:
  "(\<And>p. nand_block_isbad C p f = nand_block_isbad C p g) \<Longrightarrow> good_blocks C n fin p f = good_blocks C n fin p g"
  by (induction n arbitrary: p) simp_all

lemma block_start_next: "block_start C p \<Longrightarrow> block_start C (p + erasesize C)"
  by (auto simp: block_start_def) (metis mult_Suc add.commute)

lemma put_bytes_twice:
  "a + length d + length e \<le> length b \<Longrightarrow> put_bytes (a + length d) e (put_bytes a d b) = put_bytes a (d @ e) b"
  by (simp add: put_bytes_def ac_simps)

text \<open>Writing and reading visit the same good blocks, so what is read is what was written.\<close>

definition transfers :: "'f env_cfg \<Rightarrow> nat \<Rightarrow> nat \<Rightarrow> nat \<Rightarrow> nat \<Rightarrow> mem \<Rightarrow> 'f \<Rightarrow> 'f \<Rightarrow> bool" where
  "transfers C n fin p a buf f f' \<longleftrightarrow> write_loop C n fin (block_len C) p a buf f = Inr (0, f')
     \<and> (\<forall>q. nand_block_isbad C q f' = nand_block_isbad C q f)
     \<and> (\<forall>q<p. block_start C q \<and> \<not> nand_block_isbad C q f \<longrightarrow>
          nand_read_skip_bad C q (block_len C) f' = nand_read_skip_bad C q (block_len C) f)
     \<and> (\<forall>b. env_size C \<le> length b \<longrightarrow> read_loop C n fin (block_len C) p a b f'
          = Inr (0, put_bytes a (take (env_size C - a) (drop a buf)) b))"

lemma transfers_full: "a = env_size C \<Longrightarrow> transfers C n fin p a buf f f"
  by (simp add: transfers_def write_loop.simps read_loop.simps)

lemma transfers_bad:
  assumes "transfers C n fin (p + erasesize C) a buf f f'" "a < env_size C" "p < fin" "nand_block_isbad C p f"
  shows "transfers C (Suc n) fin p a buf f f'"
  using assms unfolding transfers_def by (subst write_loop.simps, subst read_loop.simps) auto

lemma transfers_good:
  assumes IH: "transfers C n fin (p + erasesize C) (a + block_len C) buf f1 f'"
    and step: "nand_write C p (take (block_len C) (drop a buf)) f = (0, block_len C, f1)"
      "\<forall>q. nand_block_isbad C q f1 = nand_block_isbad C q f"
      "nand_read_skip_bad C p (block_len C) f1 = (0, block_len C, take (block_len C) (drop a buf))"
      "\<forall>q. block_start C q \<and> q \<noteq> p \<and> \<not> nand_block_isbad C q f \<longrightarrow>
         nand_read_skip_bad C q (block_len C) f1 = nand_read_skip_bad C q (block_len C) f"
    and p: "p < fin" "\<not> nand_block_isbad C p f" "block_start C p" "0 < erasesize C"
    and a: "a < env_size C" "a + block_len C \<le> env_size C" "env_size C \<le> length buf"
  shows "transfers C (Suc n) fin p a buf f f'"
proof -
  define d where "d = take (block_len C) (drop a buf)"
  have d: "length d = block_len C" using a by (simp add: d_def)
  have bad: "\<forall>q. nand_block_isbad C q f' = nand_block_isbad C q f" using IH step(2) by (simp add: transfers_def)
  have old: "nand_read_skip_bad C q (block_len C) f' = nand_read_skip_bad C q (block_len C) f1"
    if "q < p + erasesize C" "block_start C q" "\<not> nand_block_isbad C q f" for q
    using IH that step(2) by (simp add: transfers_def)
  have rd: "nand_read_skip_bad C p (block_len C) f' = (0, block_len C, d)"
    using old [of p] p step(3) by (simp add: d_def)
  have split: "take (env_size C - a) (drop a buf) = d @ take (env_size C - (a + block_len C)) (drop (a + block_len C) buf)"
  proof -
    have "env_size C - a = block_len C + (env_size C - (a + block_len C))" using a by simp
    then show ?thesis unfolding d_def by (simp only: take_add drop_drop add.commute)
  qed
  have "read_loop C (Suc n) fin (block_len C) p a b f' = Inr (0, put_bytes a (take (env_size C - a) (drop a buf)) b)"
    if b: "env_size C \<le> length b" for b
  proof -
    have len: "a + length d \<le> length b" using a(2) b d by simp
    have "read_loop C (Suc n) fin (block_len C) p a b f'
        = read_loop C n fin (block_len C) (p + erasesize C) (a + block_len C) (put_bytes a d b) f'"
      using p a(1) bad rd len by (subst read_loop.simps) simp
    also have "\<dots> = Inr (0, put_bytes (a + length d) (take (env_size C - (a + block_len C)) (drop (a + block_len C) buf)) (put_bytes a d b))"
      using IH b len d by (simp add: transfers_def)
    also have "\<dots> = Inr (0, put_bytes a (take (env_size C - a) (drop a buf)) b)"
      unfolding split using a b d by (subst put_bytes_twice) auto
    finally show ?thesis .
  qed
  moreover have "write_loop C (Suc n) fin (block_len C) p a buf f = Inr (0, f')"
    using IH step(1) p a by (subst write_loop.simps) (simp add: transfers_def)
  ultimately show ?thesis using bad old step(4) p(4) unfolding transfers_def by force
qed

lemma write_then_read:
  assumes W: "write_works C ok blank" and e: "0 < erasesize C"
  shows "\<lbrakk>ok f; block_start C p; \<forall>q\<ge>p. block_start C q \<and> \<not> nand_block_isbad C q f \<longrightarrow> blank q f;
     a \<le> env_size C; block_len C dvd env_size C - a; env_size C - a \<le> good_blocks C n fin p f * block_len C;
     env_size C \<le> length buf\<rbrakk> \<Longrightarrow> \<exists>f'. transfers C n fin p a buf f f'"
proof (induction n arbitrary: p a f)
  case 0
  then show ?case using transfers_full by fastforce
next
  case (Suc n)
  note next_start = block_start_next [OF Suc.prems(2)]
  consider (full) "a = env_size C" | (bad) "a < env_size C" "p < fin" "nand_block_isbad C p f"
    | (good) "a < env_size C" "p < fin" "\<not> nand_block_isbad C p f"
    using Suc.prems(4,6) by (cases "p < fin"; cases "nand_block_isbad C p f"; cases "a = env_size C") auto
  then show ?case
  proof cases
    case full
    show ?thesis by (rule exI) (rule transfers_full [OF full])
  next
    case bad
    then have count: "env_size C - a \<le> good_blocks C n fin (p + erasesize C) f * block_len C" using Suc.prems(6) by simp
    have "\<forall>q\<ge>p + erasesize C. block_start C q \<and> \<not> nand_block_isbad C q f \<longrightarrow> blank q f"
      using Suc.prems(3) by (meson add_leD1)
    then obtain f' where "transfers C n fin (p + erasesize C) a buf f f'"
      using Suc.IH [OF Suc.prems(1) next_start _ Suc.prems(4,5) count Suc.prems(7)] by blast
    then have "transfers C (Suc n) fin p a buf f f'" using bad by (rule transfers_bad)
    then show ?thesis by (rule exI)
  next
    case good
    have len: "a + block_len C \<le> env_size C" using dvd_imp_le [OF Suc.prems(5)] good(1) by simp
    then have "length (take (block_len C) (drop a buf)) = block_len C" using Suc.prems(7) by simp
    then have pre: "ok f \<and> block_start C p \<and> \<not> nand_block_isbad C p f \<and> blank p f
        \<and> length (take (block_len C) (drop a buf)) = block_len C"
      using Suc.prems(1-3) good(3) by blast
    then obtain f1 where f1: "nand_write C p (take (block_len C) (drop a buf)) f = (0, block_len C, f1)" "ok f1"
        "\<forall>q. nand_block_isbad C q f1 = nand_block_isbad C q f"
        "nand_read_skip_bad C p (block_len C) f1 = (0, block_len C, take (block_len C) (drop a buf))"
        "\<forall>q. block_start C q \<and> q \<noteq> p \<and> \<not> nand_block_isbad C q f \<longrightarrow> (blank q f \<longrightarrow> blank q f1)
          \<and> nand_read_skip_bad C q (block_len C) f1 = nand_read_skip_bad C q (block_len C) f"
      using W [unfolded write_works_def, rule_format, OF pre] by auto
    have "good_blocks C n fin (p + erasesize C) f1 = good_blocks C n fin (p + erasesize C) f"
      using f1(3) by (intro good_blocks_cong) simp
    then have count: "env_size C - (a + block_len C) \<le> good_blocks C n fin (p + erasesize C) f1 * block_len C"
      using Suc.prems(6) good by simp
    have dvd: "block_len C dvd env_size C - (a + block_len C)"
      using dvd_diff_nat [OF Suc.prems(5) dvd_refl] by simp
    have "\<forall>q\<ge>p + erasesize C. block_start C q \<and> \<not> nand_block_isbad C q f1 \<longrightarrow> blank q f1"
      using f1(3,5) Suc.prems(3) e by auto
    then obtain f' where "transfers C n fin (p + erasesize C) (a + block_len C) buf f1 f'"
      using Suc.IH [OF f1(2) next_start _ len dvd count Suc.prems(7)] by blast
    then have "transfers C (Suc n) fin p a buf f f'"
      using transfers_good [OF _ f1(1,3,4) _ good(2,3) Suc.prems(2) e good(1) len Suc.prems(7)] f1(5) by blast
    then show ?thesis by (rule exI)
  qed
qed

section \<open>The image of the environment\<close>

definition crc_of :: "u8 list \<Rightarrow> u32" where
  "crc_of d = NOT (crc_bytes (NOT 0) d)"

lemma crc_of_crc32: "n \<le> length buf \<Longrightarrow> crc32 addr 0 buf 0 n = Inr (crc_of (take n buf))"
  using crc32_correct [of 0 n buf addr 0] by (simp add: crc_of_def)

lemma length_crc_field [simp]: "length (crc_field c) = 4"
  by (simp add: crc_field_def)

lemma load32_crc_field: "load32 (crc_field c @ d) 0 = Inr c"
proof -
  have "le32 (ucast c) (ucast (drop_bit 8 c)) (ucast (drop_bit 16 c)) (ucast (drop_bit 24 c)) = c"
  proof (rule bit_word_eqI)
    fix n assume "n < LENGTH(32)"
    then show "bit (le32 (ucast c) (ucast (drop_bit 8 c)) (ucast (drop_bit 16 c)) (ucast (drop_bit 24 c))) n = bit c n"
      by (cases "24 \<le> n"; cases "16 \<le> n") (auto simp: le32_def bit_simps)
  qed
  then show ?thesis by (simp add: load32_def crc_field_def)
qed

lemma himport_take: "sz \<le> length env \<Longrightarrow> himport_r alloc htab env sz sep nc = himport_r alloc htab (take sz env) sz sep nc"
  by (simp add: himport_r_def)

text \<open>A good check sum: the text is imported.  A wrong one: the default environment is loaded and saved.\<close>

lemma env_import_good:
  assumes "4 + ENV_SIZE C \<le> length buf" "take (4 + ENV_SIZE C) buf = crc_field (crc_of d) @ d"
    "himport_r (\<lambda>_. True) (env_htab w) d (ENV_SIZE C) 0 False = Inr (1, h)"
  shows "env_import C stack addr buf True w = Inr (1, w\<lparr>env_htab := h, env_ready := True\<rparr>)"
proof -
  have b: "buf = crc_field (crc_of d) @ d @ drop (4 + ENV_SIZE C) buf"
    using assms(2) append_take_drop_id [of "4 + ENV_SIZE C" buf] by simp
  have d: "length d = ENV_SIZE C" using arg_cong [OF assms(2), of length] assms(1) by simp
  have "load32 buf 0 = Inr (crc_of d)" by (subst b) (rule load32_crc_field)
  moreover have dr: "take (ENV_SIZE C) (drop 4 buf) = d" "ENV_SIZE C \<le> length (drop 4 buf)"
  proof -
    show "take (ENV_SIZE C) (drop 4 buf) = d" using d by (subst b) simp
    show "ENV_SIZE C \<le> length (drop 4 buf)" using assms(1) by simp
  qed
  ultimately show ?thesis
    using assms(1,3) himport_take [of "ENV_SIZE C" "drop 4 buf"] crc_of_crc32 [of "ENV_SIZE C" "drop 4 buf"]
    by (simp add: env_import_def Let_def)
qed

lemma env_import_damaged:
  assumes "4 + ENV_SIZE C \<le> length buf" "load32 buf 0 = Inr c" "crc_of (take (ENV_SIZE C) (drop 4 buf)) \<noteq> c"
  shows "env_import C stack addr buf True w =
    bind_result (set_default_env C w) (\<lambda>w. bind_result (nand_saveenv C stack w) (\<lambda>(r, w). Inr (0, w)))"
  using assms crc_of_crc32 [of "ENV_SIZE C" "drop 4 buf"] by (simp add: env_import_def Let_def)

text \<open>
  The environments that can be saved: at least one variable, names and values that survive as text, and room for
  the text, which is counted with four more characters for each variable.
\<close>

definition text_room :: "(u8 list \<Rightarrow> u8 list option) \<Rightarrow> nat" where
  "text_room m = (\<Sum>k\<in>dom m. length k + length (the (m k)) + 4)"

definition savable :: "hsearch_data \<Rightarrow> nat \<Rightarrow> bool" where
  "savable htab room \<longleftrightarrow> store_inv htab \<and> dom (store_view htab) \<noteq> {} \<and> card (dom (store_view htab)) \<le> 64
     \<and> (\<forall>k v. store_view htab k = Some v \<longrightarrow> plain_name 0 k \<and> plain_value v \<and> (\<forall>c\<in>set k. c < 128) \<and> 92 \<notin> set v)
     \<and> text_room (store_view htab) < room"

lemma export_room:
  assumes inv: "store_inv htab" and t: "htable htab = Some t" "table_ok (hsize htab) t"
    and esc: "\<forall>k v. store_view htab k = Some v \<longrightarrow> 92 \<notin> set v \<and> 0 \<notin> set v"
  shows "export_scan 0 [] t (hsize htab) 1 = Inr (live_slots (hsize htab) t, text_room (store_view htab))"
proof -
  let ?es = "map (entry t) (live_slots (hsize htab) t)"
  note e = exported_entries [OF inv t refl]
  have view: "store_view htab (key_of (t ! i)) = Some (data_of (t ! i))" if "i \<in> {1..hsize htab}" "live (t ! i)" for i
    using that e(2) by (auto simp: live_slots_set entry_def)
  have keys: "set (map fst ?es) = dom (store_view htab)"
    using arg_cong [OF e(1), of dom] by (simp add: dom_map_of_conv_image_fst image_image)
  moreover have "card (set (map fst ?es)) = length (map fst ?es)" using e(3) keys by simp
  ultimately have dist: "distinct (map fst ?es)" by (intro card_distinct)
  have "export_scan 0 [] t (hsize htab) 1 =
      Inr (live_slots (hsize htab) t, sum_list (map (\<lambda>i. length (env_line 0 (entry t i)) + 2) (live_slots (hsize htab) t)))"
  proof -
    have "\<forall>i\<in>{1..hsize htab}. live (t ! i) \<longrightarrow> (0 :: u8) = 0 \<longrightarrow> 92 \<notin> set (data_of (t ! i))" using view esc by blast
    then show ?thesis using export_scan_live [OF t(2), of 0 1 "hsize htab"] by (simp add: live_slots_def del: upt_Suc)
  qed
  also have "sum_list (map (\<lambda>i. length (env_line 0 (entry t i)) + 2) (live_slots (hsize htab) t))
      = sum_list (map (\<lambda>kv. length (env_line 0 kv) + 2) ?es)" by (simp add: comp_def)
  also have "map (\<lambda>kv. length (env_line 0 kv) + 2) ?es = map (\<lambda>k. length k + length (the (store_view htab k)) + 4) (map fst ?es)"
  proof -
    have "length (env_line 0 kv) + 2 = length (fst kv) + length (the (store_view htab (fst kv))) + 4" if "kv \<in> set ?es" for kv
      using e(2) that esc escaped_sep_0 [of "snd kv"] by (auto simp: env_line_def)
    then show ?thesis unfolding map_map comp_def by (intro map_cong refl) simp
  qed
  also have "sum_list (map (\<lambda>k. length k + length (the (store_view htab k)) + 4) (map fst ?es)) = text_room (store_view htab)"
    unfolding text_room_def keys [symmetric] by (rule sum_list_distinct_conv_sum_set [OF dist])
  finally show ?thesis .
qed

lemma savable_export:
  assumes s: "savable htab sz" and res: "sz \<le> length res"
  shows "\<exists>d. hexport_r (\<lambda>_. True) htab 0 (Some res) sz [] = Inr (int sz, Some (d @ drop sz res)) \<and> length d = sz
    \<and> (\<forall>h. htable h = None \<longrightarrow> (\<exists>h'. himport_r (\<lambda>_. True) h d sz 0 False = Inr (1, h')
         \<and> store_inv h' \<and> store_view h' = store_view htab))"
proof -
  have inv: "store_inv htab" using s by (simp add: savable_def)
  then obtain t where t: "htable htab = Some t" "table_ok (hsize htab) t" by (rule store_invE)
  have view: "store_view htab = table_view t" by (simp add: store_view_def t(1))
  have entries: "store_view htab (key_of (t ! i)) = Some (data_of (t ! i))" if "i \<in> {1..hsize htab}" "live (t ! i)" for i
    using that by (auto simp: view table_view_eq_Some [OF t(2)] holds_def)
  have names: "plain_name 0 k \<and> plain_value v \<and> (\<forall>c\<in>set k. c < 128) \<and> 92 \<notin> set v" if "store_view htab k = Some v" for k v
    using s that by (simp add: savable_def)
  have room: "export_scan 0 [] t (hsize htab) 1 = Inr (live_slots (hsize htab) t, text_room (store_view htab))"
      "text_room (store_view htab) < sz"
    using export_room [OF inv t] names s by (auto simp: savable_def plain_value_def)
  obtain kvs m where ex: "hexport_r (\<lambda>_. True) htab 0 (Some res) sz []
      = Inr (int sz, Some (env_text 0 kvs @ 0 # replicate m 0 @ drop sz res))" "length (env_text 0 kvs) + 1 + m = sz"
    and perm: "mset kvs = mset (map (entry t) (live_slots (hsize htab) t))"
    using hexport_buffer [OF t _ _ room res] names [OF entries] by blast
  note e = exported_entries [OF inv t perm]
  have kvs: "kvs \<noteq> []" "length kvs \<le> 64" "\<forall>(k, v)\<in>set kvs. plain_name 0 k \<and> plain_value v"
    using s e names by (auto simp: savable_def)
  define d where "d = env_text 0 kvs @ 0 # replicate m 0"
  have d: "length d = sz" using ex(2) by (simp add: d_def)
  have "\<exists>h'. himport_r (\<lambda>_. True) h d sz 0 False = Inr (1, h') \<and> store_inv h' \<and> store_view h' = store_view htab"
    if "htable h = None" for h
    using himport_text [OF _ kvs d_def that, of False] e(1) d by auto
  then show ?thesis using ex(1) d by (intro exI [of _ d]) (simp add: d_def)
qed

section \<open>Properties\<close>

definition sizes_ok :: "'f env_cfg \<Rightarrow> 'f \<Rightarrow> mem \<Rightarrow> bool" where
  "sizes_ok C f stack \<longleftrightarrow> 4 < env_size C \<and> env_size C \<le> env_range C \<and> env_size C \<le> CONFIG_ENV_SIZE_MAX
     \<and> 0 < erasesize C \<and> block_len C dvd env_size C
     \<and> env_size C \<le> good_blocks C (env_range C) (env_offset C + env_range C) (env_offset C) f * block_len C
     \<and> length stack = CONFIG_ENV_SIZE_MAX - ENV_HEADER_SIZE"

lemma saveenv_writes:
  assumes works: "erase_works C ok blank" "write_works C ok blank" "ok (env_flash w)" and sz: "sizes_ok C (env_flash w) stack"
    and s: "savable (env_htab w) (ENV_SIZE C)"
  shows "\<exists>d f'. nand_saveenv C stack w = Inr (0, w\<lparr>env_flash := f'\<rparr>) \<and> length d = ENV_SIZE C
    \<and> (\<forall>b. env_size C \<le> length b \<longrightarrow> readenv C (env_offset C) b f' = Inr (0, put_bytes 0 (crc_field (crc_of d) @ d) b))
    \<and> (\<forall>h. htable h = None \<longrightarrow> (\<exists>h'. himport_r (\<lambda>_. True) h d (ENV_SIZE C) 0 False = Inr (1, h')
         \<and> store_inv h' \<and> store_view h' = store_view (env_htab w)))"
proof -
  note sz = sz [unfolded sizes_ok_def]
  have "ENV_SIZE C \<le> length stack" using sz by (auto simp: ENV_SIZE_def)
  then obtain d where d: "hexport_r (\<lambda>_. True) (env_htab w) 0 (Some stack) (ENV_SIZE C) [] = Inr (int (ENV_SIZE C), Some (d @ drop (ENV_SIZE C) stack))"
      "length d = ENV_SIZE C" and imp: "\<forall>h. htable h = None \<longrightarrow> (\<exists>h'. himport_r (\<lambda>_. True) h d (ENV_SIZE C) 0 False = Inr (1, h')
         \<and> store_inv h' \<and> store_view h' = store_view (env_htab w))"
    using savable_export [OF s] by blast
  define buf where "buf = crc_field (crc_of d) @ d @ drop (ENV_SIZE C) stack"
  obtain f1 where f1: "nand_erase_opts C (env_offset C) (env_range C) (env_flash w) = (0, f1)" "ok f1"
      "\<forall>p. nand_block_isbad C p f1 = nand_block_isbad C p (env_flash w)"
      "\<forall>p. block_start C p \<and> \<not> nand_block_isbad C p (env_flash w) \<longrightarrow> blank p f1"
    using works(1,3) by (auto simp: erase_works_def)
  have size: "env_size C = 4 + ENV_SIZE C" using sz by (simp add: ENV_SIZE_def)
  have gb: "good_blocks C n fin p f1 = good_blocks C n fin p (env_flash w)" for n fin p
    using f1(3) by (intro good_blocks_cong) simp
  have "block_start C (env_offset C)" unfolding block_start_def by (rule exI [of _ 0]) simp
  then obtain f' where f': "transfers C (env_range C) (env_offset C + env_range C) (env_offset C) 0 buf f1 f'"
    using write_then_read [OF works(2) _ f1(2), where a = 0 and buf = buf and n = "env_range C"
        and p = "env_offset C" and fin = "env_offset C + env_range C"] sz f1(3,4) gb size d(2)
    by (auto simp: buf_def)
  have "writeenv C (env_offset C) buf f1 = Inr (0, f')"
    using f' by (simp add: writeenv_def transfers_def block_len_def)
  then have save: "nand_saveenv C stack w = Inr (0, w\<lparr>env_flash := f'\<rparr>)"
    using sz d f1(1) crc_of_crc32 [of "ENV_SIZE C" "d @ drop (ENV_SIZE C) stack" 0] by (simp add: nand_saveenv_def buf_def)
  have "take (env_size C) buf = crc_field (crc_of d) @ d" by (simp add: buf_def size d(2))
  then have "readenv C (env_offset C) b f' = Inr (0, put_bytes 0 (crc_field (crc_of d) @ d) b)" if "env_size C \<le> length b" for b
    using f' that sz by (simp add: readenv_def transfers_def block_len_def)
  then show ?thesis using save d(2) imp by blast
qed

text \<open>C14: What \<open>saveenv\<close> has written is what the boot loader finds after a reset: with a flash that works, enough good
  blocks in the partition and an environment that fits, saving succeeds, and loading from the saved flash
  passes the check of the check sum and gives the same map from names to values.
\<close>

theorem saved_environment_is_loaded:
  assumes works: "erase_works C ok blank" "write_works C ok blank" "ok (env_flash w)" and sz: "sizes_ok C (env_flash w) stack"
    and s: "savable (env_htab w) (ENV_SIZE C)" and buf: "length buf = CONFIG_ENV_SIZE_MAX"
    and reset: "htable htab0 = None" "valid \<noteq> 0"
  shows "\<exists>f' w'. nand_saveenv C stack w = Inr (0, w\<lparr>env_flash := f'\<rparr>)
    \<and> env_relocate C stack addr buf \<lparr>env_htab = htab0, env_valid = valid, env_addr = mem0, env_ready = False,
        env_reloc = True, env_flash = f'\<rparr> = Inr w'
    \<and> env_ready w' \<and> env_flash w' = f' \<and> store_inv (env_htab w') \<and> store_view (env_htab w') = store_view (env_htab w)"
proof -
  obtain d f' where d: "nand_saveenv C stack w = Inr (0, w\<lparr>env_flash := f'\<rparr>)" "length d = ENV_SIZE C"
    "\<forall>b. env_size C \<le> length b \<longrightarrow> readenv C (env_offset C) b f' = Inr (0, put_bytes 0 (crc_field (crc_of d) @ d) b)"
    "\<forall>h. htable h = None \<longrightarrow> (\<exists>h'. himport_r (\<lambda>_. True) h d (ENV_SIZE C) 0 False = Inr (1, h')
         \<and> store_inv h' \<and> store_view h' = store_view (env_htab w))"
    using saveenv_writes [OF works sz s] by blast
  have size: "env_size C = 4 + ENV_SIZE C" "env_size C \<le> length buf" using sz buf by (auto simp: sizes_ok_def ENV_SIZE_def)
  define b where "b = put_bytes 0 (crc_field (crc_of d) @ d) buf"
  have b: "4 + ENV_SIZE C \<le> length b" "take (4 + ENV_SIZE C) b = crc_field (crc_of d) @ d"
    using size d(2) by (auto simp: b_def put_bytes_def)
  obtain h' where h': "himport_r (\<lambda>_. True) htab0 d (ENV_SIZE C) 0 False = Inr (1, h')" "store_inv h'"
      "store_view h' = store_view (env_htab w)"
    using d(4) reset(1) by blast
  let ?w = "\<lparr>env_htab = htab0, env_valid = valid, env_addr = mem0, env_ready = False, env_reloc = True, env_flash = f'\<rparr>"
  have "env_import C stack addr b True ?w = Inr (1, ?w\<lparr>env_htab := h', env_ready := True\<rparr>)"
    using env_import_good [OF b, of ?w h'] h'(1) by simp
  moreover have "readenv C (env_offset C) buf f' = Inr (0, b)" using d(3) size(2) by (simp add: b_def)
  ultimately have "env_relocate C stack addr buf ?w = Inr (?w\<lparr>env_htab := h', env_ready := True\<rparr>)"
    using reset(2) by (simp add: env_relocate_def nand_env_relocate_spec_def)
  then show ?thesis using d(1) h'(2,3) by (intro exI [of _ f'] exI) auto
qed

text \<open>A flash of bytes without bad blocks, and an environment of one variable.\<close>

definition byte_flash :: "(nat \<Rightarrow> u8) env_cfg" where
  "byte_flash = \<lparr>env_offset = 0, env_range = 64, env_size = 64, default_environment = [0, 0], erasesize = 32,
     nand_block_isbad = (\<lambda>_ _. False),
     nand_write = (\<lambda>p d f. (0, length d, \<lambda>a. if p \<le> a \<and> a < p + length d then d ! (a - p) else f a)),
     nand_read_skip_bad = (\<lambda>p n f. (0, n, map f [p..<p + n])),
     nand_erase_opts = (\<lambda>p n f. (0, \<lambda>a. if p \<le> a \<and> a < p + n then 0xff else f a))\<rparr>"

lemma byte_flash_works: "erase_works byte_flash (\<lambda>_. True) (\<lambda>_ _. True)" "write_works byte_flash (\<lambda>_. True) (\<lambda>_ _. True)"
proof -
  show "erase_works byte_flash (\<lambda>_. True) (\<lambda>_ _. True)" by (simp add: erase_works_def byte_flash_def)
  have len: "block_len byte_flash = 32" by (simp add: block_len_def byte_flash_def)
  have rd: "map (\<lambda>a. if p \<le> a \<and> a < p + length d then d ! (a - p) else f a) [p..<p + length d] = d" for p d and f :: "nat \<Rightarrow> u8"
    by (rule nth_equalityI) simp_all
  have far: "q + 32 \<le> p \<or> p + 32 \<le> q" if "block_start byte_flash p" "block_start byte_flash q" "q \<noteq> p" for p q
    using that by (auto simp: block_start_def byte_flash_def)
  have other: "map (\<lambda>a. if p \<le> a \<and> a < p + 32 then d ! (a - p) else f a) [q..<q + 32] = map f [q..<q + 32]"
    if "block_start byte_flash p" "block_start byte_flash q" "q \<noteq> p" for p q d and f :: "nat \<Rightarrow> u8"
    using far [OF that] by (intro map_cong) auto
  have ops: "nand_block_isbad byte_flash = (\<lambda>_ _. False)" "nand_read_skip_bad byte_flash = (\<lambda>p n f. (0, n, map f [p..<p + n]))"
      "nand_write byte_flash = (\<lambda>p d f. (0, length d, \<lambda>a. if p \<le> a \<and> a < p + length d then d ! (a - p) else f a))"
    by (simp_all add: byte_flash_def)
  show "write_works byte_flash (\<lambda>_. True) (\<lambda>_ _. True)"
    unfolding write_works_def len ops
  proof (intro allI impI, elim conjE)
    fix f :: "nat \<Rightarrow> u8" and p and d :: "u8 list" assume a: "block_start byte_flash p" "length d = 32"
    let ?f = "\<lambda>a. if p \<le> a \<and> a < p + length d then d ! (a - p) else f a"
    have "map ?f [p..<p + 32] = d" using rd [of p d f] a(2) by simp
    moreover have "map ?f [q..<q + 32] = map f [q..<q + 32]" if "block_start byte_flash q" "q \<noteq> p" for q
      using other [OF a(1) that] a(2) by simp
    ultimately show "\<exists>f'. (0, length d, ?f) = (0, length d, f') \<and> True \<and> (\<forall>q. False = False)
        \<and> (0, 32, map f' [p..<p + 32]) = (0, 32, d)
        \<and> (\<forall>q. block_start byte_flash q \<and> q \<noteq> p \<and> \<not> False \<longrightarrow> (True \<longrightarrow> True)
             \<and> (0, 32, map f' [q..<q + 32]) = (0, 32, map f [q..<q + 32]))"
      by (intro exI [of _ ?f]) (simp del: map_eq_conv)
  qed
qed

lemma one_variable:
  obtains htab where "savable htab 60" "store_view htab = [[97] \<mapsto> [98]]"
proof -
  have plain: "plain_name 0 [97]" "plain_value [98]" by (simp_all add: plain_name_def plain_value_def)
  obtain htab where h: "store_inv htab" "store_view htab = [[97] \<mapsto> [98]]"
    using himport_text [of 0 "[([97], [98])]" _ "[]" no_table False, OF _ _ _ _ refl] plain by (auto simp: no_table_def)
  then have "savable htab 60" using plain by (auto simp: savable_def text_room_def split: if_splits)
  then show ?thesis using that h(2) by blast
qed

theorem saved_environment_is_loaded_witness:
  "\<exists>htab f' w'. store_view htab = [[97] \<mapsto> [98]]
    \<and> nand_saveenv byte_flash (replicate 262140 1) \<lparr>env_htab = htab, env_valid = 1, env_addr = [], env_ready = True,
        env_reloc = True, env_flash = (\<lambda>_. 7)\<rparr>
      = Inr (0, \<lparr>env_htab = htab, env_valid = 1, env_addr = [], env_ready = True, env_reloc = True, env_flash = f'\<rparr>)
    \<and> env_relocate byte_flash (replicate 262140 1) 0 (replicate 262144 2) \<lparr>env_htab = no_table, env_valid = 1, env_addr = [],
        env_ready = False, env_reloc = True, env_flash = f'\<rparr> = Inr w'
    \<and> store_view (env_htab w') = [[97] \<mapsto> [98]]"
proof -
  obtain htab where h: "savable htab 60" "store_view htab = [[97] \<mapsto> [98]]" by (rule one_variable)
  let ?w = "\<lparr>env_htab = htab, env_valid = 1, env_addr = [], env_ready = True, env_reloc = True, env_flash = (\<lambda>_. 7)\<rparr>"
  have good: "good_blocks byte_flash 64 64 0 (\<lambda>_. 7) = 2" by (simp add: byte_flash_def eval_nat_numeral)
  have sz: "sizes_ok byte_flash (env_flash ?w) (replicate 262140 1)"
    using good by (simp add: sizes_ok_def block_len_def) (simp add: byte_flash_def)
  have s: "savable (env_htab ?w) (ENV_SIZE byte_flash)" using h(1) by (simp add: ENV_SIZE_def byte_flash_def)
  have len: "length (replicate 262144 (2 :: u8)) = 262144" by (rule length_replicate)
  show ?thesis
    using saved_environment_is_loaded [OF byte_flash_works TrueI sz s len, of no_table 1 0 "[]"] h(2)
    unfolding no_table_def by fastforce
qed

text \<open>C15: A stored environment of which up to four consecutive bytes of the data have changed is never imported:
  the default environment is loaded instead and written to the flash.
\<close>

theorem damaged_environment_replaced:
  assumes "length old = length new" "length old \<le> 4" "old \<noteq> new"
    and "ENV_SIZE C = length pre + length old + length post"
  shows "env_import C stack addr (crc_field (crc_of (pre @ old @ post)) @ (pre @ new @ post) @ rest) True w =
    bind_result (set_default_env C w) (\<lambda>w. bind_result (nand_saveenv C stack w) (\<lambda>(r, w). Inr (0, w)))"
proof (rule env_import_damaged)
  show "load32 (crc_field (crc_of (pre @ old @ post)) @ (pre @ new @ post) @ rest) 0 = Inr (crc_of (pre @ old @ post))"
    by (rule load32_crc_field)
  show "crc_of (take (ENV_SIZE C) (drop 4 (crc_field (crc_of (pre @ old @ post)) @ (pre @ new @ post) @ rest)))
      \<noteq> crc_of (pre @ old @ post)"
    using crc_bytes_burst [OF assms(1-3), of "NOT 0" pre post] assms(1,4) by (simp add: crc_of_def)
qed (use assms(1,4) in simp)

theorem damaged_environment_replaced_witness:
  "\<forall>stack w. env_import byte_flash stack 0 (crc_field (crc_of (replicate 10 1 @ [2, 3] @ replicate 48 0))
       @ (replicate 10 1 @ [2, 4] @ replicate 48 0) @ []) True w =
    bind_result (set_default_env byte_flash w) (\<lambda>w. bind_result (nand_saveenv byte_flash stack w) (\<lambda>(r, w). Inr (0, w)))"
  by (intro allI damaged_environment_replaced) (simp_all add: ENV_SIZE_def byte_flash_def)

end
