(* ===== verification/Lmb.thy ===== *)
theory Lmb
  imports UBoot_Prelude
begin

text \<open>
  lib/lmb.c: the map of the physical memory that decides where the device tree, the command line and the
  initial RAM disk of the booted system go.  A \<open>struct lmb_region\<close> is a table of \<open>MAX_LMB_REGIONS + 1\<close>
  entries, of which the first \<open>cnt\<close> are in use; addresses, sizes and \<open>cnt\<close> are 32-bit words with the
  comparisons the C types give (\<open>cnt - 1\<close> is unsigned).  An index behind the table is an error.
  \<open>lmb_dump_all\<close> only prints and the weak \<open>board_lmb_reserve\<close> does nothing.
\<close>

section \<open>State\<close>

abbreviation (input) MAX_LMB_REGIONS :: nat where "MAX_LMB_REGIONS \<equiv> 8"
abbreviation (input) LMB_ALLOC_ANYWHERE :: u32 where "LMB_ALLOC_ANYWHERE \<equiv> 0"

record lmb_property =
  rg_base :: u32
  rg_size :: u32

record lmb_region =
  cnt :: u32
  total_size :: u32
  region :: "lmb_property list"

record lmb =
  memory :: lmb_region
  reserved :: lmb_region

definition entry :: "u32 \<Rightarrow> u32 \<Rightarrow> lmb_property" where
  "entry b sz = \<lparr>rg_base = b, rg_size = sz\<rparr>"

definition get_entry :: "lmb_property list \<Rightarrow> nat \<Rightarrow> lmb_property result" where
  "get_entry regs i = (if i < length regs then Inr (regs ! i) else Inl Out_Of_Bounds)"

definition set_entry :: "lmb_property list \<Rightarrow> nat \<Rightarrow> lmb_property \<Rightarrow> lmb_property list result" where
  "set_entry regs i e = (if i < length regs then Inr (regs[i := e]) else Inl Out_Of_Bounds)"

section \<open>The code\<close>

definition lmb_addrs_overlap :: "u32 \<Rightarrow> u32 \<Rightarrow> u32 \<Rightarrow> u32 \<Rightarrow> bool" where
  "lmb_addrs_overlap base1 size1 base2 size2 \<longleftrightarrow> base1 < base2 + size2 \<and> base2 < base1 + size1"

definition lmb_addrs_adjacent :: "u32 \<Rightarrow> u32 \<Rightarrow> u32 \<Rightarrow> u32 \<Rightarrow> int" where
  "lmb_addrs_adjacent base1 size1 base2 size2 =
     (if base2 = base1 + size1 then 1 else if base1 = base2 + size2 then - 1 else 0)"

definition lmb_regions_adjacent :: "lmb_property list \<Rightarrow> nat \<Rightarrow> nat \<Rightarrow> int result" where
  "lmb_regions_adjacent regs r1 r2 =
     bind_result (get_entry regs r1) (\<lambda>e1.
     bind_result (get_entry regs r2) (\<lambda>e2.
     Inr (lmb_addrs_adjacent (rg_base e1) (rg_size e1) (rg_base e2) (rg_size e2))))"

text \<open>The loop runs while \<open>i < rgn->cnt - 1\<close>; \<open>bnd\<close> is that bound.\<close>

function remove_loop :: "nat \<Rightarrow> nat \<Rightarrow> lmb_property list \<Rightarrow> lmb_property list result" where
  "remove_loop bnd i regs =
     (if i < bnd then
        bind_result (get_entry regs (i + 1)) (\<lambda>e.
        bind_result (set_entry regs i e) (remove_loop bnd (i + 1)))
      else Inr regs)"
  by pat_completeness auto
termination by (relation "measure (\<lambda>(bnd, i, regs). bnd - i)") auto

declare remove_loop.simps [simp del]

definition lmb_remove_region :: "lmb_region \<Rightarrow> nat \<Rightarrow> lmb_region result" where
  "lmb_remove_region rgn r =
     bind_result (remove_loop (unat (cnt rgn - 1)) r (region rgn)) (\<lambda>regs.
     Inr (rgn\<lparr>region := regs, cnt := cnt rgn - 1\<rparr>))"

definition lmb_coalesce_regions :: "lmb_region \<Rightarrow> nat \<Rightarrow> nat \<Rightarrow> lmb_region result" where
  "lmb_coalesce_regions rgn r1 r2 =
     bind_result (get_entry (region rgn) r1) (\<lambda>e1.
     bind_result (get_entry (region rgn) r2) (\<lambda>e2.
     bind_result (set_entry (region rgn) r1 (e1\<lparr>rg_size := rg_size e1 + rg_size e2\<rparr>)) (\<lambda>regs.
     lmb_remove_region (rgn\<lparr>region := regs\<rparr>) r2)))"

definition lmb_init :: "lmb \<Rightarrow> lmb result" where
  "lmb_init l =
     bind_result (set_entry (region (memory l)) 0 (entry 0 0)) (\<lambda>mem.
     bind_result (set_entry (region (reserved l)) 0 (entry 0 0)) (\<lambda>res.
     Inr (l\<lparr>memory := (memory l)\<lparr>region := mem, cnt := 1, total_size := 0\<rparr>,
           reserved := (reserved l)\<lparr>region := res, cnt := 1, total_size := 0\<rparr>\<rparr>)))"

text \<open>
  The first loop of \<open>lmb_add_region\<close>.  \<open>None\<close> is the early return for a known region; otherwise the result is
  the table, the index at which the loop stopped and the number of regions the new one was merged with.
\<close>

function scan_loop :: "nat \<Rightarrow> u32 \<Rightarrow> u32 \<Rightarrow> nat \<Rightarrow> lmb_property list \<Rightarrow> (lmb_property list \<times> nat \<times> int) option result" where
  "scan_loop n base sz i regs =
     (if i < n then
        bind_result (get_entry regs i) (\<lambda>e.
        if rg_base e = base \<and> rg_size e = sz then Inr None
        else
          let adjacent = lmb_addrs_adjacent base sz (rg_base e) (rg_size e)
          in if 0 < adjacent then
               Inr (Some (regs[i := e\<lparr>rg_base := rg_base e - sz, rg_size := rg_size e + sz\<rparr>], i, 1))
             else if adjacent < 0 then Inr (Some (regs[i := e\<lparr>rg_size := rg_size e + sz\<rparr>], i, 1))
             else scan_loop n base sz (i + 1) regs)
      else Inr (Some (regs, i, 0)))"
  by pat_completeness auto
termination by (relation "measure (\<lambda>(n, base, sz, i, regs). n - i)") auto

declare scan_loop.simps [simp del]

text \<open>The second loop, which counts \<open>i\<close> down from \<open>cnt - 1\<close>: the argument is \<open>i + 1\<close>.\<close>

fun shift_loop :: "nat \<Rightarrow> u32 \<Rightarrow> u32 \<Rightarrow> lmb_property list \<Rightarrow> lmb_property list result" where
  "shift_loop 0 base sz regs = Inr regs"
| "shift_loop (Suc i) base sz regs =
     bind_result (get_entry regs i) (\<lambda>e.
     if base < rg_base e then bind_result (set_entry regs (i + 1) e) (shift_loop i base sz)
     else set_entry regs (i + 1) (entry base sz))"

definition lmb_add_region :: "lmb_region \<Rightarrow> u32 \<Rightarrow> u32 \<Rightarrow> (lmb_region \<times> int) result" where
  "lmb_add_region rgn base sz =
     bind_result (get_entry (region rgn) 0) (\<lambda>first.
     if cnt rgn = 1 \<and> rg_size first = 0 then
       bind_result (set_entry (region rgn) 0 (entry base sz)) (\<lambda>regs. Inr (rgn\<lparr>region := regs\<rparr>, 0))
     else
       bind_result (scan_loop (unat (cnt rgn)) base sz 0 (region rgn)) (\<lambda>found.
       case found of
         None \<Rightarrow> Inr (rgn, 0)
       | Some (regs, i, coalesced) \<Rightarrow>
           let rgn = rgn\<lparr>region := regs\<rparr>
           in bind_result (if i < unat (cnt rgn - 1) then lmb_regions_adjacent regs i (i + 1) else Inr 0) (\<lambda>adj.
              bind_result (if adj \<noteq> 0 then lmb_coalesce_regions rgn i (i + 1) else Inr rgn) (\<lambda>rgn.
              let coalesced = (if adj \<noteq> 0 then coalesced + 1 else coalesced)
              in if coalesced \<noteq> 0 then Inr (rgn, coalesced)
                 else if MAX_LMB_REGIONS \<le> unat (cnt rgn) then Inr (rgn, - 1)
                 else
                   bind_result (shift_loop (unat (cnt rgn)) base sz (region rgn)) (\<lambda>regs.
                   bind_result (get_entry regs 0) (\<lambda>first.
                   bind_result (if base < rg_base first then set_entry regs 0 (entry base sz) else Inr regs) (\<lambda>regs.
                   Inr (rgn\<lparr>region := regs, cnt := cnt rgn + 1\<rparr>, 0))))))))"

definition lmb_add :: "lmb \<Rightarrow> u32 \<Rightarrow> u32 \<Rightarrow> (lmb \<times> int) result" where
  "lmb_add l base sz = bind_result (lmb_add_region (memory l) base sz) (\<lambda>(r, k). Inr (l\<lparr>memory := r\<rparr>, k))"

definition lmb_reserve :: "lmb \<Rightarrow> u32 \<Rightarrow> u32 \<Rightarrow> (lmb \<times> int) result" where
  "lmb_reserve l base sz = bind_result (lmb_add_region (reserved l) base sz) (\<lambda>(r, k). Inr (l\<lparr>reserved := r\<rparr>, k))"

text \<open>The search of \<open>lmb_free\<close>: the index of the entry that contains \<open>base\<close> to \<open>end\<close>.\<close>

function free_find :: "nat \<Rightarrow> u32 \<Rightarrow> u32 \<Rightarrow> nat \<Rightarrow> lmb_property list \<Rightarrow> (nat \<times> lmb_property) option result" where
  "free_find n base fin i regs =
     (if i < n then
        bind_result (get_entry regs i) (\<lambda>e.
        if rg_base e \<le> base \<and> fin \<le> rg_base e + rg_size e then Inr (Some (i, e))
        else free_find n base fin (i + 1) regs)
      else Inr None)"
  by pat_completeness auto
termination by (relation "measure (\<lambda>(n, base, fin, i, regs). n - i)") auto

declare free_find.simps [simp del]

definition lmb_free :: "lmb \<Rightarrow> u32 \<Rightarrow> u32 \<Rightarrow> (lmb \<times> int) result" where
  "lmb_free l base sz =
     (let rgn = reserved l; fin = base + sz
      in bind_result (free_find (unat (cnt rgn)) base fin 0 (region rgn)) (\<lambda>found.
         case found of
           None \<Rightarrow> Inr (l, - 1)
         | Some (i, e) \<Rightarrow>
             let rgnbegin = rg_base e; rgnend = rgnbegin + rg_size e
             in if rgnbegin = base \<and> rgnend = fin then
                  bind_result (lmb_remove_region rgn i) (\<lambda>rgn. Inr (l\<lparr>reserved := rgn\<rparr>, 0))
                else if rgnbegin = base then
                  Inr (l\<lparr>reserved := rgn\<lparr>region := (region rgn)[i := entry fin (rg_size e - sz)]\<rparr>\<rparr>, 0)
                else if rgnend = fin then
                  Inr (l\<lparr>reserved := rgn\<lparr>region := (region rgn)[i := entry rgnbegin (rg_size e - sz)]\<rparr>\<rparr>, 0)
                else
                  bind_result (lmb_add_region (rgn\<lparr>region := (region rgn)[i := entry rgnbegin (base - rgnbegin)]\<rparr>)
                                 fin (rgnend - fin)) (\<lambda>(rgn, k).
                  Inr (l\<lparr>reserved := rgn\<rparr>, k))))"

text \<open>\<open>None\<close> stands for the result -1.\<close>

function overlaps_loop :: "nat \<Rightarrow> u32 \<Rightarrow> u32 \<Rightarrow> nat \<Rightarrow> lmb_property list \<Rightarrow> nat option result" where
  "overlaps_loop n base sz i regs =
     (if i < n then
        bind_result (get_entry regs i) (\<lambda>e.
        if lmb_addrs_overlap base sz (rg_base e) (rg_size e) then Inr (Some i)
        else overlaps_loop n base sz (i + 1) regs)
      else Inr None)"
  by pat_completeness auto
termination by (relation "measure (\<lambda>(n, base, sz, i, regs). n - i)") auto

declare overlaps_loop.simps [simp del]

definition lmb_overlaps_region :: "lmb_region \<Rightarrow> u32 \<Rightarrow> u32 \<Rightarrow> nat option result" where
  "lmb_overlaps_region rgn base sz = overlaps_loop (unat (cnt rgn)) base sz 0 (region rgn)"

definition lmb_align_down :: "u32 \<Rightarrow> u32 \<Rightarrow> u32" where
  "lmb_align_down addr sz = addr AND NOT (sz - 1)"

definition lmb_align_up :: "u32 \<Rightarrow> u32 \<Rightarrow> u32" where
  "lmb_align_up addr sz = (addr + (sz - 1)) AND NOT (sz - 1)"

lemma overlaps_loop_Some:
  "overlaps_loop n base sz i regs = Inr (Some j) \<Longrightarrow>
     j < n \<and> j < length regs \<and> lmb_addrs_overlap base sz (rg_base (regs ! j)) (rg_size (regs ! j))"
  by (induction n base sz i regs rule: overlaps_loop.induct)
    (subst (asm) overlaps_loop.simps, auto simp: get_entry_def split: if_splits)

lemma align_down_le: "lmb_align_down x a \<le> x"
  by (simp add: lmb_align_down_def word_and_le2)

text \<open>
  The \<open>while\<close> loop always ends: an overlapping reservation starts below the end of the block, and when that
  end wraps around, below \<open>sz\<close>.
\<close>

lemma next_base_less:
  assumes "base \<noteq> 0" "lmb_addrs_overlap base sz rb rs" "\<not> rb < sz"
  shows "lmb_align_down (rb - sz) align < base"
proof -
  have o: "unat rb < unat (base + sz)" and le: "unat sz \<le> unat rb"
    using assms(2,3) by (auto simp: lmb_addrs_overlap_def word_less_nat_alt)
  have b: "unat base < 2 ^ 32" using unsigned_less [of base, where 'a = nat] by simp
  have "unat base + unat sz < 2 ^ 32"
  proof (rule ccontr)
    assume "\<not> ?thesis"
    then have "unat (base + sz) = (unat base + unat sz - 2 ^ 32) mod 2 ^ 32"
      by (simp add: unat_word_ariths le_mod_geq)
    then have "unat (base + sz) \<le> unat base + unat sz - 2 ^ 32" by simp
    then show False using o le b by linarith
  qed
  then have "unat (base + sz) = unat base + unat sz" by (simp add: unat_word_ariths)
  then have "unat (rb - sz) < unat base" using o le by (simp add: unat_sub word_le_nat_alt)
  then have "rb - sz < base" by (simp add: word_less_nat_alt)
  then show ?thesis using align_down_le [of "rb - sz" align] by order
qed

function alloc_loop :: "lmb_region \<Rightarrow> u32 \<Rightarrow> u32 \<Rightarrow> u32 \<Rightarrow> u32 \<Rightarrow> u32 option result" where
  "alloc_loop res lmbbase sz align base =
     (if base \<noteq> 0 \<and> lmbbase \<le> base then
        case lmb_overlaps_region res base sz of
          Inl e \<Rightarrow> Inl e
        | Inr None \<Rightarrow> Inr (Some base)
        | Inr (Some j) \<Rightarrow>
            let res_base = rg_base (region res ! j)
            in if res_base < sz then Inr None
               else alloc_loop res lmbbase sz align (lmb_align_down (res_base - sz) align)
      else Inr None)"
  by pat_completeness auto
termination
  by (relation "measure (\<lambda>(res, lmbbase, sz, align, base). unat base)")
    (auto simp: lmb_overlaps_region_def word_less_nat_alt [symmetric] dest!: overlaps_loop_Some intro: next_base_less)

declare alloc_loop.simps [simp del]

text \<open>The outer loop of \<open>__lmb_alloc_base\<close> counts \<open>i\<close> down from \<open>memory.cnt - 1\<close>: the argument is \<open>i + 1\<close>.\<close>

fun alloc_regions :: "nat \<Rightarrow> lmb \<Rightarrow> u32 \<Rightarrow> u32 \<Rightarrow> u32 \<Rightarrow> (lmb \<times> u32) result" where
  "alloc_regions 0 l sz align max_addr = Inr (l, 0)"
| "alloc_regions (Suc i) l sz align max_addr =
     bind_result (get_entry (region (memory l)) i) (\<lambda>e.
     let lmbbase = rg_base e; lmbsize = rg_size e
     in if lmbsize < sz then alloc_regions i l sz align max_addr
        else if max_addr \<noteq> LMB_ALLOC_ANYWHERE \<and> \<not> lmbbase < max_addr then alloc_regions i l sz align max_addr
        else
          let base = (if max_addr = LMB_ALLOC_ANYWHERE then lmb_align_down (lmbbase + lmbsize - sz) align
                      else lmb_align_down (min (lmbbase + lmbsize) max_addr - sz) align)
          in bind_result (alloc_loop (reserved l) lmbbase sz align base) (\<lambda>found.
             case found of
               None \<Rightarrow> alloc_regions i l sz align max_addr
             | Some base \<Rightarrow>
                 bind_result (lmb_add_region (reserved l) base (lmb_align_up sz align)) (\<lambda>(rgn, k).
                 Inr (l\<lparr>reserved := rgn\<rparr>, if k < 0 then 0 else base))))"

definition do_lmb_alloc_base :: "lmb \<Rightarrow> u32 \<Rightarrow> u32 \<Rightarrow> u32 \<Rightarrow> (lmb \<times> u32) result" where
  "do_lmb_alloc_base l sz align max_addr = alloc_regions (unat (cnt (memory l))) l sz align max_addr"

definition lmb_alloc_base :: "lmb \<Rightarrow> u32 \<Rightarrow> u32 \<Rightarrow> u32 \<Rightarrow> (lmb \<times> u32) result" where
  "lmb_alloc_base l sz align max_addr = do_lmb_alloc_base l sz align max_addr"

definition lmb_alloc :: "lmb \<Rightarrow> u32 \<Rightarrow> u32 \<Rightarrow> (lmb \<times> u32) result" where
  "lmb_alloc l sz align = lmb_alloc_base l sz align LMB_ALLOC_ANYWHERE"

function is_reserved_loop :: "nat \<Rightarrow> u32 \<Rightarrow> nat \<Rightarrow> lmb_property list \<Rightarrow> bool result" where
  "is_reserved_loop n addr i regs =
     (if i < n then
        bind_result (get_entry regs i) (\<lambda>e.
        let upper = rg_base e + rg_size e - 1
        in if rg_base e \<le> addr \<and> addr \<le> upper then Inr True else is_reserved_loop n addr (i + 1) regs)
      else Inr False)"
  by pat_completeness auto
termination by (relation "measure (\<lambda>(n, addr, i, regs). n - i)") auto

declare is_reserved_loop.simps [simp del]

definition lmb_is_reserved :: "lmb \<Rightarrow> u32 \<Rightarrow> bool result" where
  "lmb_is_reserved l addr = is_reserved_loop (unat (cnt (reserved l))) addr 0 (region (reserved l))"

definition lmb_size_bytes :: "lmb_region \<Rightarrow> nat \<Rightarrow> u32 result" where
  "lmb_size_bytes rgn n = bind_result (get_entry (region rgn) n) (\<lambda>e. Inr (rg_size e))"

section \<open>What a table stands for\<close>

definition lo :: "lmb_property \<Rightarrow> nat" where
  "lo e = unat (rg_base e)"

definition hi :: "lmb_property \<Rightarrow> nat" where
  "hi e = unat (rg_base e) + unat (rg_size e)"

definition span :: "u32 \<Rightarrow> u32 \<Rightarrow> nat set" where
  "span b sz = {unat b ..< unat b + unat sz}"

definition spans :: "lmb_property list \<Rightarrow> nat set" where
  "spans es = (\<Union>e\<in>set es. {lo e ..< hi e})"

definition entries :: "lmb_region \<Rightarrow> lmb_property list" where
  "entries r = take (unat (cnt r)) (region r)"

definition cover :: "lmb_region \<Rightarrow> nat set" where
  "cover r = spans (entries r)"

text \<open>The entries are not empty, do not wrap around, and are sorted with a gap between neighbours.\<close>

definition apart :: "lmb_property list \<Rightarrow> bool" where
  "apart es \<longleftrightarrow> (\<forall>e\<in>set es. 0 < rg_size e \<and> hi e < 2 ^ 32) \<and> sorted_wrt (\<lambda>a b. hi a < lo b) es"

definition fresh :: "lmb_region \<Rightarrow> bool" where
  "fresh r \<longleftrightarrow> cnt r = 1 \<and> region r ! 0 = entry 0 0"

definition region_ok :: "lmb_region \<Rightarrow> bool" where
  "region_ok r \<longleftrightarrow> length (region r) = 9 \<and> 1 \<le> unat (cnt r) \<and> unat (cnt r) \<le> 8 \<and> (fresh r \<or> apart (entries r))"

lemma spans_simps [simp]:
  "spans [] = {}"
  "spans (e # es) = {lo e ..< hi e} \<union> spans es"
  "spans (es @ fs) = spans es \<union> spans fs"
  by (auto simp: spans_def)

lemma lo_le_hi: "lo e \<le> hi e"
  by (simp add: lo_def hi_def)

lemma lo_hi_entry [simp]: "lo (entry b sz) = unat b" "hi (entry b sz) = unat b + unat sz"
  by (simp_all add: lo_def hi_def entry_def)

lemma entry_sel [simp]: "rg_base (entry b sz) = b" "rg_size (entry b sz) = sz"
  by (simp_all add: entry_def)

lemma entry_eqI: "rg_base e = b \<Longrightarrow> rg_size e = sz \<Longrightarrow> e = entry b sz"
  by (cases e) (simp add: entry_def)

lemma apart_simps:
  "apart []"
  "apart (e # es) \<longleftrightarrow> 0 < rg_size e \<and> hi e < 2 ^ 32 \<and> (\<forall>f\<in>set es. hi e < lo f) \<and> apart es"
  "apart (es @ fs) \<longleftrightarrow> apart es \<and> apart fs \<and> (\<forall>e\<in>set es. \<forall>f\<in>set fs. hi e < lo f)"
  by (auto simp: apart_def sorted_wrt_append)

lemma apart_entry: "e \<in> set es \<Longrightarrow> apart es \<Longrightarrow> lo e < hi e \<and> hi e < 2 ^ 32 \<and> 0 < unat (rg_size e)"
  by (auto simp: apart_def lo_def hi_def word_less_nat_alt)

lemma fresh_cover [simp]: "fresh r \<Longrightarrow> length (region r) = 9 \<Longrightarrow> cover r = {}"
  by (cases "region r") (auto simp: fresh_def cover_def entries_def)

lemma get_set_entry_split [simp]:
  "get_entry (pre @ e # post) (length pre) = Inr e"
  "set_entry (pre @ e # post) (length pre) f = Inr (pre @ f # post)"
  by (simp_all add: get_entry_def set_entry_def)

lemma adjacent_nat:
  assumes "unat b + unat sz < 2 ^ 32" "0 < unat sz" "hi e < 2 ^ 32" "0 < unat (rg_size e)"
  shows "lmb_addrs_adjacent b sz (rg_base e) (rg_size e) =
    (if lo e = unat b + unat sz then 1 else if unat b = hi e then - 1 else 0)"
  using assms by (auto simp: lmb_addrs_adjacent_def lo_def hi_def word_unat_eq_iff unat_word_ariths)

section \<open>Adding a region\<close>

lemma remove_loop_split:
  "remove_loop (length pre + length post) (length pre) (pre @ e # post @ rest)
     = Inr (pre @ post @ last (e # post) # rest)"
proof (induction post arbitrary: pre e)
  case Nil
  show ?case by (simp add: remove_loop.simps)
next
  case (Cons f post)
  have g: "get_entry (pre @ e # f # post @ rest) (length pre + 1) = Inr f"
    using get_set_entry_split(1) [of "pre @ [e]" f "post @ rest"] by simp
  have "remove_loop (length pre + length (f # post)) (length pre) (pre @ e # (f # post) @ rest)
      = remove_loop (length (pre @ [f]) + length post) (length (pre @ [f])) ((pre @ [f]) @ f # post @ rest)"
    using g by (subst remove_loop.simps) simp
  also have "\<dots> = Inr ((pre @ [f]) @ post @ last (f # post) # rest)" by (rule Cons.IH)
  finally show ?case by simp
qed

lemma scan_skip:
  assumes "\<forall>e\<in>set mid. \<not> (rg_base e = b \<and> rg_size e = sz) \<and> lmb_addrs_adjacent b sz (rg_base e) (rg_size e) = 0"
    and "length pre + length mid \<le> n"
  shows "scan_loop n b sz (length pre) (pre @ mid @ rest)
    = scan_loop n b sz (length pre + length mid) (pre @ mid @ rest)"
  using assms
proof (induction mid arbitrary: pre)
  case (Cons e mid)
  have "scan_loop n b sz (length pre) (pre @ (e # mid) @ rest)
      = scan_loop n b sz (length (pre @ [e])) ((pre @ [e]) @ mid @ rest)"
    using Cons.prems by (subst scan_loop.simps) auto
  also have "\<dots> = scan_loop n b sz (length (pre @ [e]) + length mid) ((pre @ [e]) @ mid @ rest)"
    using Cons.prems by (intro Cons.IH) auto
  finally show ?case by simp
qed simp

lemma shift_loop_split:
  assumes "\<forall>e\<in>set post. b < rg_base e" "pre \<noteq> [] \<longrightarrow> \<not> b < rg_base (last pre)"
  shows "shift_loop (length pre + length post) b sz (pre @ post @ x # rest)
    = Inr (if pre = [] then (case post of [] \<Rightarrow> x # rest | e # es \<Rightarrow> e # e # es @ rest)
           else pre @ entry b sz # post @ rest)"
  using assms
proof (induction post arbitrary: x rest rule: rev_induct)
  case Nil
  show ?case
  proof (cases pre rule: rev_cases)
    case (snoc ys y)
    have "set_entry (ys @ y # x # rest) (Suc (length ys)) (entry b sz) = Inr (ys @ y # entry b sz # rest)"
      using get_set_entry_split(2) [of "ys @ [y]" x rest] by simp
    then show ?thesis using snoc Nil by simp
  qed simp
next
  case (snoc e post)
  have s: "set_entry (pre @ post @ e # x # rest) (Suc (length pre + length post)) e = Inr (pre @ post @ e # e # rest)"
    using get_set_entry_split(2) [of "pre @ post @ [e]" x rest e] by simp
  have g: "get_entry (pre @ post @ e # x # rest) (length pre + length post) = Inr e"
    using get_set_entry_split(1) [of "pre @ post" e "x # rest"] by simp
  have "shift_loop (length pre + length (post @ [e])) b sz (pre @ (post @ [e]) @ x # rest)
      = shift_loop (length pre + length post) b sz (pre @ post @ e # e # rest)"
    using snoc.prems g s by simp
  also have "\<dots> = Inr (if pre = [] then (case post of [] \<Rightarrow> e # e # rest | f # es \<Rightarrow> f # f # es @ e # rest)
           else pre @ entry b sz # post @ e # rest)"
    using snoc.prems by (intro snoc.IH) auto
  finally show ?case by (cases post) auto
qed

text \<open>The block is merged with its neighbours or inserted at its place.\<close>

lemma insert_apart:
  assumes es: "apart (pre @ post)" and new: "0 < sz" "unat b + unat sz < 2 ^ 32"
    and pre: "\<forall>e\<in>set pre. hi e < unat b" and post: "\<forall>e\<in>set post. unat b + unat sz < lo e"
  shows "apart (pre @ entry b sz # post)"
    "spans (pre @ entry b sz # post) = spans (pre @ post) \<union> span b sz"
  using assms by (auto simp: apart_simps span_def)

lemma regions_adjacent_split:
  "lmb_regions_adjacent (pre @ e # f # rest) (length pre) (length pre + 1)
     = Inr (lmb_addrs_adjacent (rg_base e) (rg_size e) (rg_base f) (rg_size f))"
  using get_set_entry_split(1) [of "pre @ [e]" f rest] by (simp add: lmb_regions_adjacent_def)

lemma coalesce_split:
  assumes "unat (cnt r) = Suc (Suc (length pre + length post))" "region r = pre @ e # f # post @ rest"
  shows "lmb_coalesce_regions r (length pre) (length pre + 1)
    = Inr (r\<lparr>region := pre @ e\<lparr>rg_size := rg_size e + rg_size f\<rparr> # post @ last (f # post) # rest,
             cnt := cnt r - 1\<rparr>)"
proof -
  have c: "unat (cnt r - 1) = length (pre @ [e]) + length post"
    using assms(1) by (subst unat_sub) (simp_all add: word_le_nat_alt)
  have g: "get_entry (pre @ e # f # post @ rest) (length pre + 1) = Inr f"
    using get_set_entry_split(1) [of "pre @ [e]" f "post @ rest"] by simp
  have "remove_loop (unat (cnt r - 1)) (length pre + 1) (pre @ g # f # post @ rest)
      = Inr (pre @ g # post @ last (f # post) # rest)" for g
    using remove_loop_split [of "pre @ [g]" post f rest] c by simp
  then show ?thesis
    using g by (simp add: lmb_coalesce_regions_def lmb_remove_region_def assms(2))
qed

text \<open>The end of \<open>lmb_add_region\<close> after a merge, with and without a second one.\<close>

definition not_fresh :: "lmb_region \<Rightarrow> bool" where
  "not_fresh r \<longleftrightarrow> region r \<noteq> [] \<and> \<not> (cnt r = 1 \<and> rg_size (region r ! 0) = 0)"

lemma add_merged_eq:
  assumes "not_fresh r" "scan_loop (unat (cnt r)) b sz 0 (region r) = Inr (Some (regs, i, 1))"
  shows "lmb_add_region r b sz =
      bind_result (if i < unat (cnt r - 1) then lmb_regions_adjacent regs i (i + 1) else Inr 0) (\<lambda>adj.
      bind_result (if adj \<noteq> 0 then lmb_coalesce_regions (r\<lparr>region := regs\<rparr>) i (i + 1)
                   else Inr (r\<lparr>region := regs\<rparr>)) (\<lambda>rgn. Inr (rgn, if adj \<noteq> 0 then 2 else 1)))"
proof -
  have first: "get_entry (region r) 0 = Inr (region r ! 0)" "\<not> (cnt r = 1 \<and> rg_size (region r ! 0) = 0)"
    using assms(1) by (auto simp: not_fresh_def get_entry_def)
  show ?thesis
    unfolding lmb_add_region_def using first assms(2)
    by (auto simp: Let_def bind_result_def split: sum.splits)
qed

lemma add_merged:
  assumes "not_fresh r" "scan_loop (unat (cnt r)) b sz 0 (region r) = Inr (Some (pre @ e # post @ rest, length pre, 1))"
    and n: "unat (cnt r) = Suc (length pre + length post)"
  shows "post = f # post' \<Longrightarrow> lmb_addrs_adjacent (rg_base e) (rg_size e) (rg_base f) (rg_size f) \<noteq> 0 \<Longrightarrow>
       lmb_add_region r b sz = Inr (r\<lparr>region := pre @ e\<lparr>rg_size := rg_size e + rg_size f\<rparr> # post' @ last (f # post') # rest,
             cnt := cnt r - 1\<rparr>, 2)"
    and "\<forall>f\<in>set post. lmb_addrs_adjacent (rg_base e) (rg_size e) (rg_base f) (rg_size f) = 0 \<Longrightarrow>
       lmb_add_region r b sz = Inr (r\<lparr>region := pre @ e # post @ rest\<rparr>, 1)"
proof -
  have c: "unat (cnt r - 1) = length pre + length post"
    using n by (subst unat_sub) (simp_all add: word_le_nat_alt)
  note add = add_merged_eq [OF assms(1,2)]
  show "lmb_add_region r b sz = Inr (r\<lparr>region := pre @ e\<lparr>rg_size := rg_size e + rg_size f\<rparr> # post' @ last (f # post') # rest,
             cnt := cnt r - 1\<rparr>, 2)"
    if "post = f # post'" "lmb_addrs_adjacent (rg_base e) (rg_size e) (rg_base f) (rg_size f) \<noteq> 0"
    using that n coalesce_split [of "r\<lparr>region := pre @ e # post @ rest\<rparr>" pre post' e f rest]
      regions_adjacent_split [of pre e f "post' @ rest"]
    by (simp add: add c)
  show "lmb_add_region r b sz = Inr (r\<lparr>region := pre @ e # post @ rest\<rparr>, 1)"
    if "\<forall>f\<in>set post. lmb_addrs_adjacent (rg_base e) (rg_size e) (rg_base f) (rg_size f) = 0"
    using that regions_adjacent_split [of pre e "hd post" "tl post @ rest"]
    by (cases post) (simp_all add: add c)
qed

lemma add_unmerged_eq:
  assumes "not_fresh r" "scan_loop (unat (cnt r)) b sz 0 (region r) = Inr (Some (region r, unat (cnt r), 0))"
    and n: "0 < unat (cnt r)"
  shows "lmb_add_region r b sz =
      (if 8 \<le> unat (cnt r) then Inr (r, - 1)
       else bind_result (shift_loop (unat (cnt r)) b sz (region r)) (\<lambda>regs.
            bind_result (get_entry regs 0) (\<lambda>first.
            bind_result (if b < rg_base first then set_entry regs 0 (entry b sz) else Inr regs) (\<lambda>regs.
            Inr (r\<lparr>region := regs, cnt := cnt r + 1\<rparr>, 0)))))"
proof -
  have c: "\<not> unat (cnt r) < unat (cnt r - 1)"
    using n by (subst unat_sub) (simp_all add: word_le_nat_alt)
  have first: "get_entry (region r) 0 = Inr (region r ! 0)" "\<not> (cnt r = 1 \<and> rg_size (region r ! 0) = 0)"
    using assms(1) by (auto simp: not_fresh_def get_entry_def)
  show ?thesis
    unfolding lmb_add_region_def using first assms(2) c by (auto simp: Let_def)
qed

lemma add_unmerged:
  assumes "not_fresh r" "scan_loop (unat (cnt r)) b sz 0 (region r) = Inr (Some (region r, unat (cnt r), 0))"
    and n: "unat (cnt r) = length pre + length post" "0 < unat (cnt r)"
  shows "8 \<le> unat (cnt r) \<Longrightarrow> lmb_add_region r b sz = Inr (r, - 1)"
    and "unat (cnt r) < 8 \<Longrightarrow> region r = pre @ post @ x # rest \<Longrightarrow> \<forall>e\<in>set post. b < rg_base e \<Longrightarrow>
       \<forall>e\<in>set pre. rg_base e < b \<Longrightarrow>
       lmb_add_region r b sz = Inr (r\<lparr>region := pre @ entry b sz # post @ rest, cnt := cnt r + 1\<rparr>, 0)"
proof -
  note add = add_unmerged_eq [OF assms(1,2) n(2)]
  show "lmb_add_region r b sz = Inr (r, - 1)" if "8 \<le> unat (cnt r)"
    using that by (simp add: add)
  show "lmb_add_region r b sz = Inr (r\<lparr>region := pre @ entry b sz # post @ rest, cnt := cnt r + 1\<rparr>, 0)"
    if "unat (cnt r) < 8" "region r = pre @ post @ x # rest" "\<forall>e\<in>set post. b < rg_base e" "\<forall>e\<in>set pre. rg_base e < b"
  proof -
    have "shift_loop (unat (cnt r)) b sz (region r) = Inr (if pre = [] then (case post of [] \<Rightarrow> x # rest | e # es \<Rightarrow> e # e # es @ rest)
           else pre @ entry b sz # post @ rest)"
      unfolding n(1) that(2)
    proof (rule shift_loop_split [OF that(3)])
      show "pre \<noteq> [] \<longrightarrow> \<not> b < rg_base (last pre)" using that(4) by (meson last_in_set order_less_asym)
    qed
    then show ?thesis
      using that n by (cases pre; cases post) (auto simp: add get_entry_def set_entry_def)
  qed
qed

lemma split_around:
  assumes "apart es" "\<forall>e\<in>set es. hi e < x \<or> y < lo e" "x \<le> y"
  shows "\<exists>pre post. es = pre @ post \<and> (\<forall>e\<in>set pre. hi e < x) \<and> (\<forall>e\<in>set post. y < lo e)"
  using assms
proof (induction es)
  case (Cons e es)
  show ?case
  proof (cases "hi e < x")
    case True
    obtain pre post where "es = pre @ post" "\<forall>e\<in>set pre. hi e < x" "\<forall>e\<in>set post. y < lo e"
      using Cons by (auto simp: apart_simps)
    with True show ?thesis by (intro exI [of _ "e # pre"] exI [of _ post]) simp
  next
    case False
    then have "\<forall>f\<in>set (e # es). y < lo f"
      using Cons.prems by (force simp: apart_simps lo_def hi_def)
    then show ?thesis by (intro exI [of _ "[]"] exI [of _ "e # es"]) simp
  qed
qed simp

lemma disjoint_entry:
  assumes "e \<in> set es" "apart es" "spans es \<inter> span b sz = {}" "0 < sz"
  shows "hi e \<le> unat b \<or> unat b + unat sz \<le> lo e"
proof (rule ccontr)
  assume n: "\<not> ?thesis"
  have e: "lo e < hi e" using apart_entry assms(1,2) by blast
  have "max (lo e) (unat b) \<in> {lo e ..< hi e}" "max (lo e) (unat b) \<in> span b sz"
    using n e assms(4) by (auto simp: span_def word_less_nat_alt)
  then have "max (lo e) (unat b) \<in> spans es \<inter> span b sz" using assms(1) unfolding spans_def by blast
  then show False using assms(3) by blast
qed

lemma table_ok:
  assumes "region r = es @ rest" "unat (cnt r) = length es" "es \<noteq> []" "length es \<le> 8" "length (region r) = 9" "apart es"
  shows "region_ok r" "apart (entries r)" "cover r = spans es"
  using assms by (auto simp: region_ok_def entries_def cover_def Suc_le_eq)

text \<open>What adding a block promises.\<close>

definition added :: "lmb_region \<Rightarrow> u32 \<Rightarrow> u32 \<Rightarrow> bool" where
  "added r b sz \<longleftrightarrow> (\<exists>r' k. lmb_add_region r b sz = Inr (r', k) \<and>
     (k = - 1 \<and> r' = r \<and> unat (cnt r) = 8 \<or>
      0 \<le> k \<and> region_ok r' \<and> apart (entries r') \<and> cover r' = cover r \<union> span b sz))"

lemma addedI:
  assumes "lmb_add_region r b sz = Inr (r', k)" "0 \<le> k" "region r' = es @ rest" "unat (cnt r') = length es"
    "es \<noteq> []" "length es \<le> 8" "length (region r') = 9" "apart es" "spans es = cover r \<union> span b sz"
  shows "added r b sz"
  unfolding added_def using assms(1,2,9) table_ok [OF assms(3-8)] by auto

lemma not_adjacent:
  assumes "apart post" "hi e < 2 ^ 32" "0 < unat (rg_size e)" "\<forall>f\<in>set post. hi e < lo f"
  shows "\<forall>f\<in>set post. lmb_addrs_adjacent (rg_base e) (rg_size e) (rg_base f) (rg_size f) = 0"
proof
  fix f assume f: "f \<in> set post"
  have "lo f < hi f \<and> hi f < 2 ^ 32 \<and> 0 < unat (rg_size f)" using apart_entry f assms(1) by blast
  moreover have "hi e < lo f" using assms(4) f by blast
  ultimately show "lmb_addrs_adjacent (rg_base e) (rg_size e) (rg_base f) (rg_size f) = 0"
    using assms(2,3) by (subst adjacent_nat) (auto simp: hi_def lo_def)
qed

lemma add_before:
  assumes r: "region r = pre @ e # post @ rest" "unat (cnt r) = Suc (length pre + length post)"
      "length (region r) = 9" "unat (cnt r) \<le> 8" "apart (pre @ e # post)"
    and scan: "scan_loop (unat (cnt r)) b sz 0 (region r) = scan_loop (unat (cnt r)) b sz (length pre) (region r)"
    and new: "0 < sz" "unat b + unat sz < 2 ^ 32" and at: "lo e = unat b + unat sz"
    and pre: "\<forall>f\<in>set pre. hi f < unat b"
  shows "added r b sz"
proof -
  define e' where "e' = entry b (rg_size e + sz)"
  have e: "0 < rg_size e" "hi e < 2 ^ 32" using r(5) by (auto simp: apart_simps)
  have sz: "unat (rg_size e + sz) = unat (rg_size e) + unat sz"
    using e at by (simp add: hi_def lo_def unat_word_ariths)
  have "rg_base e = b + sz" using at new(2) by (simp add: lo_def word_unat_eq_iff unat_word_ariths)
  then have upd: "e\<lparr>rg_base := rg_base e - sz, rg_size := rg_size e + sz\<rparr> = e'"
    by (simp add: e'_def entry_def)
  have hi': "hi e' = hi e" "lo e' = unat b" using sz at by (simp_all add: e'_def hi_def lo_def)
  have adj: "lmb_addrs_adjacent b sz (rg_base e) (rg_size e) = 1"
    using e new at by (simp add: adjacent_nat word_less_nat_alt)
  have ne: "\<not> (rg_base e = b \<and> rg_size e = sz)" using at new(1) by (auto simp: lo_def word_less_nat_alt)
  have scan': "scan_loop (unat (cnt r)) b sz 0 (region r) = Inr (Some (pre @ e' # post @ rest, length pre, 1))"
    unfolding scan using r(1,2) adj ne upd by (subst scan_loop.simps) auto
  have nf: "not_fresh r"
    using r(1,2) e(1) by (cases pre) (auto simp: not_fresh_def)
  have far: "\<forall>f\<in>set post. lmb_addrs_adjacent (rg_base e') (rg_size e') (rg_base f) (rg_size f) = 0"
    using r(5) hi' e sz new(1) by (intro not_adjacent) (auto simp: apart_simps e'_def word_less_nat_alt)
  have ap: "apart (pre @ e' # post)"
    using r(5) hi' pre sz e(1) new(1) by (auto simp: apart_simps e'_def word_less_nat_alt)
  have sp: "spans (pre @ e' # post) = cover r \<union> span b sz"
    using r(1,2) hi' at lo_le_hi [of e] by (auto simp: cover_def entries_def span_def)
  show ?thesis
    using r ap sp by (intro addedI [OF add_merged(2) [OF nf scan' r(2) far], where es = "pre @ e' # post"]) auto
qed

lemma add_after:
  assumes r: "region r = pre @ e # post @ rest" "unat (cnt r) = Suc (length pre + length post)"
      "length (region r) = 9" "unat (cnt r) \<le> 8" "apart (pre @ e # post)"
    and scan: "scan_loop (unat (cnt r)) b sz 0 (region r) = scan_loop (unat (cnt r)) b sz (length pre) (region r)"
    and new: "0 < sz" "unat b + unat sz < 2 ^ 32" and at: "unat b = hi e"
    and post: "\<forall>f\<in>set post. unat b + unat sz \<le> lo f"
  shows "added r b sz"
proof -
  define e' where "e' = entry (rg_base e) (rg_size e + sz)"
  have e: "0 < rg_size e" "hi e < 2 ^ 32" using r(5) by (auto simp: apart_simps)
  have sz: "unat (rg_size e + sz) = unat (rg_size e) + unat sz"
    using new at by (simp add: hi_def unat_word_ariths)
  have upd: "e\<lparr>rg_size := rg_size e + sz\<rparr> = e'" by (simp add: e'_def entry_def)
  have hi': "hi e' = unat b + unat sz" "lo e' = lo e" using sz at by (simp_all add: e'_def hi_def lo_def)
  have pos: "0 < unat (rg_size e')" using sz new(1) by (simp add: e'_def word_less_nat_alt)
  have adj: "lmb_addrs_adjacent b sz (rg_base e) (rg_size e) = - 1"
    using e new at by (subst adjacent_nat) (auto simp: word_less_nat_alt lo_def hi_def)
  have ne: "\<not> (rg_base e = b \<and> rg_size e = sz)" using at e(1) by (auto simp: hi_def word_less_nat_alt)
  have scan': "scan_loop (unat (cnt r)) b sz 0 (region r) = Inr (Some (pre @ e' # post @ rest, length pre, 1))"
    unfolding scan using r(1,2) adj ne upd by (subst scan_loop.simps) auto
  have nf: "not_fresh r"
    using r(1,2) e(1) by (cases pre) (auto simp: not_fresh_def)
  have cov: "cover r \<union> span b sz = spans (pre @ e' # post)"
    using r(1,2) hi' at lo_le_hi [of e] by (auto simp: cover_def entries_def span_def)
  have ap: "apart (pre @ e' # post)" if "\<forall>f\<in>set post. unat b + unat sz < lo f"
    using that r(5) hi' pos new(2) by (auto simp: apart_simps word_less_nat_alt)
  show ?thesis
  proof (cases "\<exists>f post'. post = f # post' \<and> unat b + unat sz = lo f")
    case False
    have far: "\<forall>f\<in>set post. unat b + unat sz < lo f"
    proof (cases post)
      case (Cons f post')
      then have "unat b + unat sz < lo f" using False post by force
      moreover have "\<forall>g\<in>set post'. hi f < lo g" using r(5) Cons by (auto simp: apart_simps)
      ultimately show ?thesis using Cons lo_le_hi [of f] by fastforce
    qed simp
    then have add: "lmb_add_region r b sz = Inr (r\<lparr>region := pre @ e' # post @ rest\<rparr>, 1)"
      using r(5) hi' new(2) pos by (intro add_merged(2) [OF nf scan' r(2)] not_adjacent) (auto simp: apart_simps)
    show ?thesis using r ap [OF far] cov by (intro addedI [OF add, where es = "pre @ e' # post"]) auto
  next
    case True
    then obtain f post' where f: "post = f # post'" "unat b + unat sz = lo f" by blast
    define g where "g = e'\<lparr>rg_size := rg_size e' + rg_size f\<rparr>"
    have pf: "hi f < 2 ^ 32" "0 < unat (rg_size f)" "\<forall>h\<in>set post'. hi f < lo h"
      using r(5) f(1) by (auto simp: apart_simps word_less_nat_alt)
    have "lmb_addrs_adjacent (rg_base e') (rg_size e') (rg_base f) (rg_size f) = 1"
      using hi' f(2) new(2) pos pf by (subst adjacent_nat) (auto simp: hi_def)
    then have add: "lmb_add_region r b sz = Inr (r\<lparr>region := pre @ g # post' @ last (f # post') # rest, cnt := cnt r - 1\<rparr>, 2)"
      using add_merged(1) [OF nf scan' r(2) f(1)] by (simp add: g_def)
    have "unat (rg_size e' + rg_size f) = unat (rg_size e') + unat (rg_size f)"
      using pf(1) hi' f(2) by (simp add: hi_def lo_def unat_word_ariths)
    then have g: "hi g = hi f" "lo g = lo e" "0 < rg_size g"
      using hi' f(2) pos by (simp_all add: g_def hi_def lo_def word_less_nat_alt)
    have "apart (pre @ g # post')" using r(5) f(1) g pf by (auto simp: apart_simps)
    moreover have "spans (pre @ g # post') = spans (pre @ e' # post)"
      using g hi' f pf(2) by (auto simp: hi_def lo_def)
    moreover have "unat (cnt r - 1) = Suc (length pre + length post')"
      using r(2) f(1) by (subst unat_sub) (simp_all add: word_le_nat_alt)
    ultimately show ?thesis
      using r f(1) cov by (intro addedI [OF add, where es = "pre @ g # post'"]) auto
  qed
qed

lemma region_split:
  assumes "region_ok r"
  obtains x rest where "region r = entries r @ x # rest" "unat (cnt r) = length (entries r)"
    "length (entries r) \<le> 8" "entries r \<noteq> []" "length (region r) = 9"
proof -
  have n: "length (region r) = 9" "unat (cnt r) \<le> 8" "0 < unat (cnt r)" using assms by (auto simp: region_ok_def)
  then obtain x rest where "drop (unat (cnt r)) (region r) = x # rest"
    by (cases "drop (unat (cnt r)) (region r)") auto
  then have "region r = entries r @ x # rest"
    unfolding entries_def by (metis append_take_drop_id)
  moreover have "unat (cnt r) = length (entries r)" using n by (simp add: entries_def)
  ultimately show ?thesis using that n by auto
qed

lemma not_fresh_apart:
  assumes "region_ok r" "apart (entries r)"
  shows "not_fresh r"
proof -
  have "region r \<noteq> []" "region r ! 0 \<in> set (entries r)"
    using assms(1) by (auto simp: region_ok_def entries_def in_set_conv_nth intro!: exI [of _ 0])
  then show ?thesis using assms(2) by (auto simp: not_fresh_def apart_def)
qed

lemma not_same_entry:
  assumes "e \<in> set es" "apart es" "spans es \<inter> span b sz = {}" "0 < sz"
  shows "\<not> (rg_base e = b \<and> rg_size e = sz)"
  using disjoint_entry [OF assms] assms(4) by (auto simp: lo_def hi_def word_less_nat_alt)

lemma add_apart:
  assumes r: "region_ok r" "apart (entries r)" and new: "0 < sz" "unat b + unat sz < 2 ^ 32"
    and disj: "cover r \<inter> span b sz = {}" and far: "\<forall>e\<in>set (entries r). lo e \<noteq> unat b + unat sz \<and> unat b \<noteq> hi e"
  shows "added r b sz"
proof -
  obtain x rest where reg: "region r = entries r @ x # rest" and len: "unat (cnt r) = length (entries r)"
      "length (entries r) \<le> 8" "entries r \<noteq> []" "length (region r) = 9"
    using region_split [OF r(1)] .
  note d = disj [unfolded cover_def]
  have "\<forall>e\<in>set (entries r). hi e < unat b \<or> unat b + unat sz < lo e"
    using disjoint_entry [OF _ r(2) d new(1)] far by fastforce
  then obtain pre post where es: "entries r = pre @ post" "\<forall>e\<in>set pre. hi e < unat b"
      "\<forall>e\<in>set post. unat b + unat sz < lo e"
    using split_around [of "entries r" "unat b" "unat b + unat sz"] r(2) by auto
  have "lmb_addrs_adjacent b sz (rg_base e) (rg_size e) = 0" if "e \<in> set (entries r)" for e
    using that far new apart_entry [OF that r(2)] by (subst adjacent_nat) (auto simp: word_less_nat_alt)
  then have "scan_loop (unat (cnt r)) b sz 0 (region r) = scan_loop (unat (cnt r)) b sz (unat (cnt r)) (region r)"
    using scan_skip [of "entries r" b sz "[]" "unat (cnt r)" "x # rest"] not_same_entry [OF _ r(2) d new(1)] len(1)
    by (simp add: reg [symmetric])
  then have scan: "scan_loop (unat (cnt r)) b sz 0 (region r) = Inr (Some (region r, unat (cnt r), 0))"
    by (subst (asm) (2) scan_loop.simps) simp
  have pp: "unat (cnt r) = length pre + length post" "0 < unat (cnt r)" using len es(1) by auto
  note add = add_unmerged [OF not_fresh_apart [OF r] scan pp]
  show ?thesis
  proof (cases "unat (cnt r) < 8")
    case False
    then show ?thesis using add(1) len by (auto simp: added_def)
  next
    case True
    have "lmb_add_region r b sz = Inr (r\<lparr>region := pre @ entry b sz # post @ rest, cnt := cnt r + 1\<rparr>, 0)"
      using es reg by (intro add(2) [OF True, where x = x]) (auto simp: lo_def hi_def word_less_nat_alt)
    then show ?thesis
      using insert_apart [of pre post sz b] r(2) es new pp len reg True
      by (rule_tac addedI [where es = "pre @ entry b sz # post" and rest = rest])
        (auto simp: cover_def unat_word_ariths)
  qed
qed

lemma add_region_ok:
  assumes r: "region_ok r" and new: "0 < sz" "unat b + unat sz < 2 ^ 32" and disj: "cover r \<inter> span b sz = {}"
  shows "added r b sz"
proof (cases "fresh r")
  case True
  then obtain x rest where x: "region r = x # rest" "rg_size x = 0" "cnt r = 1" "length rest = 8"
    using r by (cases "region r") (auto simp: fresh_def region_ok_def)
  have add: "lmb_add_region r b sz = Inr (r\<lparr>region := entry b sz # rest\<rparr>, 0)"
    using x by (simp add: lmb_add_region_def get_entry_def set_entry_def)
  show ?thesis
    using x new True by (intro addedI [OF add, where es = "[entry b sz]"]) (auto simp: apart_simps span_def)
next
  case False
  then have ap: "apart (entries r)" using r by (simp add: region_ok_def)
  note d = disj [unfolded cover_def]
  show ?thesis
  proof (cases "\<exists>e\<in>set (entries r). lo e = unat b + unat sz \<or> unat b = hi e")
    case False
    then show ?thesis using add_apart [OF r ap new disj] by blast
  next
    case True
    then obtain pre e post where es: "entries r = pre @ e # post" "lo e = unat b + unat sz \<or> unat b = hi e"
        "\<forall>f\<in>set pre. \<not> (lo f = unat b + unat sz \<or> unat b = hi f)"
      using split_list_first_prop [OF True] by blast
    obtain x rest where reg: "region r = entries r @ x # rest" and len: "unat (cnt r) = length (entries r)"
        "length (entries r) \<le> 8" "entries r \<noteq> []" "length (region r) = 9"
      using region_split [OF r] .
    have "lmb_addrs_adjacent b sz (rg_base f) (rg_size f) = 0" if "f \<in> set pre" for f
      using that es new apart_entry [of f, OF _ ap] by (subst adjacent_nat) (auto simp: word_less_nat_alt)
    then have scan: "scan_loop (unat (cnt r)) b sz 0 (region r) = scan_loop (unat (cnt r)) b sz (length pre) (region r)"
      using scan_skip [of pre b sz "[]" "unat (cnt r)" "e # post @ x # rest"] not_same_entry [OF _ ap d new(1)] len(1)
        es(1) by (simp add: reg)
    have side: "hi f \<le> unat b \<or> unat b + unat sz \<le> lo f" if "f \<in> set (entries r)" for f
      using disjoint_entry [OF that ap d new(1)] .
    have order: "\<forall>f\<in>set pre. hi f < lo e" "\<forall>f\<in>set post. hi e < lo f" using ap es(1) by (auto simp: apart_simps)
    have hd: "region r = pre @ e # post @ (x # rest)" "unat (cnt r) = Suc (length pre + length post)" "unat (cnt r) \<le> 8"
      using reg es(1) len by auto
    show ?thesis
    proof (cases "lo e = unat b + unat sz")
      case True
      have "hi f < unat b" if "f \<in> set pre" for f
        using that side [of f] es order lo_le_hi [of f] True by fastforce
      then show ?thesis using add_before [OF hd(1,2) len(4) hd(3) _ scan new True] ap es(1) by simp
    next
      case False
      then have b: "unat b = hi e" using es(2) by simp
      have "unat b + unat sz \<le> lo f" if "f \<in> set post" for f
        using that side [of f] es(1) order lo_le_hi [of f] b by fastforce
      then show ?thesis using add_after [OF hd(1,2) len(4) hd(3) _ scan new b] ap es(1) by simp
    qed
  qed
qed

end
