(* ===== verification/Lmb_Alloc.thy ===== *)
theory Lmb_Alloc
  imports Lmb
begin

text \<open>
  What the memory map of lib/lmb.c promises: a reservation is exact, an allocated block lies in the memory,
  is aligned and overlaps no reservation, an allocation fails only when there is no such block or the
  table is full, and giving a block back removes exactly that block unless the table is full.
\<close>

section \<open>A concrete map\<close>

text \<open>256 MB of RAM with the boot loader in the uppermost megabyte.\<close>

definition one_entry :: "u32 \<Rightarrow> u32 \<Rightarrow> lmb_region" where
  "one_entry b sz = \<lparr>cnt = 1, total_size = 0, region = entry b sz # replicate 8 (entry 0 0)\<rparr>"

definition ram_map :: lmb where
  "ram_map = \<lparr>memory = one_entry 0x80000000 0x10000000, reserved = one_entry 0x8ff00000 0x100000\<rparr>"

lemma one_entry_ok: "0 < sz \<Longrightarrow> unat b + unat sz < 2 ^ 32 \<Longrightarrow> region_ok (one_entry b sz) \<and> cover (one_entry b sz) = span b sz"
  by (simp add: region_ok_def one_entry_def entries_def cover_def apart_simps span_def)

lemma ram_map_ok: "region_ok (memory ram_map)" "region_ok (reserved ram_map)"
  "cover (reserved ram_map) = span 0x8ff00000 0x100000"
  by (simp_all add: ram_map_def one_entry_ok)

section \<open>Alignment\<close>

lemma two_power_mask: "(2 ^ k :: u32) - 1 = mask k"
  by (simp add: mask_eq_exp_minus_1)

lemma align_down_push: "lmb_align_down x (2 ^ k) = push_bit k (drop_bit k x)"
  by (rule bit_eqI) (auto simp: lmb_align_down_def two_power_mask bit_simps)

lemma unat_align_down: "unat (lmb_align_down x (2 ^ k)) = unat x div 2 ^ k * 2 ^ k"
proof -
  have "unat x div 2 ^ k * 2 ^ k \<le> unat x" "unat x < 2 ^ 32"
    using unsigned_less [of x, where 'a = nat] by (simp_all add: div_times_less_eq_dividend)
  then have "unat x div 2 ^ k * 2 ^ k < 2 ^ 32" by linarith
  moreover have "unat (lmb_align_down x (2 ^ k)) = take_bit 32 (push_bit k (drop_bit k (unat x)))"
    by (simp add: align_down_push unsigned_push_bit_eq unat_drop_bit_eq)
  ultimately show ?thesis
    by (simp add: push_bit_eq_mult drop_bit_eq_div take_bit_nat_eq_self)
qed

lemma dvd_align_down: "2 ^ k dvd unat (lmb_align_down x (2 ^ k))"
  by (simp add: unat_align_down)

lemma greatest_align_down:
  assumes "(2 :: nat) ^ k dvd y" "y \<le> unat x"
  shows "y \<le> unat (lmb_align_down x (2 ^ k))"
proof -
  obtain q where q: "y = q * 2 ^ k" using assms(1) by (metis dvdE mult.commute)
  have "q \<le> unat x div 2 ^ k" using assms(2) q by (simp add: less_eq_div_iff_mult_less_eq)
  then show ?thesis by (simp add: unat_align_down q)
qed

section \<open>Searching for a free block\<close>

lemma overlap_nat:
  assumes "unat b + unat sz < 2 ^ 32" "hi e < 2 ^ 32"
  shows "lmb_addrs_overlap b sz (rg_base e) (rg_size e) \<longleftrightarrow> unat b < hi e \<and> lo e < unat b + unat sz"
  using assms by (auto simp: lmb_addrs_overlap_def word_less_nat_alt unat_word_ariths hi_def lo_def)

lemma overlaps_loop_None:
  "overlaps_loop n b sz i regs = Inr None \<Longrightarrow> i \<le> j \<Longrightarrow> j < n \<Longrightarrow>
     \<not> lmb_addrs_overlap b sz (rg_base (regs ! j)) (rg_size (regs ! j))"
proof (induction n b sz i regs rule: overlaps_loop.induct)
  case (1 n b sz i regs)
  note r = 1(2) [unfolded overlaps_loop.simps [of n b sz i]]
  show ?case
  proof (cases "j = i")
    case True
    then show ?thesis using r 1(4) by (auto split: if_splits simp: get_entry_def)
  next
    case False
    then show ?thesis using r 1(1,3,4) by (auto split: if_splits simp: get_entry_def)
  qed
qed

lemma overlaps_loop_total: "n \<le> length regs \<Longrightarrow> \<exists>r. overlaps_loop n b sz i regs = Inr r"
  by (induction n b sz i regs rule: overlaps_loop.induct) (subst overlaps_loop.simps, auto simp: get_entry_def)

lemma no_overlap_disjoint:
  assumes "region_ok r" "lmb_overlaps_region r b sz = Inr None" "unat b + unat sz < 2 ^ 32"
  shows "cover r \<inter> span b sz = {}"
proof (cases "fresh r")
  case True
  then show ?thesis using assms(1) by (simp add: region_ok_def)
next
  case False
  then have ap: "apart (entries r)" using assms(1) by (simp add: region_ok_def)
  obtain x rest where reg: "region r = entries r @ x # rest" "unat (cnt r) = length (entries r)"
    using region_split [OF assms(1)] by metis
  have "{lo e ..< hi e} \<inter> span b sz = {}" if e: "e \<in> set (entries r)" for e
  proof -
    obtain j where j: "j < length (entries r)" "entries r ! j = e" using e by (auto simp: in_set_conv_nth)
    then have "region r ! j = e" by (subst reg(1)) (simp add: nth_append)
    then have "\<not> lmb_addrs_overlap b sz (rg_base e) (rg_size e)"
      using overlaps_loop_None [OF assms(2) [unfolded lmb_overlaps_region_def]] j(1) reg(2) by fastforce
    then show ?thesis using overlap_nat [OF assms(3)] apart_entry [OF e ap] by (auto simp: span_def)
  qed
  then show ?thesis by (auto simp: cover_def spans_def)
qed

text \<open>A reservation in the way rules out every block from its start minus the size on.\<close>

lemma overlap_blocks:
  assumes r: "region_ok r" and o: "lmb_overlaps_region r b sz = Inr (Some j)" and b: "unat b + unat sz < 2 ^ 32"
    and y: "y \<le> unat b" "lo (region r ! j) < y + unat sz" "0 < sz"
  shows "cover r \<inter> {y ..< y + unat sz} \<noteq> {}"
proof -
  define e where "e = region r ! j"
  have j: "j < unat (cnt r)" "j < length (region r)" "lmb_addrs_overlap b sz (rg_base e) (rg_size e)"
    using overlaps_loop_Some [OF o [unfolded lmb_overlaps_region_def]] by (auto simp: e_def)
  have "\<not> fresh r" using j by (auto simp: fresh_def lmb_addrs_overlap_def e_def)
  then have ap: "apart (entries r)" using r by (simp add: region_ok_def)
  have e: "e \<in> set (entries r)" using j by (auto simp: e_def entries_def in_set_conv_nth)
  have "unat b < hi e" using overlap_nat [OF b] j(3) apart_entry [OF e ap] by auto
  then have "max (lo e) y \<in> {lo e ..< hi e}" "max (lo e) y \<in> {y ..< y + unat sz}"
    using y apart_entry [OF e ap] unfolding e_def by (auto simp: word_less_nat_alt)
  then show ?thesis using e unfolding cover_def spans_def by blast
qed

lemma alloc_loop_ok:
  assumes "region_ok r" "unat base + unat sz < 2 ^ 32" "0 < sz"
  shows "\<exists>found. alloc_loop r lb sz (2 ^ k) base = Inr found \<and>
    (case found of
       Some x \<Rightarrow> x \<noteq> 0 \<and> lb \<le> x \<and> x \<le> base \<and> (2 ^ k dvd unat base \<longrightarrow> 2 ^ k dvd unat x) \<and> cover r \<inter> span x sz = {}
     | None \<Rightarrow> \<forall>y. 0 < y \<and> unat lb \<le> y \<and> y \<le> unat base \<and> 2 ^ k dvd y \<longrightarrow> cover r \<inter> {y ..< y + unat sz} \<noteq> {})"
  using assms(2)
proof (induction "unat base" arbitrary: base rule: less_induct)
  case less
  show ?case
  proof (cases "base \<noteq> 0 \<and> lb \<le> base")
    case False
    then show ?thesis by (subst alloc_loop.simps) (auto simp: word_le_nat_alt)
  next
    case True
    obtain o' where o: "lmb_overlaps_region r base sz = Inr o'"
      using overlaps_loop_total [of "unat (cnt r)" "region r"] assms(1)
      by (fastforce simp: lmb_overlaps_region_def region_ok_def)
    show ?thesis
    proof (cases o')
      case None
      then show ?thesis
        using True o no_overlap_disjoint [OF assms(1) _ less.prems] by (subst alloc_loop.simps) auto
    next
      case (Some j)
      define rb where "rb = rg_base (region r ! j)"
      note blocked = overlap_blocks [OF assms(1) o [unfolded Some] less.prems _ _ assms(3)]
      show ?thesis
      proof (cases "rb < sz")
        case True
        then have "\<forall>y>0. lo (region r ! j) < y + unat sz" by (simp add: rb_def lo_def word_less_nat_alt)
        then show ?thesis
          using o Some True \<open>base \<noteq> 0 \<and> lb \<le> base\<close> blocked by (subst alloc_loop.simps) (auto simp: rb_def)
      next
        case False
        define nb where "nb = lmb_align_down (rb - sz) (2 ^ k)"
        have lt: "unat nb < unat base"
          using next_base_less [of base sz rb _ "2 ^ k"] True False
            overlaps_loop_Some [OF o [unfolded Some lmb_overlaps_region_def]]
          by (auto simp: rb_def nb_def word_less_nat_alt)
        have step: "alloc_loop r lb sz (2 ^ k) base = alloc_loop r lb sz (2 ^ k) nb"
          using o Some True False by (subst alloc_loop.simps) (simp add: rb_def nb_def)
        have sub: "unat (rb - sz) = unat rb - unat sz" "unat sz \<le> unat rb"
          using False by (simp_all add: unat_sub word_le_nat_alt word_less_nat_alt)
        have far: "lo (region r ! j) < y + unat sz" if "2 ^ k dvd y" "unat nb < y" for y
          using greatest_align_down [OF that(1), of "rb - sz"] that(2) sub
          by (force simp: nb_def rb_def lo_def not_le [symmetric])
        obtain found where f: "alloc_loop r lb sz (2 ^ k) nb = Inr found"
          and c: "case found of
             Some x \<Rightarrow> x \<noteq> 0 \<and> lb \<le> x \<and> x \<le> nb \<and> (2 ^ k dvd unat nb \<longrightarrow> 2 ^ k dvd unat x) \<and> cover r \<inter> span x sz = {}
           | None \<Rightarrow> \<forall>y. 0 < y \<and> unat lb \<le> y \<and> y \<le> unat nb \<and> 2 ^ k dvd y \<longrightarrow> cover r \<inter> {y ..< y + unat sz} \<noteq> {}"
          using less.hyps [OF lt] lt less.prems by auto
        show ?thesis
        proof (cases found)
          case None
          then have "cover r \<inter> {y ..< y + unat sz} \<noteq> {}" if "0 < y" "unat lb \<le> y" "y \<le> unat base" "2 ^ k dvd y" for y
            using that c far [of y] blocked [of y] by (cases "y \<le> unat nb") auto
          then show ?thesis using step f None by auto
        next
          case (Some x)
          then show ?thesis
            using step f c lt dvd_align_down [of k "rb - sz"] by (auto simp: nb_def [symmetric] word_le_nat_alt)
        qed
      qed
    qed
  qed
qed

section \<open>Adding a region always returns\<close>

lemma remove_loop_total: "bnd < length regs \<Longrightarrow> \<exists>regs'. remove_loop bnd i regs = Inr regs' \<and> length regs' = length regs"
proof (induction "bnd - i" arbitrary: i regs)
  case 0
  then show ?case by (subst remove_loop.simps) simp
next
  case (Suc n)
  then show ?case
    using Suc.hyps(1) [of "i + 1" "regs[i := regs ! (i + 1)]"]
    by (subst remove_loop.simps) (auto simp: get_entry_def set_entry_def)
qed

lemma shift_loop_total: "n < length regs \<Longrightarrow> \<exists>regs'. shift_loop n b sz regs = Inr regs' \<and> length regs' = length regs"
proof (induction n arbitrary: regs)
  case (Suc n)
  then show ?case using Suc.IH [of "regs[Suc n := regs ! n]"] by (auto simp: get_entry_def set_entry_def)
qed simp

lemma scan_loop_total:
  "n \<le> length regs \<Longrightarrow> i \<le> n \<Longrightarrow> \<exists>found. scan_loop n b sz i regs = Inr found \<and>
     (\<forall>regs' j c. found = Some (regs', j, c) \<longrightarrow> length regs' = length regs \<and> (c = 0 \<and> j = n \<and> regs' = regs \<or> c = 1 \<and> j < n))"
proof (induction n b sz i regs rule: scan_loop.induct)
  case (1 n b sz i regs)
  show ?case
  proof (cases "i < n")
    case True
    then show ?thesis
      using 1 by (subst scan_loop.simps) (auto simp: get_entry_def Let_def)
  next
    case False
    then show ?thesis using 1(3) by (subst scan_loop.simps) auto
  qed
qed

lemma coalesce_total:
  assumes "length (region r) = 9" "unat (cnt r) \<le> 8" "i < unat (cnt r - 1)" "0 < unat (cnt r)"
  shows "\<exists>r'. lmb_coalesce_regions r i (i + 1) = Inr r'"
proof -
  have c: "unat (cnt r - 1) = unat (cnt r) - 1" using assms(4) by (simp add: unat_sub word_le_nat_alt)
  define e where "e = (region r ! i)\<lparr>rg_size := rg_size (region r ! i) + rg_size (region r ! (i + 1))\<rparr>"
  obtain regs' where "remove_loop (unat (cnt r - 1)) (i + 1) ((region r)[i := e]) = Inr regs'"
    using remove_loop_total [of "unat (cnt r - 1)" "(region r)[i := e]" "i + 1"] assms c by fastforce
  then show ?thesis
    using assms c by (simp add: lmb_coalesce_regions_def lmb_remove_region_def get_entry_def set_entry_def e_def)
qed

lemma add_region_total:
  assumes r: "length (region r) = 9" "unat (cnt r) \<le> 8" "0 < unat (cnt r)"
  shows "\<exists>r' k. lmb_add_region r b sz = Inr (r', k) \<and> (k < 0 \<longrightarrow> r' = r \<and> unat (cnt r) = 8)"
proof (cases "cnt r = 1 \<and> rg_size (region r ! 0) = 0")
  case True
  then show ?thesis using r by (simp add: lmb_add_region_def get_entry_def set_entry_def)
next
  case False
  have c: "unat (cnt r - 1) = unat (cnt r) - 1" using r(3) by (simp add: unat_sub word_le_nat_alt)
  obtain found where f: "scan_loop (unat (cnt r)) b sz 0 (region r) = Inr found"
    and fs: "\<And>regs' j c. found = Some (regs', j, c) \<Longrightarrow>
       length regs' = 9 \<and> (c = 0 \<and> j = unat (cnt r) \<and> regs' = region r \<or> c = 1 \<and> j < unat (cnt r))"
    using scan_loop_total [of "unat (cnt r)" "region r" 0 b sz] r by auto
  have nf: "not_fresh r" using False r(1) by (auto simp: not_fresh_def)
  show ?thesis
  proof (cases found)
    case None
    then show ?thesis using f False r(1) by (auto simp: lmb_add_region_def get_entry_def)
  next
    case (Some p)
    obtain regs j k where p: "p = (regs, j, k)" by (cases p)
    note fs = fs [OF Some [unfolded p]]
    show ?thesis
    proof (cases "k = 1")
      case True
      define r1 where "r1 = r\<lparr>region := regs\<rparr>"
      have r1: "length (region r1) = 9" "cnt r1 = cnt r" using fs by (simp_all add: r1_def)
      obtain a where a: "(if j < unat (cnt r1 - 1) then lmb_regions_adjacent (region r1) j (j + 1) else Inr 0) = Inr a"
          "a \<noteq> 0 \<Longrightarrow> j < unat (cnt r1 - 1)"
      proof (cases "j < unat (cnt r1 - 1)")
        case True
        then have "\<exists>a. lmb_regions_adjacent (region r1) j (j + 1) = Inr a"
          using r1 r c by (simp add: lmb_regions_adjacent_def get_entry_def)
        then show ?thesis using that True by auto
      qed (use that in auto)
      obtain r2 where r2: "(if a \<noteq> 0 then lmb_coalesce_regions r1 j (j + 1) else Inr r1) = Inr r2"
        using coalesce_total [of r1 j] a(2) r1 r that by (cases "a = 0") auto
      have "region r1 = regs" by (simp add: r1_def)
      then have "lmb_add_region r b sz = Inr (r2, if a \<noteq> 0 then 2 else 1)"
        using a(1) r2 by (simp only: add_merged_eq [OF nf f [unfolded Some p True]] r1(2) r1_def [symmetric] bind_result_simps)
      then show ?thesis by auto
    next
      case False
      then have "scan_loop (unat (cnt r)) b sz 0 (region r) = Inr (Some (region r, unat (cnt r), 0))"
        using f Some p fs by auto
      note add = add_unmerged_eq [OF nf this r(3)]
      show ?thesis
        using r shift_loop_total [of "unat (cnt r)" "region r" b sz] by (auto simp: add get_entry_def set_entry_def)
    qed
  qed
qed

section \<open>Allocation\<close>

text \<open>The blocks an allocation may return.\<close>

definition fits :: "lmb \<Rightarrow> u32 \<Rightarrow> nat \<Rightarrow> u32 \<Rightarrow> nat \<Rightarrow> bool" where
  "fits l sz k max_addr y \<longleftrightarrow> 0 < y \<and> 2 ^ k dvd y \<and> {y ..< y + unat sz} \<subseteq> cover (memory l)
     \<and> {y ..< y + unat sz} \<inter> cover (reserved l) = {} \<and> (max_addr = 0 \<or> y + unat sz \<le> unat max_addr)"

text \<open>The regions have gaps, so a block in the memory lies in one of them.\<close>

lemma block_in_one_entry:
  assumes "apart es" "{y ..< z} \<subseteq> spans es" "y < z"
  shows "\<exists>e\<in>set es. lo e \<le> y \<and> z \<le> hi e"
proof -
  have "y \<in> spans es" using assms(2,3) by auto
  then obtain e where e: "e \<in> set es" "lo e \<le> y" "y < hi e" by (auto simp: spans_def)
  have "z \<le> hi e"
  proof (rule ccontr)
    assume "\<not> z \<le> hi e"
    then have "hi e \<in> spans es" using assms(2) e by auto
    then obtain f where f: "f \<in> set es" "lo f \<le> hi e" "hi e < hi f" by (auto simp: spans_def)
    obtain pre post where s: "es = pre @ e # post" using e(1) split_list by metis
    have "f \<noteq> e" using f by auto
    then have "hi f < lo e \<or> hi e < lo f" using f(1) s assms(1) by (auto simp: apart_simps)
    then show False using f lo_le_hi [of e] by auto
  qed
  then show ?thesis using e by auto
qed

definition limit :: "u32 \<Rightarrow> lmb_property \<Rightarrow> nat" where
  "limit max_addr e = (if max_addr = 0 then hi e else min (hi e) (unat max_addr))"

text \<open>One pass of the outer loop.\<close>

lemma first_base:
  assumes "hi e < 2 ^ 32" "sz \<le> rg_size e" "max_addr = 0 \<or> sz \<le> max_addr" "max_addr = 0 \<or> rg_base e < max_addr"
    and base: "base = (if max_addr = 0 then lmb_align_down (rg_base e + rg_size e - sz) (2 ^ k)
               else lmb_align_down (min (rg_base e + rg_size e) max_addr - sz) (2 ^ k))"
  shows "unat base + unat sz \<le> limit max_addr e" "2 ^ k dvd unat base"
    "2 ^ k dvd y \<Longrightarrow> y + unat sz \<le> limit max_addr e \<Longrightarrow> y \<le> unat base"
proof -
  define m where "m = (if max_addr = 0 then rg_base e + rg_size e else min (rg_base e + rg_size e) max_addr)"
  have h: "unat (rg_base e + rg_size e) = hi e" using assms(1) by (simp add: hi_def unat_word_ariths)
  then have m: "unat m = limit max_addr e" by (simp add: m_def limit_def min_def word_le_nat_alt)
  have "unat sz \<le> hi e" using assms(2) by (simp add: hi_def word_le_nat_alt)
  then have sz: "unat sz \<le> unat m" using assms(3) unfolding m by (auto simp: limit_def word_le_nat_alt)
  have b: "base = lmb_align_down (m - sz) (2 ^ k)" by (simp add: base m_def)
  have sub: "unat (m - sz) = unat m - unat sz" using sz by (simp add: unat_sub word_le_nat_alt)
  have "unat base \<le> unat (m - sz)" using align_down_le [of "m - sz" "2 ^ k"] by (simp add: b word_le_nat_alt)
  then show "unat base + unat sz \<le> limit max_addr e" using sub sz m by linarith
  show "2 ^ k dvd unat base" by (simp add: b dvd_align_down)
  show "y \<le> unat base" if "2 ^ k dvd y" "y + unat sz \<le> limit max_addr e"
    unfolding b using that sub m by (intro greatest_align_down) auto
qed

definition alloc_result :: "lmb \<Rightarrow> u32 \<Rightarrow> nat \<Rightarrow> u32 \<Rightarrow> lmb_property list \<Rightarrow> lmb \<times> u32 \<Rightarrow> bool" where
  "alloc_result l sz k max_addr es = (\<lambda>(l', x). memory l' = memory l \<and>
     (x \<noteq> 0 \<longrightarrow> fits l sz k max_addr (unat x) \<and>
        (\<exists>r. lmb_add_region (reserved l) x (lmb_align_up sz (2 ^ k)) = Inr (reserved l', r) \<and> 0 \<le> r) \<and>
        unat x + unat sz < 2 ^ 32) \<and>
     (x = 0 \<longrightarrow> l' = l \<and> (unat (cnt (reserved l)) = 8 \<or>
        (\<forall>e\<in>set es. \<forall>y. lo e \<le> y \<and> y + unat sz \<le> hi e \<longrightarrow> \<not> fits l sz k max_addr y))))"

lemma alloc_regions_ok:
  assumes mem: "region_ok (memory l)" "apart (entries (memory l))" and res: "region_ok (reserved l)"
    and sz: "0 < sz" "max_addr = 0 \<or> sz \<le> max_addr"
  shows "i \<le> length (entries (memory l)) \<Longrightarrow>
    \<exists>out. alloc_regions i l sz (2 ^ k) max_addr = Inr out \<and> alloc_result l sz k max_addr (take i (entries (memory l))) out"
proof (induction i)
  case 0
  then show ?case by (auto simp: alloc_result_def)
next
  case (Suc i)
  define e where "e = entries (memory l) ! i"
  have e: "e \<in> set (entries (memory l))" using Suc.prems by (simp add: e_def)
  have ap: "hi e < 2 ^ 32" using apart_entry [OF e mem(2)] by simp
  have get: "get_entry (region (memory l)) i = Inr e"
    using Suc.prems by (auto simp: get_entry_def e_def entries_def)
  have es: "set (take (Suc i) (entries (memory l))) = insert e (set (take i (entries (memory l))))"
    using Suc.prems by (auto simp: take_Suc_conv_app_nth e_def)
  obtain out where out: "alloc_regions i l sz (2 ^ k) max_addr = Inr out"
      "alloc_result l sz k max_addr (take i (entries (memory l))) out"
    using Suc by auto
  have skip: "alloc_result l sz k max_addr (take (Suc i) (entries (memory l))) out"
    if "\<And>y. lo e \<le> y \<Longrightarrow> y + unat sz \<le> hi e \<Longrightarrow> \<not> fits l sz k max_addr y"
    using out(2) that unfolding alloc_result_def es by auto
  consider (small) "rg_size e < sz" | (above) "sz \<le> rg_size e" "max_addr \<noteq> 0" "max_addr \<le> rg_base e"
    | (search) "sz \<le> rg_size e" "max_addr = 0 \<or> rg_base e < max_addr" by fastforce
  then show ?case
  proof cases
    case small
    then have "alloc_result l sz k max_addr (take (Suc i) (entries (memory l))) out"
      by (intro skip) (auto simp: lo_def hi_def word_less_nat_alt)
    then show ?thesis using out(1) get small by (intro exI [of _ out]) (simp add: Let_def)
  next
    case above
    then have "alloc_result l sz k max_addr (take (Suc i) (entries (memory l))) out"
      using sz(1) by (intro skip) (auto simp: fits_def lo_def word_less_nat_alt word_le_nat_alt)
    then show ?thesis using out(1) get above by (intro exI [of _ out]) (simp add: Let_def not_less)
  next
    case search
    define base where "base = (if max_addr = 0 then lmb_align_down (rg_base e + rg_size e - sz) (2 ^ k)
               else lmb_align_down (min (rg_base e + rg_size e) max_addr - sz) (2 ^ k))"
    note fb = first_base [OF ap search(1) sz(2) search(2) base_def]
    have lim: "limit max_addr e \<le> hi e" "max_addr \<noteq> 0 \<Longrightarrow> limit max_addr e \<le> unat max_addr"
      by (simp_all add: limit_def)
    have nw: "unat base + unat sz < 2 ^ 32" using fb(1) lim ap by linarith
    obtain found where f: "alloc_loop (reserved l) (rg_base e) sz (2 ^ k) base = Inr found"
      and c: "case found of
       Some x \<Rightarrow> x \<noteq> 0 \<and> rg_base e \<le> x \<and> x \<le> base \<and> (2 ^ k dvd unat base \<longrightarrow> 2 ^ k dvd unat x) \<and> cover (reserved l) \<inter> span x sz = {}
     | None \<Rightarrow> \<forall>y. 0 < y \<and> unat (rg_base e) \<le> y \<and> y \<le> unat base \<and> 2 ^ k dvd y \<longrightarrow> cover (reserved l) \<inter> {y ..< y + unat sz} \<noteq> {}"
      using alloc_loop_ok [OF res nw sz(1), of "rg_base e" k] by blast
    have step: "alloc_regions (Suc i) l sz (2 ^ k) max_addr = (case found of
               None \<Rightarrow> alloc_regions i l sz (2 ^ k) max_addr
             | Some base \<Rightarrow>
                 bind_result (lmb_add_region (reserved l) base (lmb_align_up sz (2 ^ k))) (\<lambda>(rgn, k).
                 Inr (l\<lparr>reserved := rgn\<rparr>, if k < 0 then 0 else base)))"
      using get search f unfolding alloc_regions.simps base_def by (auto simp: Let_def not_less)
    show ?thesis
    proof (cases found)
      case None
      have "\<not> fits l sz k max_addr y" if y: "lo e \<le> y" "y + unat sz \<le> hi e" for y
      proof
        assume y': "fits l sz k max_addr y"
        then have "y \<le> unat base" using fb(3) y by (auto simp: fits_def limit_def)
        then show False using c None y y' by (auto simp: fits_def lo_def)
      qed
      then show ?thesis using step None out(1) skip by auto
    next
      case (Some x)
      then have x: "x \<noteq> 0" "lo e \<le> unat x" "unat x \<le> unat base" "2 ^ k dvd unat x" "cover (reserved l) \<inter> span x sz = {}"
        using c fb(2) by (auto simp: lo_def word_le_nat_alt)
      have xs: "unat x + unat sz \<le> limit max_addr e" using x(3) fb(1) by linarith
      have "{unat x ..< unat x + unat sz} \<subseteq> {lo e ..< hi e}" using x(2) xs lim(1) by auto
      then have fit: "fits l sz k max_addr (unat x)"
        using e x xs lim(2) by (force simp: fits_def cover_def spans_def span_def unat_gt_0)
      obtain r' k' where add: "lmb_add_region (reserved l) x (lmb_align_up sz (2 ^ k)) = Inr (r', k')"
          "k' < 0 \<longrightarrow> r' = reserved l \<and> unat (cnt (reserved l)) = 8"
        using add_region_total [of "reserved l" x "lmb_align_up sz (2 ^ k)"] res by (auto simp: region_ok_def)
      show ?thesis
        using step Some add fit x(1) xs lim(1) ap by (auto simp: alloc_result_def)
    qed
  qed
qed

lemma alloc_base_result:
  assumes mem: "region_ok (memory l)" and res: "region_ok (reserved l)"
    and sz: "0 < sz" "max_addr = 0 \<or> sz \<le> max_addr"
  shows "\<exists>out. lmb_alloc_base l sz (2 ^ k) max_addr = Inr out \<and> alloc_result l sz k max_addr (entries (memory l)) out"
proof (cases "fresh (memory l)")
  case True
  then have "lmb_alloc_base l sz (2 ^ k) max_addr = Inr (l, 0)"
    using mem sz(1)
    by (cases "region (memory l)") (auto simp: fresh_def region_ok_def lmb_alloc_base_def do_lmb_alloc_base_def get_entry_def)
  moreover have "cover (memory l) = {}" using True mem by (simp add: region_ok_def)
  ultimately show ?thesis using sz(1) by (auto simp: alloc_result_def fits_def word_less_nat_alt)
next
  case False
  then have "apart (entries (memory l))" using mem by (simp add: region_ok_def)
  moreover have "unat (cnt (memory l)) = length (entries (memory l))" using region_split [OF mem] by metis
  ultimately show ?thesis
    using alloc_regions_ok [OF mem _ res sz, of "length (entries (memory l))" k]
    by (simp add: lmb_alloc_base_def do_lmb_alloc_base_def)
qed

lemma no_fit:
  assumes "region_ok (memory l)" "0 < sz"
    "\<forall>e\<in>set (entries (memory l)). \<forall>y. lo e \<le> y \<and> y + unat sz \<le> hi e \<longrightarrow> \<not> fits l sz k max_addr y"
  shows "\<not> fits l sz k max_addr y"
proof
  assume y: "fits l sz k max_addr y"
  then have sub: "{y ..< y + unat sz} \<subseteq> cover (memory l)" "y < y + unat sz"
    using assms(2) by (auto simp: fits_def word_less_nat_alt)
  then have "\<not> fresh (memory l)" using assms(1) by (auto simp: region_ok_def)
  then have "apart (entries (memory l))" using assms(1) by (simp add: region_ok_def)
  then show False using block_in_one_entry [OF _ sub(1) [unfolded cover_def] sub(2)] assms(3) y by blast
qed

lemma alloc_reserves:
  assumes "region_ok (reserved l)" "0 < sz" "lmb_align_up sz (2 ^ k) = sz"
    "alloc_result l sz k max_addr es (l', x)" "x \<noteq> 0"
  shows "region_ok (reserved l') \<and> cover (reserved l') = cover (reserved l) \<union> span x sz"
proof -
  have "cover (reserved l) \<inter> span x sz = {}" "unat x + unat sz < 2 ^ 32"
    using assms(4,5) by (auto simp: alloc_result_def fits_def span_def)
  then have "added (reserved l) x sz" using add_region_ok [OF assms(1,2)] by blast
  then show ?thesis using assms(3-5) by (auto simp: added_def alloc_result_def)
qed

text \<open>C20: With well-formed tables, a size that is not zero and at most the limit, and an alignment that is a
  power of two, allocating always returns.  An address that is not zero is aligned, and the block lies in the
  memory, below the limit, and overlaps no reservation; when the size is a multiple of the alignment exactly this
  block is reserved afterwards.  The address is zero only when the table of reservations is full or when
  there is no such block at all, and then nothing has changed.
\<close>

theorem lmb_alloc_base_correct:
  assumes mem: "region_ok (memory l)" and res: "region_ok (reserved l)"
    and sz: "0 < sz" "max_addr = 0 \<or> sz \<le> max_addr"
  shows "\<exists>l' x. lmb_alloc_base l sz (2 ^ k) max_addr = Inr (l', x) \<and> memory l' = memory l \<and>
    (if x = 0 then l' = l \<and> (unat (cnt (reserved l)) = 8 \<or> (\<forall>y. \<not> fits l sz k max_addr y))
     else fits l sz k max_addr (unat x) \<and>
       (lmb_align_up sz (2 ^ k) = sz \<longrightarrow>
          region_ok (reserved l') \<and> cover (reserved l') = cover (reserved l) \<union> span x sz))"
proof -
  obtain l' x where out: "lmb_alloc_base l sz (2 ^ k) max_addr = Inr (l', x)"
      "alloc_result l sz k max_addr (entries (memory l)) (l', x)"
    using alloc_base_result [OF assms] by fastforce
  have "region_ok (reserved l') \<and> cover (reserved l') = cover (reserved l) \<union> span x sz"
    if "x \<noteq> 0" "lmb_align_up sz (2 ^ k) = sz"
    using alloc_reserves [OF res sz(1) that(2) out(2) that(1)] .
  then show ?thesis
    using out no_fit [OF mem sz(1), of k max_addr] by (auto simp: alloc_result_def)
qed

theorem lmb_alloc_base_correct_witness:
  "\<exists>l' x. lmb_alloc_base ram_map 0x2000 (2 ^ 12) 0x88000000 = Inr (l', x) \<and> memory l' = memory ram_map \<and>
    (if x = 0 then l' = ram_map \<and> (unat (cnt (reserved ram_map)) = 8 \<or> (\<forall>y. \<not> fits ram_map 0x2000 12 0x88000000 y))
     else fits ram_map 0x2000 12 0x88000000 (unat x) \<and>
       (lmb_align_up 0x2000 (2 ^ 12) = 0x2000 \<longrightarrow>
          region_ok (reserved l') \<and> cover (reserved l') = cover (reserved ram_map) \<union> span x 0x2000))"
  by (rule lmb_alloc_base_correct [OF ram_map_ok(1,2)]) simp_all

section \<open>Giving a block back\<close>

lemma free_find_skip:
  assumes "\<forall>e\<in>set mid. \<not> (rg_base e \<le> b \<and> fin \<le> rg_base e + rg_size e)" "length pre + length mid \<le> n"
  shows "free_find n b fin (length pre) (pre @ mid @ rest) = free_find n b fin (length pre + length mid) (pre @ mid @ rest)"
  using assms
proof (induction mid arbitrary: pre)
  case (Cons e mid)
  have "free_find n b fin (length pre) (pre @ (e # mid) @ rest) = free_find n b fin (length (pre @ [e])) ((pre @ [e]) @ mid @ rest)"
    using Cons.prems by (subst free_find.simps) auto
  also have "\<dots> = free_find n b fin (length (pre @ [e]) + length mid) ((pre @ [e]) @ mid @ rest)"
    using Cons.prems by (intro Cons.IH) auto
  finally show ?case by simp
qed simp

lemma contains_nat:
  assumes "hi e < 2 ^ 32" "unat b + unat sz < 2 ^ 32"
  shows "rg_base e \<le> b \<and> b + sz \<le> rg_base e + rg_size e \<longleftrightarrow> lo e \<le> unat b \<and> unat b + unat sz \<le> hi e"
  using assms by (simp add: word_le_nat_alt lo_def hi_def unat_word_ariths)

lemma spans_minus:
  assumes "apart (pre @ e # post)" "lo e \<le> x" "z \<le> hi e"
  shows "spans (pre @ e # post) - {x ..< z} = spans pre \<union> ({lo e ..< hi e} - {x ..< z}) \<union> spans post"
proof -
  have "\<forall>f\<in>set pre. hi f < lo e" "\<forall>f\<in>set post. hi e < lo f" using assms(1) by (auto simp: apart_simps)
  then have "spans pre \<inter> {x ..< z} = {}" "spans post \<inter> {x ..< z} = {}"
    using assms(2,3) by (fastforce simp: spans_def)+
  then show ?thesis by auto
qed

definition freed :: "lmb_region \<Rightarrow> lmb_region \<Rightarrow> u32 \<Rightarrow> u32 \<Rightarrow> int \<Rightarrow> bool" where
  "freed r r' b sz k \<longleftrightarrow>
     0 \<le> k \<and> cover r' = cover r - span b sz \<and> (cnt r' = 0 \<or> region_ok r') \<or>
     k = - 1 \<and> unat (cnt r) = 8 \<and> region_ok r' \<and>
       (\<exists>z > unat b + unat sz. cover r' = cover r - {unat b ..< z} \<and> {unat b ..< z} \<subseteq> cover r)"

text \<open>The four cases of \<open>lmb_free\<close>, for the entry that contains the block.\<close>

lemma free_whole:
  assumes r: "region r = pre @ e # post @ rest" "unat (cnt r) = Suc (length pre + length post)" "region_ok r"
      "apart (pre @ e # post)" and b: "lo e = unat b" "hi e = unat b + unat sz"
  shows "\<exists>r'. lmb_remove_region r (length pre) = Inr r' \<and> freed r r' b sz 0"
proof -
  have c: "unat (cnt r - 1) = length pre + length post"
    using r(2) by (subst unat_sub) (simp_all add: word_le_nat_alt)
  define r' where "r' = r\<lparr>region := (pre @ post) @ last (e # post) # rest, cnt := cnt r - 1\<rparr>"
  have rm: "lmb_remove_region r (length pre) = Inr r'"
    by (simp add: lmb_remove_region_def c r(1) remove_loop_split r'_def)
  have cov: "cover r - span b sz = spans (pre @ post)"
    using spans_minus [OF r(4), of "unat b" "unat b + unat sz"] b r(1,2) by (auto simp: cover_def entries_def span_def)
  have e': "entries r' = pre @ post" by (simp add: entries_def r'_def c)
  have "cnt r' = 0 \<or> region_ok r'"
  proof (cases "pre @ post = []")
    case True
    then show ?thesis using c by (simp add: r'_def unat_eq_0)
  next
    case False
    moreover have "apart (pre @ post)" using r(4) by (auto simp: apart_simps)
    ultimately show ?thesis
      using r c by (intro disjI2 table_ok(1) [where es = "pre @ post" and rest = "last (e # post) # rest"])
        (auto simp: r'_def region_ok_def)
  qed
  then show ?thesis using rm cov e' by (simp add: freed_def cover_def)
qed

lemma free_shrink:
  assumes r: "region r = pre @ e # post @ rest" "unat (cnt r) = Suc (length pre + length post)" "region_ok r"
      "apart (pre @ e # post)" and b: "lo e \<le> unat b" "unat b + unat sz \<le> hi e"
    and f: "0 < rg_size f" "{lo f ..< hi f} = {lo e ..< hi e} - span b sz" "lo e \<le> lo f" "hi f \<le> hi e"
  shows "freed r (r\<lparr>region := (region r)[length pre := f]\<rparr>) b sz 0"
proof -
  have len: "length (region r) = 9" "unat (cnt r) \<le> 8" using r(3) by (auto simp: region_ok_def)
  have ap: "apart (pre @ f # post)" using r(4) f(1,3,4) by (auto simp: apart_simps)
  have "region (r\<lparr>region := (region r)[length pre := f]\<rparr>) = (pre @ f # post) @ rest" using r(1) by simp
  note t = table_ok [OF this _ _ _ _ ap]
  show ?thesis
    using t(1,3) spans_minus [OF r(4), of "unat b" "unat b + unat sz"] b f(2) r(1,2) len
    by (auto simp: freed_def cover_def entries_def span_def)
qed

lemma free_split:
  assumes r: "region r = pre @ e # post @ rest" "unat (cnt r) = Suc (length pre + length post)" "region_ok r"
      "apart (pre @ e # post)" and b: "lo e < unat b" "unat b + unat sz < hi e" and sz: "0 < sz"
  shows "\<exists>r' k. lmb_add_region (r\<lparr>region := (region r)[length pre := entry (rg_base e) (b - rg_base e)]\<rparr>)
           (b + sz) (rg_base e + rg_size e - (b + sz)) = Inr (r', k) \<and> freed r r' b sz k"
proof -
  have len: "length (region r) = 9" "unat (cnt r) \<le> 8" using r(3) by (auto simp: region_ok_def)
  have e: "hi e < 2 ^ 32" using r(4) by (auto simp: apart_simps)
  define f where "f = entry (rg_base e) (b - rg_base e)"
  define fin where "fin = b + sz"
  define tl where "tl = rg_base e + rg_size e - fin"
  have fin: "unat fin = unat b + unat sz" using b e by (simp add: fin_def unat_word_ariths)
  have tl: "unat fin + unat tl = hi e" "0 < tl"
  proof -
    have "unat (rg_base e + rg_size e) = hi e" using e by (simp add: hi_def unat_word_ariths)
    then have "unat tl = hi e - unat fin" using b fin by (simp add: tl_def unat_sub word_le_nat_alt)
    then show "unat fin + unat tl = hi e" "0 < tl" using b fin by (auto simp: word_less_nat_alt)
  qed
  have f: "lo f = lo e" "hi f = unat b" "0 < rg_size f"
    using b(1) by (auto simp: f_def lo_def unat_sub word_le_nat_alt word_less_nat_alt)
  define r1 where "r1 = r\<lparr>region := (region r)[length pre := f]\<rparr>"
  have ap: "apart (pre @ f # post)" using r(4) f b e by (auto simp: apart_simps)
  have "region r1 = (pre @ f # post) @ rest" using r(1) by (simp add: r1_def)
  note t = table_ok [OF this _ _ _ _ ap]
  have ok: "region_ok r1" "cover r1 = spans (pre @ f # post)" using t(1,3) r(1,2) len by (auto simp: r1_def)
  have cov: "cover r = spans (pre @ e # post)" using r(1,2) by (simp add: cover_def entries_def)
  have ce: "cover r1 = cover r - {unat b ..< hi e}"
  proof -
    have "{lo e ..< hi e} - {unat b ..< hi e} = {lo f ..< hi f}" using f b by auto
    then show ?thesis using spans_minus [OF r(4), of "unat b" "hi e"] ok(2) cov b by (simp add: Un_ac)
  qed
  have sub: "{unat b ..< hi e} \<subseteq> cover r" using b(1) by (auto simp: cov)
  have "cover r1 \<inter> span fin tl = {}" using ce tl fin by (auto simp: span_def)
  then obtain r' k where add: "lmb_add_region r1 fin tl = Inr (r', k)" and
      c: "k = - 1 \<and> r' = r1 \<and> unat (cnt r1) = 8 \<or> 0 \<le> k \<and> region_ok r' \<and> apart (entries r') \<and> cover r' = cover r1 \<union> span fin tl"
    using add_region_ok [OF ok(1) tl(2), of fin] tl(1) e unfolding added_def by auto
  have cf: "cover r1 \<union> span fin tl = cover r - span b sz" using ce sub tl(1) fin by (auto simp: span_def)
  have "freed r r' b sz k"
    using c
  proof
    assume full: "k = - 1 \<and> r' = r1 \<and> unat (cnt r1) = 8"
    then have "unat (cnt r) = 8" by (simp add: r1_def)
    then show ?thesis unfolding freed_def using full ce sub ok(1) b(2) by blast
  next
    assume "0 \<le> k \<and> region_ok r' \<and> apart (entries r') \<and> cover r' = cover r1 \<union> span fin tl"
    then show ?thesis unfolding freed_def using cf by simp
  qed
  then show ?thesis using add by (auto simp: r1_def f_def fin_def tl_def)
qed

lemma free_found:
  assumes find: "free_find (unat (cnt r)) b (b + sz) 0 (region r) = Inr (Some (length pre, e))"
    and r: "region r = pre @ e # post @ rest" "unat (cnt r) = Suc (length pre + length post)" "region_ok r"
      "apart (pre @ e # post)" and b: "lo e \<le> unat b" "unat b + unat sz \<le> hi e"
    and sz: "0 < sz" and l: "reserved l = r"
  shows "\<exists>l' k. lmb_free l b sz = Inr (l', k) \<and> memory l' = memory l \<and> freed r (reserved l') b sz k"
proof -
  have e: "hi e < 2 ^ 32" using r(4) by (auto simp: apart_simps)
  have front: "rg_base e = b \<longleftrightarrow> lo e = unat b" by (simp add: lo_def word_unat_eq_iff)
  have rear: "rg_base e + rg_size e = b + sz \<longleftrightarrow> hi e = unat b + unat sz"
    using e b(2) by (simp add: hi_def word_unat_eq_iff unat_word_ariths)
  have fin: "unat (b + sz) = unat b + unat sz" using b e by (simp add: unat_word_ariths)
  have less: "unat (rg_size e - sz) = unat (rg_size e) - unat sz" "unat sz \<le> unat (rg_size e)"
    using b by (auto simp: unat_sub word_le_nat_alt lo_def hi_def)
  show ?thesis
  proof (cases "lo e = unat b"; cases "hi e = unat b + unat sz")
    assume "lo e = unat b" "hi e = unat b + unat sz"
    then show ?thesis
      using find front rear free_whole [OF r, of b sz] by (auto simp: lmb_free_def l)
  next
    assume c: "lo e = unat b" "hi e \<noteq> unat b + unat sz"
    have "freed r (r\<lparr>region := (region r)[length pre := entry (b + sz) (rg_size e - sz)]\<rparr>) b sz 0"
      using c b fin less by (intro free_shrink [OF r b]) (auto simp: span_def lo_def hi_def word_less_nat_alt)
    then show ?thesis using find front rear c by (simp add: lmb_free_def l)
  next
    assume c: "lo e \<noteq> unat b" "hi e = unat b + unat sz"
    have "freed r (r\<lparr>region := (region r)[length pre := entry (rg_base e) (rg_size e - sz)]\<rparr>) b sz 0"
      using c b fin less by (intro free_shrink [OF r b]) (auto simp: span_def lo_def hi_def word_less_nat_alt)
    then show ?thesis using find front rear c by (simp add: lmb_free_def l)
  next
    assume c: "lo e \<noteq> unat b" "hi e \<noteq> unat b + unat sz"
    then show ?thesis
      using find front rear free_split [OF r, of b sz] b sz by (auto simp: lmb_free_def l)
  qed
qed

lemma free_not_found:
  assumes r: "region_ok r" and sz: "0 < sz" "unat b + unat sz < 2 ^ 32" and n: "\<not> span b sz \<subseteq> cover r"
  shows "free_find (unat (cnt r)) b (b + sz) 0 (region r) = Inr None"
proof -
  obtain x rest where reg: "region r = entries r @ x # rest" and len: "unat (cnt r) = length (entries r)"
    using region_split [OF r] by metis
  have "\<not> (rg_base e \<le> b \<and> b + sz \<le> rg_base e + rg_size e)" if e: "e \<in> set (entries r)" for e
  proof (cases "fresh r")
    case True
    then have "e = entry 0 0" using e r by (cases "region r") (auto simp: fresh_def entries_def)
    then show ?thesis using sz by (simp add: word_le_nat_alt unat_word_ariths word_less_nat_alt)
  next
    case False
    then have "hi e < 2 ^ 32" using r apart_entry [OF e] by (simp add: region_ok_def)
    then show ?thesis using contains_nat [OF _ sz(2)] n e by (fastforce simp: cover_def spans_def span_def)
  qed
  then have "free_find (unat (cnt r)) b (b + sz) 0 (region r) = free_find (unat (cnt r)) b (b + sz) (unat (cnt r)) (region r)"
    using free_find_skip [of "entries r" b "b + sz" "[]" "unat (cnt r)" "x # rest"] len by (simp add: reg [symmetric])
  then show ?thesis by (subst (asm) (2) free_find.simps) simp
qed

text \<open>C23: Giving back a block that is reserved removes exactly this block from the reservations.  The one exception
  is a block in the middle of an entry when the table is full: then the call returns -1 and the rest of the
  entry behind the block is no longer reserved either.  A block that is not wholly reserved is refused
  with -1, and nothing changes.
\<close>

theorem lmb_free_exact:
  assumes res: "region_ok (reserved l)" and sz: "0 < sz" "unat b + unat sz < 2 ^ 32"
  shows "\<exists>l' k. lmb_free l b sz = Inr (l', k) \<and> memory l' = memory l \<and>
    (if span b sz \<subseteq> cover (reserved l) then freed (reserved l) (reserved l') b sz k else k = - 1 \<and> l' = l)"
proof (cases "span b sz \<subseteq> cover (reserved l)")
  case False
  then show ?thesis using free_not_found [OF res sz False] by (simp add: lmb_free_def)
next
  case True
  define r where "r = reserved l"
  have r: "region_ok r" using res by (simp add: r_def)
  obtain x rest where reg: "region r = entries r @ x # rest" and len: "unat (cnt r) = length (entries r)"
    using region_split [OF r] by metis
  have bs: "unat b < unat b + unat sz" using sz(1) by (simp add: word_less_nat_alt)
  have sub: "{unat b ..< unat b + unat sz} \<subseteq> cover r" using True by (simp add: span_def r_def)
  then have "\<not> fresh r" using bs r by (auto simp: region_ok_def)
  then have ap: "apart (entries r)" using r by (simp add: region_ok_def)
  define P where "P f \<longleftrightarrow> rg_base f \<le> b \<and> b + sz \<le> rg_base f + rg_size f" for f :: lmb_property
  have P: "P f \<longleftrightarrow> lo f \<le> unat b \<and> unat b + unat sz \<le> hi f" if "f \<in> set (entries r)" for f
    using contains_nat [OF _ sz(2)] apart_entry [OF that ap] by (auto simp: P_def)
  then have "\<exists>f\<in>set (entries r). P f" using block_in_one_entry [OF ap sub [unfolded cover_def] bs] by blast
  then obtain pre f post where f: "entries r = pre @ f # post" "P f" "\<forall>g\<in>set pre. \<not> P g"
    using split_list_first_prop by metis
  have reg': "region r = pre @ f # post @ (x # rest)" "unat (cnt r) = Suc (length pre + length post)"
    using reg len f(1) by auto
  have find: "free_find (unat (cnt r)) b (b + sz) 0 (region r) = Inr (Some (length pre, f))"
  proof -
    have "free_find (unat (cnt r)) b (b + sz) 0 (region r) = free_find (unat (cnt r)) b (b + sz) (length pre) (region r)"
      using free_find_skip [of pre b "b + sz" "[]" "unat (cnt r)" "f # post @ x # rest"] reg' f(3) by (simp add: P_def)
    also have "\<dots> = Inr (Some (length pre, f))"
      using reg' f(2) by (subst free_find.simps) (simp add: P_def)
    finally show ?thesis .
  qed
  have fb: "lo f \<le> unat b" "unat b + unat sz \<le> hi f" using P [of f] f(1,2) by auto
  have "\<exists>l' k. lmb_free l b sz = Inr (l', k) \<and> memory l' = memory l \<and> freed r (reserved l') b sz k"
    using free_found [OF find reg' r ap [unfolded f(1)] fb sz(1)] r_def by blast
  then show ?thesis using True unfolding r_def by simp
qed

theorem lmb_free_exact_witness:
  "\<exists>l' k. lmb_free ram_map 0x8ff10000 0x1000 = Inr (l', k) \<and> memory l' = memory ram_map \<and>
     freed (reserved ram_map) (reserved l') 0x8ff10000 0x1000 k"
proof -
  have "span 0x8ff10000 0x1000 \<subseteq> cover (reserved ram_map)" by (auto simp: ram_map_ok(3) span_def)
  then show ?thesis using lmb_free_exact [OF ram_map_ok(2), of "0x1000" "0x8ff10000"] by simp
qed

section \<open>Queries\<close>

lemma ex_from_step:
  "i < n \<Longrightarrow> (\<exists>j. i \<le> j \<and> j < n \<and> P j) \<longleftrightarrow> P i \<or> (\<exists>j. Suc i \<le> j \<and> j < n \<and> P j)" for i n :: nat
  by (metis Suc_leD Suc_leI le_neq_implies_less order_refl)

lemma is_reserved_loop_iff:
  "n \<le> length regs \<Longrightarrow> is_reserved_loop n a i regs =
     Inr (\<exists>j. i \<le> j \<and> j < n \<and> rg_base (regs ! j) \<le> a \<and> a \<le> rg_base (regs ! j) + rg_size (regs ! j) - 1)"
proof (induction "n - i" arbitrary: i)
  case 0
  then show ?case by (subst is_reserved_loop.simps) auto
next
  case (Suc m)
  let ?hit = "\<lambda>j. rg_base (regs ! j) \<le> a \<and> a \<le> rg_base (regs ! j) + rg_size (regs ! j) - 1"
  have IH: "is_reserved_loop n a (Suc i) regs = Inr (\<exists>j. Suc i \<le> j \<and> j < n \<and> ?hit j)"
    using Suc.hyps(1) [of "Suc i"] Suc.hyps(2) Suc.prems by simp
  have ex: "(\<exists>j. i \<le> j \<and> j < n \<and> ?hit j) \<longleftrightarrow> ?hit i \<or> (\<exists>j. Suc i \<le> j \<and> j < n \<and> ?hit j)"
    using ex_from_step [of i n ?hit] Suc.hyps(2) by simp
  have "is_reserved_loop n a i regs = (if ?hit i then Inr True else is_reserved_loop n a (Suc i) regs)"
  proof -
    have "i < n" "i < length regs" using Suc.hyps(2) Suc.prems by auto
    then show ?thesis by (subst is_reserved_loop.simps) (simp add: get_entry_def Let_def)
  qed
  then show ?case using IH ex by auto
qed

lemma entry_hit:
  assumes "0 < rg_size e" "hi e < 2 ^ 32"
  shows "rg_base e \<le> a \<and> a \<le> rg_base e + rg_size e - 1 \<longleftrightarrow> unat a \<in> {lo e ..< hi e}"
proof -
  have s: "unat (rg_base e + rg_size e) = hi e" using assms(2) by (simp add: hi_def unat_word_ariths)
  have p: "0 < hi e" using assms(1) by (simp add: hi_def word_less_nat_alt)
  then have "unat (rg_base e + rg_size e - 1) = hi e - 1" using s by (simp add: unat_sub word_le_nat_alt)
  then show ?thesis using p by (auto simp: word_le_nat_alt lo_def)
qed

text \<open>\<open>lmb_is_reserved\<close> says for every address whether a reservation contains it, except right after
  \<open>lmb_init\<close>: the empty first entry then covers all addresses.
\<close>

lemma lmb_is_reserved_exact:
  assumes "region_ok (reserved l)"
  shows "lmb_is_reserved l a = Inr (fresh (reserved l) \<or> unat a \<in> cover (reserved l))"
proof -
  define r where "r = reserved l"
  have r: "length (region r) = 9" "unat (cnt r) \<le> 8" "fresh r \<or> apart (entries r)"
    using assms by (auto simp: region_ok_def r_def)
  let ?hit = "\<lambda>e. rg_base e \<le> a \<and> a \<le> rg_base e + rg_size e - 1"
  have "lmb_is_reserved l a = Inr (\<exists>j<unat (cnt r). ?hit (region r ! j))"
    using is_reserved_loop_iff [of "unat (cnt r)" "region r" a 0] r by (simp add: lmb_is_reserved_def r_def)
  also have "(\<exists>j<unat (cnt r). ?hit (region r ! j)) \<longleftrightarrow> (\<exists>e\<in>set (entries r). ?hit e)"
    using r by (force simp: entries_def in_set_conv_nth)
  also have "\<dots> \<longleftrightarrow> fresh r \<or> unat a \<in> cover r"
  proof (cases "fresh r")
    case True
    then have "entries r = [entry 0 0]" using r by (cases "region r") (auto simp: fresh_def entries_def)
    then show ?thesis using True by simp
  next
    case False
    then have "\<forall>e\<in>set (entries r). ?hit e \<longleftrightarrow> unat a \<in> {lo e ..< hi e}"
      using r(3) entry_hit by (auto simp: apart_def)
    then show ?thesis using False by (auto simp: cover_def spans_def)
  qed
  finally show ?thesis by (simp add: r_def)
qed

lemma lmb_is_reserved_exact_witness:
  "lmb_is_reserved ram_map 0x8ff00010 = Inr True \<and> lmb_is_reserved ram_map 0x80000000 = Inr False"
proof -
  have "\<not> fresh (reserved ram_map)" by (simp add: fresh_def ram_map_def one_entry_def entry_def)
  then show ?thesis by (simp add: lmb_is_reserved_exact [OF ram_map_ok(2)] ram_map_ok(3) span_def)
qed

section \<open>Reservations\<close>

text \<open>C22: Reserving a block that overlaps no reservation keeps the table well-formed (sorted, without empty,
  touching or wrapping entries) and adds exactly this block, or leaves everything as it was and returns -1 when
  all entries are in use.
\<close>

theorem lmb_reserve_exact:
  assumes "region_ok (reserved l)" "0 < sz" "unat b + unat sz < 2 ^ 32" "cover (reserved l) \<inter> span b sz = {}"
  shows "\<exists>l' k. lmb_reserve l b sz = Inr (l', k) \<and> memory l' = memory l \<and>
    (k = - 1 \<and> l' = l \<and> unat (cnt (reserved l)) = 8 \<or>
     0 \<le> k \<and> region_ok (reserved l') \<and> cover (reserved l') = cover (reserved l) \<union> span b sz)"
  using add_region_ok [OF assms] by (auto simp: added_def lmb_reserve_def)

theorem lmb_reserve_exact_witness:
  "\<exists>l' k. lmb_reserve ram_map 0x80000000 0x8000 = Inr (l', k) \<and> memory l' = memory ram_map \<and>
    (k = - 1 \<and> l' = ram_map \<and> unat (cnt (reserved ram_map)) = 8 \<or>
     0 \<le> k \<and> region_ok (reserved l') \<and> cover (reserved l') = cover (reserved ram_map) \<union> span 0x80000000 0x8000)"
  by (rule lmb_reserve_exact [OF ram_map_ok(2)]) (auto simp: ram_map_ok(3) span_def)

text \<open>
  Freeing the only reservation leaves a table with no entry.  The next reservation is then lost if it starts
  at or above the freed one, which becomes reserved again.
\<close>

lemma reserve_after_free_lost:
  assumes "region r = entry b sz # e # rest" "cnt r = 0" "b \<le> b'"
    "lmb_addrs_adjacent b sz (rg_base e) (rg_size e) = 0"
  shows "lmb_add_region r b' sz' = Inr (r\<lparr>cnt := 1\<rparr>, 0)"
proof -
  have "scan_loop 0 b' sz' 0 (region r) = Inr (Some (region r, 0, 0))" by (subst scan_loop.simps) simp
  moreover have "0 < unat (- 1 :: u32)" by (simp add: unat_gt_0)
  ultimately show ?thesis
    using assms regions_adjacent_split [of "[]" "entry b sz" e rest]
    by (auto simp: lmb_add_region_def get_entry_def)
qed

text \<open>
  What the hypotheses of the theorems exclude.  With a size above the limit the subtraction wraps around and
  the block is outside the memory; a size that is not a multiple of the alignment is rounded up after the
  search, and the new entry may overlap the next one.
\<close>

lemma alloc_limit_underflow:
  "map_sum id snd (lmb_alloc_base \<lparr>memory = one_entry 0 0x10000000, reserved = one_entry 0x100 0x100\<rparr> 0x2000 0x1000 0x1000)
     = Inr 0xfffff000"
  by code_simp

lemma alloc_rounded_overlap:
  "map_sum id (\<lambda>(l, x). (x, take 2 (region (reserved l))))
     (lmb_alloc_base \<lparr>memory = one_entry 0x80000000 0x10000, reserved = one_entry 0x8000f800 0x800\<rparr> 0x10 0x1000 0)
     = Inr (0x8000f000, [entry 0x8000f000 0x1000, entry 0x8000f800 0x800])"
  by code_simp

section \<open>Sequences of allocations\<close>

text \<open>
  The contract a client of an allocator relies on, for any kind of request: the block it gets is part of the memory
  and was not taken.  The client is a sequence of requests.
\<close>

fun alloc_seq :: "('q \<Rightarrow> 's \<Rightarrow> ('s \<times> u32) result) \<Rightarrow> 'q list \<Rightarrow> 's \<Rightarrow> ('s \<times> u32 list) result" where
  "alloc_seq alloc [] s = Inr (s, [])"
| "alloc_seq alloc (q # qs) s =
     bind_result (alloc q s) (\<lambda>(s, x). bind_result (alloc_seq alloc qs s) (\<lambda>(s, xs). Inr (s, x # xs)))"

locale block_allocator =
  fixes inv :: "'s \<Rightarrow> bool" and mem :: "'s \<Rightarrow> nat set" and taken :: "'s \<Rightarrow> nat set"
    and valid :: "'q \<Rightarrow> bool" and alloc :: "'q \<Rightarrow> 's \<Rightarrow> ('s \<times> u32) result" and block :: "'q \<Rightarrow> u32 \<Rightarrow> nat set"
  assumes alloc_law: "\<lbrakk>inv s; valid q\<rbrakk> \<Longrightarrow> \<exists>s' x. alloc q s = Inr (s', x) \<and> inv s' \<and> mem s' = mem s \<and>
      (if x = 0 then taken s' = taken s
       else block q x \<subseteq> mem s \<and> block q x \<inter> taken s = {} \<and> taken s' = taken s \<union> block q x)"
begin

lemma alloc_seq_disjoint:
  "\<lbrakk>inv s; \<forall>q\<in>set qs. valid q\<rbrakk> \<Longrightarrow> \<exists>s' xs. alloc_seq alloc qs s = Inr (s', xs) \<and> inv s' \<and> length xs = length qs \<and>
     (\<forall>(q, x)\<in>set (zip qs xs). x \<noteq> 0 \<longrightarrow> block q x \<subseteq> mem s \<and> block q x \<inter> taken s = {}) \<and>
     sorted_wrt (\<lambda>(q, x) (p, y). x \<noteq> 0 \<longrightarrow> y \<noteq> 0 \<longrightarrow> block q x \<inter> block p y = {}) (zip qs xs)"
proof (induction qs arbitrary: s)
  case (Cons q qs)
  obtain s1 x where a: "alloc q s = Inr (s1, x)" "inv s1" "mem s1 = mem s"
      "if x = 0 then taken s1 = taken s
       else block q x \<subseteq> mem s \<and> block q x \<inter> taken s = {} \<and> taken s1 = taken s \<union> block q x"
    using alloc_law [of s q] Cons.prems by auto
  obtain s2 xs where b: "alloc_seq alloc qs s1 = Inr (s2, xs)" "inv s2" "length xs = length qs"
      "\<forall>(p, y)\<in>set (zip qs xs). y \<noteq> 0 \<longrightarrow> block p y \<subseteq> mem s1 \<and> block p y \<inter> taken s1 = {}"
      "sorted_wrt (\<lambda>(q, x) (p, y). x \<noteq> 0 \<longrightarrow> y \<noteq> 0 \<longrightarrow> block q x \<inter> block p y = {}) (zip qs xs)"
    using Cons.IH [OF a(2)] Cons.prems by auto
  have run: "alloc_seq alloc (q # qs) s = Inr (s2, x # xs)" using a(1) b(1) by simp
  have sub: "taken s \<subseteq> taken s1" using a(4) by (auto split: if_splits)
  have new: "x \<noteq> 0 \<Longrightarrow> block q x \<subseteq> mem s \<and> block q x \<inter> taken s = {} \<and> block q x \<subseteq> taken s1"
    using a(4) by (auto split: if_splits)
  have old: "block p y \<subseteq> mem s \<and> block p y \<inter> taken s = {} \<and> block p y \<inter> taken s1 = {}"
    if "(p, y) \<in> set (zip qs xs)" "y \<noteq> 0" for p y
    using b(4) that a(3) sub by blast
  have "\<forall>(p, y)\<in>set (zip (q # qs) (x # xs)). y \<noteq> 0 \<longrightarrow> block p y \<subseteq> mem s \<and> block p y \<inter> taken s = {}"
    using new old by (simp add: split_beta)
  moreover have "\<forall>(p, y)\<in>set (zip qs xs). x \<noteq> 0 \<longrightarrow> y \<noteq> 0 \<longrightarrow> block q x \<inter> block p y = {}"
    using new old by blast
  then have "sorted_wrt (\<lambda>(q, x) (p, y). x \<noteq> 0 \<longrightarrow> y \<noteq> 0 \<longrightarrow> block q x \<inter> block p y = {}) (zip (q # qs) (x # xs))"
    using b(5) by (simp add: split_beta)
  ultimately show ?case using run b(2,3) by (intro exI [of _ s2] exI [of _ "x # xs"]) simp
qed simp

end

text \<open>A request is a size, the exponent of the alignment and the limit; the size is a multiple of the alignment.\<close>

fun valid_request :: "u32 \<times> nat \<times> u32 \<Rightarrow> bool" where
  "valid_request (sz, k, max_addr) \<longleftrightarrow> 0 < sz \<and> (max_addr = 0 \<or> sz \<le> max_addr) \<and> lmb_align_up sz (2 ^ k) = sz"

fun request :: "u32 \<times> nat \<times> u32 \<Rightarrow> lmb \<Rightarrow> (lmb \<times> u32) result" where
  "request (sz, k, max_addr) l = lmb_alloc_base l sz (2 ^ k) max_addr"

interpretation allocator: block_allocator
  "\<lambda>l :: lmb. region_ok (memory l) \<and> region_ok (reserved l)" "\<lambda>l. cover (memory l)" "\<lambda>l. cover (reserved l)"
  valid_request request "\<lambda>q x. span x (fst q)"
proof
  fix l :: lmb and q assume l: "region_ok (memory l) \<and> region_ok (reserved l)" and q: "valid_request q"
  obtain sz k m where e: "q = (sz, k, m)" by (cases q)
  have v: "0 < sz" "m = 0 \<or> sz \<le> m" "lmb_align_up sz (2 ^ k) = sz" using q e by auto
  obtain l' x where o: "lmb_alloc_base l sz (2 ^ k) m = Inr (l', x)" "alloc_result l sz k m (entries (memory l)) (l', x)"
    using alloc_base_result [of l sz m k] l v by fastforce
  have "region_ok (reserved l') \<and> cover (reserved l') = cover (reserved l) \<union> span x sz" if "x \<noteq> 0"
    using alloc_reserves [OF _ v(1) v(3) o(2)] l that by blast
  then show "\<exists>l' x. request q l = Inr (l', x) \<and> (region_ok (memory l') \<and> region_ok (reserved l')) \<and>
      cover (memory l') = cover (memory l) \<and>
      (if x = 0 then cover (reserved l') = cover (reserved l)
       else span x (fst q) \<subseteq> cover (memory l) \<and> span x (fst q) \<inter> cover (reserved l) = {} \<and>
         cover (reserved l') = cover (reserved l) \<union> span x (fst q))"
    using o l e by (auto simp: alloc_result_def fits_def span_def)
qed



end
