(* ===== verification/Httpd_Props.thy ===== *)
theory Httpd_Props
  imports Uip_Props
begin

text \<open>
  What the web server of httpd/httpd.c does with an upload: the bytes of the image arrive in RAM in order, and
  the flag that starts flashing is set only after a complete upload that was not refused.
\<close>

section \<open>State access\<close>

definition conn_there :: "'a httpd_scheme \<Rightarrow> bool" where
  "conn_there s \<longleftrightarrow> uip_conn_ix s < length (uip_conns s)"

lemma hs_upd_hs [simp]: "conn_there s \<Longrightarrow> hs (upd_hs f s) = f (hs s)"
  by (simp add: hs_def upd_hs_def conn_there_def upd_conn_def cur_conn_def)

lemma conn_there_upd [simp]: "conn_there (upd_hs f s) = conn_there s"
  "conn_there (s\<lparr>webfailsafe_upgrade_type := k\<rparr>) = conn_there s"
  by (simp_all add: conn_there_def upd_hs_def upd_conn_def)

lemma hs_cong: "uip_conns s' = uip_conns s \<Longrightarrow> uip_conn_ix s' = uip_conn_ix s \<Longrightarrow> hs s' = hs s"
  by (simp add: hs_def cur_conn_def)

lemma hs_updates [simp]:
  "hs (s\<lparr>uip_buf := b\<rparr>) = hs s" "hs (s\<lparr>ram := r\<rparr>) = hs s" "hs (s\<lparr>webfailsafe_data_pointer := p\<rparr>) = hs s"
  "hs (s\<lparr>uip_len := n\<rparr>) = hs s" "hs (s\<lparr>uip_flags := f\<rparr>) = hs s" "hs (s\<lparr>uip_appdata := a\<rparr>) = hs s"
  "hs (s\<lparr>post_packet_counter := c\<rparr>) = hs s" "hs (s\<lparr>post_line_counter := c\<rparr>) = hs s"
  "hs (s\<lparr>webfailsafe_post_done := d\<rparr>) = hs s" "hs (s\<lparr>NetBootFileXferSize := x\<rparr>) = hs s"
  "hs (s\<lparr>data_start_found := d\<rparr>) = hs s" "hs (s\<lparr>webfailsafe_upload_failed := d\<rparr>) = hs s"
  "hs (s\<lparr>webfailsafe_upgrade_type := k\<rparr>) = hs s" "hs (s\<lparr>boundary_value := v\<rparr>) = hs s"
  "hs (s\<lparr>webfailsafe_ready_for_upgrade := d\<rparr>) = hs s"
  by (simp_all add: hs_def cur_conn_def)

lemma upd_hs_sel [simp]:
  "uip_buf (upd_hs f s) = uip_buf s" "ram (upd_hs f s) = ram s" "uip_len (upd_hs f s) = uip_len s"
  "uip_appdata (upd_hs f s) = uip_appdata s" "uip_flags (upd_hs f s) = uip_flags s" "uip_objs (upd_hs f s) = uip_objs s"
  "uip_conn_ix (upd_hs f s) = uip_conn_ix s" "length (uip_conns (upd_hs f s)) = length (uip_conns s)"
  "webfailsafe_data_pointer (upd_hs f s) = webfailsafe_data_pointer s" "boundary_value (upd_hs f s) = boundary_value s"
  "webfailsafe_upload_failed (upd_hs f s) = webfailsafe_upload_failed s" "data_start_found (upd_hs f s) = data_start_found s"
  "webfailsafe_post_done (upd_hs f s) = webfailsafe_post_done s" "NetBootFileXferSize (upd_hs f s) = NetBootFileXferSize s"
  "webfailsafe_ready_for_upgrade (upd_hs f s) = webfailsafe_ready_for_upgrade s"
  "webfailsafe_upgrade_type (upd_hs f s) = webfailsafe_upgrade_type s"
  by (simp_all add: upd_hs_def upd_conn_def)

section \<open>The flags of an upgrade\<close>

definition flags_kept :: "'a httpd_scheme \<Rightarrow> 'b httpd_scheme \<Rightarrow> bool" where
  "flags_kept s s' \<longleftrightarrow> webfailsafe_ready_for_upgrade s' = webfailsafe_ready_for_upgrade s
     \<and> webfailsafe_post_done s' = webfailsafe_post_done s \<and> NetBootFileXferSize s' = NetBootFileXferSize s"

named_theorems kept

lemma kept_trans: "flags_kept s t \<Longrightarrow> flags_kept t u \<Longrightarrow> flags_kept s u"
  by (simp add: flags_kept_def)

lemma kept_basic [kept]:
  "flags_kept s s" "flags_kept s (upd_hs f t) = flags_kept s t" "flags_kept s (uip_close t) = flags_kept s t"
  "flags_kept s (uip_abort t) = flags_kept s t" "flags_kept s (uip_send p n t) = flags_kept s t"
  by (simp_all add: flags_kept_def uip_close_def uip_abort_def uip_send_def)

lemma kept_upd [kept]:
  "flags_kept s (t\<lparr>uip_buf := b\<rparr>) = flags_kept s t" "flags_kept s (t\<lparr>boundary_value := v\<rparr>) = flags_kept s t"
  "flags_kept s (t\<lparr>data_start_found := d\<rparr>) = flags_kept s t" "flags_kept s (t\<lparr>ram := r\<rparr>) = flags_kept s t"
  "flags_kept s (t\<lparr>webfailsafe_data_pointer := p\<rparr>) = flags_kept s t"
  "flags_kept s (t\<lparr>webfailsafe_upgrade_type := k\<rparr>) = flags_kept s t"
  "flags_kept s (t\<lparr>webfailsafe_upload_failed := d\<rparr>) = flags_kept s t"
  "flags_kept s (httpd.more_update g t) = flags_kept s t"
  by (simp_all add: flags_kept_def)

lemma kept_progress [kept]: "flags_kept s (httpd_download_progress t) = flags_kept s t"
  by (simp add: flags_kept_def httpd_download_progress_def Let_def)

lemma kept_reset [kept]: "flags_kept s (httpd_state_reset t) = flags_kept s t" "flags_kept s (reset_abort t) = flags_kept s t"
  by (simp_all add: flags_kept_def httpd_state_reset_def reset_abort_def uip_abort_def)

lemma kept_send [kept]: "flags_kept s (send_chunk t) = flags_kept s t" "flags_kept s (serve f t) = flags_kept s t"
  "flags_kept s (advance t) = flags_kept s t" "flags_kept s (stack_reply r t) = flags_kept s t"
  by (simp_all add: send_chunk_def serve_def advance_def stack_reply_def Let_def kept)

lemma kept_set_app: "set_app j v s = Inr s' \<Longrightarrow> flags_kept s s'"
  by (auto simp: set_app_def flags_kept_def split: ptr.splits if_splits)

lemma kept_set_app_trans: "set_app j v t = Inr t' \<Longrightarrow> flags_kept s t \<Longrightarrow> flags_kept s t'"
  using kept_set_app kept_trans by blast

lemma kept_firstchunk: "httpd_findandstore_firstchunk s = Inr (b, s') \<Longrightarrow> flags_kept s s'"
  by (auto simp: httpd_findandstore_firstchunk_def Let_def kept split: option.splits if_splits)

lemma kept_boundary: "upload_boundary P s = Inr s' \<Longrightarrow> flags_kept s s'"
  by (auto simp: upload_boundary_def Let_def kept split: option.splits if_splits dest!: kept_firstchunk)
    (auto simp: flags_kept_def)

lemma kept_upload_request: "upload_request P s = Inr s' \<Longrightarrow> flags_kept s s'"
proof -
  assume "upload_request P s = Inr s'"
  then obtain t where t: "set_app (unat (uip_len s)) 0 s = Inr t" and
    "flags_kept t s'"
    by (auto simp: upload_request_def Let_def kept split: option.splits if_splits dest!: kept_boundary)
      (auto simp: flags_kept_def kept)
  then show ?thesis using kept_set_app kept_trans by blast
qed

lemma kept_get_macrw: "get_macrw P s = Inr s' \<Longrightarrow> flags_kept s s'"
  by (auto simp: get_macrw_def Let_def kept split: option.splits) (rule kept_set_app, assumption)

lemma kept_post_handler: "post_handler h P s = Inr (Some s') \<Longrightarrow> flags_kept s s'"
  by (auto simp: post_handler_def Let_def kept split: option.splits if_splits)

lemma kept_file_request: "file_request P s = Inr s' \<Longrightarrow> flags_kept s s'"
  by (auto simp: file_request_def kept split: option.splits) (rule kept_set_app, assumption)

lemma kept_state: "flags_kept (upd_hs f s) s' = flags_kept s s'"
  by (simp add: flags_kept_def)

lemma kept_new_request: "new_request P s = Inr s' \<Longrightarrow> flags_kept s s'"
  by (auto simp: new_request_def Let_def kept kept_state split: if_splits option.splits
      dest!: kept_get_macrw kept_file_request kept_post_handler kept_upload_request)

lemma set_app_sel:
  assumes "set_app j v s = Inr t"
  shows "hs t = hs s" "uip_len t = uip_len s" "conn_there t = conn_there s" "boundary_value t = boundary_value s"
    "data_start_found t = data_start_found s" "webfailsafe_upload_failed t = webfailsafe_upload_failed s"
    "webfailsafe_data_pointer t = webfailsafe_data_pointer s" "ram t = ram s" "uip_appdata t = uip_appdata s"
    "uip_objs t = uip_objs s"
  using assms by (auto simp: set_app_def conn_there_def split: ptr.splits if_splits)

lemma store_data_sel:
  assumes "store_data s = Inr t"
  shows "hs t = hs s" "flags_kept s t" "boundary_value t = boundary_value s" "conn_there t = conn_there s"
  using assms by (auto simp: store_data_def kept conn_there_def split: if_splits)

lemma progress_sel [simp]:
  "hs (httpd_download_progress s) = hs s" "boundary_value (httpd_download_progress s) = boundary_value s"
  "conn_there (httpd_download_progress s) = conn_there s" "ram (httpd_download_progress s) = ram s"
  "webfailsafe_data_pointer (httpd_download_progress s) = webfailsafe_data_pointer s"
  "webfailsafe_upload_failed (httpd_download_progress s) = webfailsafe_upload_failed s"
  "data_start_found (httpd_download_progress s) = data_start_found s" "uip_buf (httpd_download_progress s) = uip_buf s"
  "uip_conn_ix (httpd_download_progress s) = uip_conn_ix s" "uip_conns (httpd_download_progress s) = uip_conns s"
  by (simp_all add: httpd_download_progress_def Let_def conn_there_def)

lemma upload_done_flags:
  assumes "upload_done P s = Inr s'"
  shows "webfailsafe_ready_for_upgrade s' = webfailsafe_ready_for_upgrade s \<and> webfailsafe_post_done s'
    \<and> NetBootFileXferSize s' = hs_upload_total (hs s)"
  using assms
  by (auto simp: upload_done_def Let_def serve_def send_chunk_def uip_send_def httpd_state_reset_def)

definition received_all :: "'a httpd_scheme \<Rightarrow> bool" where
  "received_all s \<longleftrightarrow> data_start_found s \<and> hs_state (hs s) = STATE_UPLOAD_REQUEST
     \<and> (\<exists>bv. boundary_value s = Some bv
          \<and> hs_upload_total (hs s) + of_nat (length bv) + 6 \<le> hs_upload (hs s) + ucast (uip_len s))"

lemma upload_data_flags:
  assumes "upload_data P s = Inr s'" "conn_there s" "hs_state (hs s) = STATE_UPLOAD_REQUEST"
  shows "flags_kept s s' \<or> received_all s \<and> webfailsafe_ready_for_upgrade s' = webfailsafe_ready_for_upgrade s
    \<and> NetBootFileXferSize s' = hs_upload_total (hs s)"
proof -
  obtain t where t: "set_app (unat (uip_len s)) 0 s = Inr t" using assms(1) by (auto simp: upload_data_def)
  note sel = set_app_sel [OF t]
  have kt: "flags_kept s t" using kept_set_app [OF t] .
  show ?thesis
  proof (cases "data_start_found s")
    case False
    then have "flags_kept t s'"
      using assms(1) t sel by (auto simp: upload_data_def kept split: if_splits dest!: kept_firstchunk)
    then show ?thesis using kt kept_trans by blast
  next
    case True
    define u where "u = upd_hs (\<lambda>h. h\<lparr>hs_upload := hs_upload h + ucast (uip_len t)\<rparr>) t"
    obtain v bv where v: "store_data u = Inr v" "boundary_value v = Some bv" and
      r: "(if hs_upload_total (hs v) + of_nat (length bv) + 6 \<le> hs_upload (hs v)
           then upload_done P (httpd_download_progress v) else Inr (httpd_download_progress v)) = Inr s'"
      using assms(1) t True sel by (auto simp: upload_data_def Let_def u_def split: option.splits)
    note vs = store_data_sel [OF v(1)]
    have hu: "hs u = (hs s)\<lparr>hs_upload := hs_upload (hs s) + ucast (uip_len s)\<rparr>" "boundary_value u = boundary_value s"
      using sel assms(2) by (simp_all add: u_def)
    have kv: "flags_kept s v" using kt vs(2) by (auto simp: u_def kept_state intro: kept_trans)
    show ?thesis
    proof (cases "hs_upload_total (hs v) + of_nat (length bv) + 6 \<le> hs_upload (hs v)")
      case False
      then show ?thesis using r kv by (auto simp: kept)
    next
      case c: True
      then have "upload_done P (httpd_download_progress v) = Inr s'" using r by simp
      note d = upload_done_flags [OF this]
      have "webfailsafe_ready_for_upgrade (httpd_download_progress v) = webfailsafe_ready_for_upgrade s"
        using kv kept_progress [of s v] by (simp add: flags_kept_def)
      then show ?thesis using d c v(2) vs(1,3) hu True assms(3) by (simp add: received_all_def)
    qed
  qed
qed

lemma appcall_cases:
  assumes "httpd_appcall P s = Inr s'"
  shows "flags_kept s s' \<or> s' = acked s \<or> hs_state (hs s) = STATE_UPLOAD_REQUEST \<and> upload_data P s = Inr s'"
  using assms unfolding httpd_appcall_def Let_def
  by (auto simp: kept split: if_splits dest!: kept_new_request)

lemma acked_flags:
  "flags_kept s (acked s) \<or> webfailsafe_post_done s \<and> \<not> webfailsafe_post_done (acked s)
     \<and> NetBootFileXferSize (acked s) = NetBootFileXferSize s
     \<and> (webfailsafe_ready_for_upgrade (acked s) \<longrightarrow> webfailsafe_ready_for_upgrade s \<or> \<not> webfailsafe_upload_failed s)"
  by (auto simp: acked_def Let_def kept) (auto simp: httpd_state_reset_def uip_close_def)

text \<open>C19: A call of the web server starts the upgrade only when an upload was complete before and had not been
  refused, and takes the flag of the complete upload back.  An upload becomes complete only in a call that delivers data
  after the start of the image has been found and that brings the number of received bytes to the announced
  number, and the size that will be flashed is then the announced size of the image.
\<close>

theorem upgrade_only_after_upload:
  assumes "httpd_appcall P s = Inr s'" "conn_there s"
  shows "(webfailsafe_ready_for_upgrade s' \<longrightarrow> webfailsafe_ready_for_upgrade s
      \<or> webfailsafe_post_done s \<and> \<not> webfailsafe_upload_failed s \<and> \<not> webfailsafe_post_done s'
        \<and> NetBootFileXferSize s' = NetBootFileXferSize s) \<and>
    (webfailsafe_post_done s' \<longrightarrow> webfailsafe_post_done s \<and> NetBootFileXferSize s' = NetBootFileXferSize s
      \<or> received_all s \<and> NetBootFileXferSize s' = hs_upload_total (hs s))"
  using appcall_cases [OF assms(1)]
proof (elim disjE conjE)
  assume "flags_kept s s'"
  then show ?thesis by (auto simp: flags_kept_def)
next
  assume "s' = acked s"
  then show ?thesis using acked_flags [of s] by (auto simp: flags_kept_def)
next
  assume "hs_state (hs s) = STATE_UPLOAD_REQUEST" "upload_data P s = Inr s'"
  then show ?thesis using upload_data_flags [OF _ assms(2)] by (auto simp: flags_kept_def)
qed

text \<open>The server has sent the page that follows a complete upload, and the client acknowledges it.\<close>

definition page_conn :: uip_conn where
  "page_conn = boot_conn\<lparr>lport := htons 80, tcpstateflags := ESTABLISHED, mss := 1446,
     appstate := (appstate boot_conn)\<lparr>hs_state := STATE_FILE_REQUEST, hs_upload := 100\<rparr>\<rparr>"

definition page_sent :: httpd where
  "page_sent = boot_state\<lparr>uip_conns := [page_conn, boot_conn], uip_flags := UIP_ACKDATA,
     webfailsafe_post_done := True, NetBootFileXferSize := 65536\<rparr>"

theorem upgrade_only_after_upload_witness:
  "\<exists>s'. httpd_appcall no_site page_sent = Inr s' \<and> webfailsafe_ready_for_upgrade s' \<and> \<not> webfailsafe_post_done s'
     \<and> NetBootFileXferSize s' = 65536"
proof -
  have call: "httpd_appcall no_site page_sent = Inr (acked page_sent)"
    by (simp add: httpd_appcall_def page_sent_def page_conn_def cur_conn_def boot_state_def hs_def)
  have there: "conn_there page_sent" by (simp add: conn_there_def page_sent_def boot_state_def)
  have "webfailsafe_ready_for_upgrade (acked page_sent)" "\<not> webfailsafe_ready_for_upgrade page_sent"
      "NetBootFileXferSize page_sent = 65536"
    by (simp_all add: acked_def Let_def page_sent_def page_conn_def cur_conn_def boot_state_def boot_conn_def hs_def uip_mss_def
        httpd_state_reset_def uip_close_def upd_hs_def upd_conn_def)
  then show ?thesis using call upgrade_only_after_upload [OF call there] by simp
qed

section \<open>The image in RAM\<close>

abbreviation (input) IMAGE :: u32 where "IMAGE \<equiv> WEBFAILSAFE_UPLOAD_RAM_ADDRESS"

text \<open>The bytes \<open>got\<close> of the image have arrived and the upload goes on.\<close>

definition uploading :: "u8 list \<Rightarrow> u32 \<Rightarrow> u8 list \<Rightarrow> 'a httpd_scheme \<Rightarrow> bool" where
  "uploading bv tot got s \<longleftrightarrow> conn_there s \<and> length (uip_buf s) = UIP_BUF_BYTES \<and> lport (cur_conn s) = htons 80
     \<and> hs_state (hs s) = STATE_UPLOAD_REQUEST \<and> data_start_found s \<and> boundary_value s = Some bv
     \<and> \<not> webfailsafe_upload_failed s \<and> hs_upload_total (hs s) = tot \<and> hs_upload (hs s) = of_nat (length got)
     \<and> webfailsafe_data_pointer s = IMAGE + of_nat (length got)
     \<and> (\<forall>i<length got. ram s (IMAGE + of_nat i) = got ! i)"

text \<open>A segment with the data \<open>d\<close> for the application, as \<open>uip_process\<close> hands it over.\<close>

definition segment :: "u8 list \<Rightarrow> 'a httpd_scheme \<Rightarrow> 'a httpd_scheme" where
  "segment d s = s\<lparr>uip_buf := put_bytes 54 d (uip_buf s), uip_appdata := In_Buf 54, uip_len := of_nat (length d),
     uip_flags := UIP_NEWDATA\<rparr>"

fun deliver :: "'a site \<Rightarrow> u8 list list \<Rightarrow> 'a httpd_scheme \<Rightarrow> 'a httpd_scheme result" where
  "deliver P [] s = Inr s"
| "deliver P (d # ds) s = bind_result (httpd_appcall P (segment d s)) (deliver P ds)"

lemma write_ram_extends:
  assumes "\<forall>i<length got. r (IMAGE + of_nat i) = got ! i" "length got + length d < 2 ^ 32" "i < length (got @ d)"
  shows "write_ram (IMAGE + of_nat (length got)) d r (IMAGE + of_nat i) = (got @ d) ! i"
proof -
  have i: "i < 2 ^ 32" "length got < 2 ^ 32" using assms(2,3) by auto
  have eq: "IMAGE + of_nat i - (IMAGE + of_nat (length got)) = (of_nat i - of_nat (length got) :: u32)"
    by (rule add_diff_cancel_left)
  show ?thesis
  proof (cases "i < length got")
    case False
    then have "(of_nat i - of_nat (length got) :: u32) = of_nat (i - length got)" by (simp add: of_nat_diff)
    then have "unat (of_nat i - of_nat (length got) :: u32) = i - length got"
      using i by (simp add: unat_of_nat)
    moreover have "i - length got < length d" using False assms(3) by auto
    ultimately show ?thesis using False eq by (simp add: write_ram_def nth_append)
  next
    case True
    have "unat (of_nat i - of_nat (length got) :: u32) = 2 ^ 32 - (length got - i)"
    proof -
      have "(of_nat i - of_nat (length got) :: u32) = of_nat (2 ^ 32 - (length got - i))"
        using True i by (simp add: of_nat_diff)
      moreover have "2 ^ 32 - (length got - i) < 2 ^ 32" using True i by simp
      ultimately show ?thesis by (simp add: unat_of_nat)
    qed
    then have "\<not> unat (of_nat i - of_nat (length got) :: u32) < length d" using assms(2) True by simp
    then show ?thesis using True assms(1) eq by (simp add: write_ram_def nth_append)
  qed
qed

lemma set_app_segment:
  assumes "length (uip_buf s) = UIP_BUF_BYTES" "length d < 1448"
  shows "\<exists>t. set_app (unat (uip_len (segment d s))) 0 (segment d s) = Inr t
    \<and> t = (segment d s)\<lparr>uip_buf := (put_bytes 54 d (uip_buf s))[54 + length d := 0]\<rparr>
    \<and> read_mem t (In_Buf 54) (length d) = Inr d"
proof -
  define t where "t = (segment d s)\<lparr>uip_buf := (put_bytes 54 d (uip_buf s))[54 + length d := 0]\<rparr>"
  have n: "unat (uip_len (segment d s)) = length d" using assms(2) by (simp add: segment_def unat_of_nat)
  have len: "length (put_bytes 54 d (uip_buf s)) = 1502" using assms by simp
  have "set_app (unat (uip_len (segment d s))) 0 (segment d s) = Inr t"
    unfolding n using assms(2) len by (simp add: set_app_def t_def segment_def)
  moreover have "bytes_at ((put_bytes 54 d (uip_buf s))[54 + length d := 0]) 54 (length d) = d"
    using assms take_drop_put_bytes [of 54 d "uip_buf s"] by (simp add: bytes_at_def drop_update_swap)
  then have "read_mem t (In_Buf 54) (length d) = Inr d"
    using assms(2) len by (cases d) (simp_all add: t_def)
  ultimately show ?thesis using t_def by blast
qed

text \<open>The state after the data of one segment has been stored.\<close>

definition stored :: "u8 list \<Rightarrow> 'a httpd_scheme \<Rightarrow> 'a httpd_scheme" where
  "stored d s = httpd_download_progress ((upd_hs (\<lambda>h. h\<lparr>hs_upload := hs_upload h + of_nat (length d)\<rparr>)
       ((segment d s)\<lparr>uip_buf := (put_bytes 54 d (uip_buf s))[54 + length d := 0]\<rparr>))
       \<lparr>ram := write_ram (webfailsafe_data_pointer s) d (ram s),
        webfailsafe_data_pointer := webfailsafe_data_pointer s + of_nat (length d)\<rparr>)"

lemma appcall_segment:
  assumes "uploading bv tot got s" "length d < 1448"
  shows "httpd_appcall P (segment d s) =
    (if hs_upload_total (hs (stored d s)) + of_nat (length bv) + 6 \<le> hs_upload (hs (stored d s))
     then upload_done P (stored d s) else Inr (stored d s))"
proof -
  have u: "length (uip_buf s) = UIP_BUF_BYTES" "lport (cur_conn s) = htons 80" "hs_state (hs s) = STATE_UPLOAD_REQUEST"
      "data_start_found s" "boundary_value s = Some bv" "\<not> webfailsafe_upload_failed s"
    using assms(1) by (simp_all add: uploading_def)
  obtain t where t: "set_app (unat (uip_len (segment d s))) 0 (segment d s) = Inr t"
      "t = (segment d s)\<lparr>uip_buf := (put_bytes 54 d (uip_buf s))[54 + length d := 0]\<rparr>"
      "read_mem t (In_Buf 54) (length d) = Inr d"
    using set_app_segment [OF u(1) assms(2)] by blast
  have len: "(ucast (of_nat (length d) :: u16) :: u32) = of_nat (length d)" "unat (of_nat (length d) :: u16) = length d"
    using assms(2) by (simp_all add: word_unat_eq_iff unsigned_ucast_eq take_bit_nat_eq_self unat_of_nat)
  have rd: "read_mem (upd_hs f t) (In_Buf 54) (length d) = Inr d" for f
    using t(3) by (cases "length d") (simp_all split: if_splits)
  have app: "httpd_appcall P (segment d s) = upload_data P (segment d s)"
    using u by (simp add: httpd_appcall_def segment_def cur_conn_def hs_def)
  show ?thesis
    unfolding app upload_data_def t(1) bind_result_simps
    using u rd by (simp add: t(2) segment_def Let_def store_data_def stored_def len)
qed

lemma stored_sel:
  assumes "uploading bv tot got s" "length got + length d < 2 ^ 32" "length d < 1448"
  shows "uploading bv tot (got @ d) (stored d s)"
proof -
  have "\<forall>i<length (got @ d). write_ram (IMAGE + of_nat (length got)) d (ram s) (IMAGE + of_nat i) = (got @ d) ! i"
    using write_ram_extends [of got "ram s" d] assms(1,2) by (simp add: uploading_def)
  then show ?thesis
    using assms(1,3)
    by (simp add: uploading_def stored_def segment_def conn_there_def cur_conn_def upd_hs_def upd_conn_def hs_def)
qed

lemma enough_nat:
  assumes "unat tot + length bv + 6 < 2 ^ 32" "n < 2 ^ 32"
  shows "tot + of_nat (length bv) + 6 \<le> (of_nat n :: u32) \<longleftrightarrow> unat tot + length bv + 6 \<le> n"
proof -
  have "unat (tot + of_nat (length bv) + 6) = unat tot + length bv + 6"
    using assms(1) by (simp add: unat_word_ariths unat_of_nat mod_simps)
  then show ?thesis using assms(2) by (simp add: word_le_nat_alt unat_of_nat)
qed

lemma deliver_append: "deliver P (ds @ es) s = bind_result (deliver P ds s) (deliver P es)"
proof (induction ds arbitrary: s)
  case (Cons d ds)
  then show ?case by (cases "httpd_appcall P (segment d s)") auto
qed simp

lemma deliver_more:
  assumes "uploading bv tot got s" "\<forall>d\<in>set ds. length d < 1448" "length (got @ concat ds) < unat tot + length bv + 6"
    "unat tot + length bv + 6 < 2 ^ 32"
  shows "\<exists>s'. deliver P ds s = Inr s' \<and> uploading bv tot (got @ concat ds) s'"
  using assms
proof (induction ds arbitrary: got s)
  case (Cons d ds)
  have len: "length (got @ d) < unat tot + length bv + 6" "length got + length d < 2 ^ 32" "length d < 1448"
    using Cons.prems by auto
  have up: "uploading bv tot (got @ d) (stored d s)" using stored_sel [OF Cons.prems(1) len(2,3)] .
  then have h: "hs_upload_total (hs (stored d s)) = tot" "hs_upload (hs (stored d s)) = of_nat (length (got @ d))"
    by (simp_all add: uploading_def)
  have "httpd_appcall P (segment d s) = Inr (stored d s)"
    unfolding appcall_segment [OF Cons.prems(1) len(3)] h
    using enough_nat [OF Cons.prems(4), of "length (got @ d)"] len(1,2) by simp
  then show ?case using Cons.IH [OF up] Cons.prems by simp
qed simp

lemma upload_done_ok:
  assumes "open_page P (ff_name (file_flashing_html P)) = Inr page" "\<not> webfailsafe_upload_failed s"
  shows "\<exists>s'. upload_done P s = Inr s' \<and> webfailsafe_post_done s' \<and> \<not> webfailsafe_upload_failed s'
    \<and> NetBootFileXferSize s' = hs_upload_total (hs s) \<and> ram s' = ram s"
  using assms by (simp add: upload_done_def Let_def serve_def send_chunk_def uip_send_def httpd_state_reset_def)

text \<open>C18: While an image is uploaded, the data of the segments is stored in RAM without gaps, in the order of the
  segments.  When the announced number of bytes has arrived the upload is marked complete, the size is
  the announced size of the image, and that many bytes at the upload address are the first bytes of the data that was
  sent, with the closing boundary behind them.
\<close>

theorem upload_arrives_in_ram:
  assumes up: "uploading bv tot got s" and segs: "\<forall>d\<in>set (ds @ [d]). length d < 1448"
    and more: "length (got @ concat ds) < unat tot + length bv + 6"
    and full: "unat tot + length bv + 6 \<le> length (got @ concat ds @ d)" "length (got @ concat ds @ d) < 2 ^ 32"
    and page: "open_page P (ff_name (file_flashing_html P)) = Inr page"
  shows "\<exists>s'. deliver P (ds @ [d]) s = Inr s' \<and> webfailsafe_post_done s' \<and> \<not> webfailsafe_upload_failed s'
    \<and> NetBootFileXferSize s' = tot \<and> (\<forall>i<unat tot. ram s' (IMAGE + of_nat i) = (got @ concat ds @ d) ! i)"
proof -
  have nw: "unat tot + length bv + 6 < 2 ^ 32" using full by linarith
  obtain t where t: "deliver P ds s = Inr t" "uploading bv tot (got @ concat ds) t"
    using deliver_more [OF up _ more nw] segs by auto
  have len: "length (got @ concat ds) + length d < 2 ^ 32" "length d < 1448" using full segs by auto
  have st: "uploading bv tot (got @ concat ds @ d) (stored d t)" using stored_sel [OF t(2) len] by simp
  then have h: "hs_upload_total (hs (stored d t)) = tot" "hs_upload (hs (stored d t)) = of_nat (length (got @ concat ds @ d))"
      "\<not> webfailsafe_upload_failed (stored d t)"
    by (simp_all add: uploading_def)
  have last: "httpd_appcall P (segment d t) = upload_done P (stored d t)"
    unfolding appcall_segment [OF t(2) len(2)] h using enough_nat [OF nw full(2)] full(1) by simp
  obtain s' where s': "upload_done P (stored d t) = Inr s'" "webfailsafe_post_done s'" "\<not> webfailsafe_upload_failed s'"
      "NetBootFileXferSize s' = tot" "ram s' = ram (stored d t)"
    using upload_done_ok [OF page h(3)] h(1) by auto
  have "\<forall>i<unat tot. ram s' (IMAGE + of_nat i) = (got @ concat ds @ d) ! i"
    using st s'(5) full(1) unfolding uploading_def by auto
  then show ?thesis using t(1) last s' by (simp add: deliver_append)
qed

definition upload_conn :: uip_conn where
  "upload_conn = boot_conn\<lparr>lport := htons 80, tcpstateflags := ESTABLISHED, mss := 1446,
     appstate := (appstate boot_conn)\<lparr>hs_state := STATE_UPLOAD_REQUEST, hs_upload_total := 2\<rparr>\<rparr>"

definition upload_open :: httpd where
  "upload_open = boot_state\<lparr>uip_conns := [upload_conn, boot_conn], data_start_found := True,
     boundary_value := Some [0x2d, 0x2d, 0x58], webfailsafe_data_pointer := IMAGE\<rparr>"

definition page_site :: "unit site" where
  "page_site = no_site\<lparr>fs_files := [\<lparr>ff_name = [0x2f, 0x66, 0], ff_obj = 0, ff_len = 3\<rparr>],
     file_flashing_html := \<lparr>ff_name = [0x2f, 0x66, 0], ff_obj = 0, ff_len = 3\<rparr>\<rparr>"

theorem upload_arrives_in_ram_witness:
  "\<exists>s'. deliver page_site [[1, 2, 0x0d], [0x0a, 0x2d, 0x2d, 0x58, 0x2d, 0x2d, 0x0d, 0x0a]] upload_open = Inr s'
     \<and> NetBootFileXferSize s' = 2 \<and> ram s' IMAGE = 1 \<and> ram s' (IMAGE + 1) = 2"
proof -
  have up: "uploading [0x2d, 0x2d, 0x58] 2 [] upload_open"
    by (simp add: uploading_def upload_open_def upload_conn_def conn_there_def boot_state_def boot_conn_def cur_conn_def hs_def)
  have page: "open_page page_site (ff_name (file_flashing_html page_site)) = Inr \<lparr>ff_name = [0x2f, 0x66, 0], ff_obj = 0, ff_len = 3\<rparr>"
    by (simp add: open_page_def page_site_def no_site_def fs_strcmp_def fs_strcmp_strict_def eval_nat_numeral)
  have "\<exists>s'. deliver page_site ([[1, 2, 0x0d]] @ [[0x0a, 0x2d, 0x2d, 0x58, 0x2d, 0x2d, 0x0d, 0x0a]]) upload_open = Inr s'
      \<and> webfailsafe_post_done s' \<and> \<not> webfailsafe_upload_failed s' \<and> NetBootFileXferSize s' = 2
      \<and> (\<forall>i<unat (2 :: u32). ram s' (IMAGE + of_nat i) =
           ([] @ concat [[1, 2, 0x0d]] @ [0x0a, 0x2d, 0x2d, 0x58, 0x2d, 0x2d, 0x0d, 0x0a]) ! i)"
    by (rule upload_arrives_in_ram [OF up _ _ _ _ page]) simp_all
  then obtain s' where "deliver page_site [[1, 2, 0x0d], [0x0a, 0x2d, 0x2d, 0x58, 0x2d, 0x2d, 0x0d, 0x0a]] upload_open = Inr s'"
      "NetBootFileXferSize s' = 2" "\<forall>i<2. ram s' (IMAGE + of_nat i) = [1, 2, 0x0d, 0x0a, 0x2d, 0x2d, 0x58, 0x2d, 0x2d, 0x0d, 0x0a] ! i"
    by auto
  then show ?thesis by (intro exI [of _ s']) (force simp: less_2_cases_iff)
qed

lemma first_chunk_length:
  assumes "read_mem s (In_Buf (54 + en)) (unat up) = Inr bs" "length (uip_buf s) = UIP_BUF_BYTES"
    "up = (ucast (n :: u16) - of_nat en :: u32)" "en < unat n + 4"
  shows "unat up = unat n - en" "bs = bytes_at (uip_buf s) (54 + en) (unat n - en)"
proof -
  have n: "unat n < 65536" using unsigned_less [of n, where 'a = nat] by simp
  have r: "unat up = 0 \<or> 54 + en + unat up \<le> 1502" "bs = bytes_at (uip_buf s) (54 + en) (unat up)"
    using assms(1,2) by (cases "unat up"; auto simp: bytes_at_def split: if_splits)+
  have "up + of_nat en = ucast n" by (simp add: assms(3))
  then have "unat (up + of_nat en) = unat n" using n by (simp add: unsigned_ucast_eq take_bit_nat_eq_self)
  moreover have "unat up + en < 2 ^ 32" using r(1) assms(4) n by auto
  ultimately have "unat up + en = unat n" by (simp add: unat_word_ariths unat_of_nat mod_simps)
  then have "unat n - en = unat up" by simp
  then show "unat up = unat n - en" "bs = bytes_at (uip_buf s) (54 + en) (unat n - en)" using r(2) by simp_all
qed

text \<open>The first segment with data starts such an upload.\<close>

lemma first_chunk_uploading:
  assumes fc: "httpd_findandstore_firstchunk s = Inr (True, s')" and s: "conn_there s" "length (uip_buf s) = UIP_BUF_BYTES"
    "lport (cur_conn s) = htons 80" "hs_state (hs s) = STATE_UPLOAD_REQUEST" "uip_appdata s = In_Buf 54"
    "webfailsafe_data_pointer s = IMAGE" "boundary_value s = Some bv" and ok: "\<not> webfailsafe_upload_failed s'"
  shows "\<exists>en tot. uploading bv tot (bytes_at (uip_buf s) (54 + en) (unat (uip_len s) - en)) (s'\<lparr>data_start_found := True\<rparr>)"
proof -
  define tot where "tot x y = hs_upload_total (hs s) - of_nat (x + y + 4 - x) - of_nat (length bv) - 6" for x y
  define up where "up x y = (ucast (uip_len s) - of_nat (x + y + 4) :: u32)" for x y
  define t where "t x y k = upd_hs (\<lambda>h. h\<lparr>hs_upload := up x y\<rparr>) (upd_hs (\<lambda>h. h\<lparr>hs_upload_total := tot x y\<rparr>)
      (s\<lparr>webfailsafe_upgrade_type := k\<rparr>))" for x y k
  have ft: "\<not> webfailsafe_upload_failed s"
    using fc ok s(7) unfolding httpd_findandstore_firstchunk_def by (auto simp: Let_def split: option.splits if_splits)
  have "\<exists>x y k bs. x + y < unat (uip_len s) \<and> read_mem (t x y k) (In_Buf (54 + (x + y + 4))) (unat (up x y)) = Inr bs
      \<and> s' = httpd_download_progress ((t x y k)\<lparr>ram := write_ram IMAGE bs (ram s), webfailsafe_data_pointer := IMAGE + up x y\<rparr>)"
    using fc ok s(5,6,7) unfolding httpd_findandstore_firstchunk_def t_def up_def tot_def
    by (auto simp: Let_def split: option.splits if_splits) blast+
  then obtain x y k bs where xy: "x + y < unat (uip_len s)" and
      rd: "read_mem (t x y k) (In_Buf (54 + (x + y + 4))) (unat (up x y)) = Inr bs" and
      s': "s' = httpd_download_progress ((t x y k)\<lparr>ram := write_ram IMAGE bs (ram s), webfailsafe_data_pointer := IMAGE + up x y\<rparr>)"
    by blast
  have t: "length (uip_buf (t x y k)) = UIP_BUF_BYTES" "uip_buf (t x y k) = uip_buf s" using s(2) by (simp_all add: t_def)
  have "x + y + 4 < unat (uip_len s) + 4" using xy by simp
  note fl = first_chunk_length [OF rd t(1) up_def this]
  have up: "up x y = of_nat (length bs)"
    using read_mem_length [OF rd] by simp
  have hs: "hs (t x y k) = (hs s)\<lparr>hs_upload_total := tot x y, hs_upload := up x y\<rparr>" using s(1) by (simp add: t_def)
  have "length bs < 2 ^ 32" using read_mem_length [OF rd] unsigned_less [of "up x y", where 'a = nat] by simp
  then have "\<forall>i<length bs. write_ram IMAGE bs (ram s) (IMAGE + of_nat i) = bs ! i"
    using write_ram_extends [of "[]" "ram s" bs] by simp
  then have "uploading bv (tot x y) bs (s'\<lparr>data_start_found := True\<rparr>)"
    using s ft up hs unfolding uploading_def s'
    by (simp add: conn_there_def cur_conn_def t_def) (simp add: upd_hs_def upd_conn_def)
  then show ?thesis unfolding fl(2) t(2) by blast
qed

text \<open>
  Data that arrives with the segment that completes the handshake is lost: the callback looks at
  \<open>uip_connected()\<close> first and returns.
\<close>

lemma handshake_data_lost:
  assumes "lport (cur_conn s) = htons 80" "uip_flags s = UIP_CONNECTED OR UIP_NEWDATA"
  shows "httpd_appcall P s = Inr (httpd_state_reset s)"
  using assms by (simp add: httpd_appcall_def)

end
